(* ===== verification/Prelude.thy ===== *)
theory Prelude
  imports Main "HOL-Library.Word"
begin

unbundle bit_operations_syntax

section \<open>Shared types, error values and list lemmas\<close>

text \<open>
  The vocabulary every component theory shares: the C integer types as words, the ways a
  kernel routine can fail to return (a \<open>panic\<close> with its message, a null dereference, an
  access outside an array, a loop that never ends, a call to \<open>sleep\<close> that gives up the
  processor), the sum type of results with its sequencing combinator \<open>bindR\<close>, the
  relational view of a singly linked list threaded through a \<open>next\<close> field
  (\<open>lseg\<close> and \<open>plist\<close>), and byte-level reads of a flat memory.
\<close>

subsection \<open>C types, channels and results\<close>

type_synonym u8 = "8 word"
type_synonym u16 = "16 word"
type_synonym u32 = "32 word"

text \<open>
  Sleep channels are addresses of kernel objects. Distinct objects have distinct addresses,
  so an address is the object it names: the process, buffer, inode or pipe by its index.
\<close>

datatype chan =
    ChNull
  | ChProc nat
  | ChTicks
  | ChBuf nat
  | ChInode nat
  | ChLog
  | ChPipeRead nat
  | ChPipeWrite nat
  | ChInput

datatype kerror =
    Panic string
  | NullDeref
  | OutOfBounds
  | Diverge
  | Sleeps chan

type_synonym 'a kres = "kerror + 'a"

definition bindR :: "'a kres \<Rightarrow> ('a \<Rightarrow> 'b kres) \<Rightarrow> 'b kres" where
  "bindR m f = (case m of Inl e \<Rightarrow> Inl e | Inr x \<Rightarrow> f x)"

text \<open>A loop that runs a fallible body once per element of a list, in order.\<close>

fun foldR :: "('a \<Rightarrow> 's \<Rightarrow> 's kres) \<Rightarrow> 'a list \<Rightarrow> 's \<Rightarrow> 's kres" where
  "foldR f [] s = Inr s"
| "foldR f (x # xs) s = bindR (f x s) (foldR f xs)"

text \<open>Turning an optional value into a result: the missing value is the given error.\<close>

definition of_option :: "kerror \<Rightarrow> 'a option \<Rightarrow> 'a kres" where
  "of_option e x = (case x of None \<Rightarrow> Inl e | Some v \<Rightarrow> Inr v)"

subsection \<open>Linked lists through a next field\<close>

text \<open>
  A pointer to a table entry is its index, or \<open>None\<close> for the null pointer.
  \<open>lseg nx p xs q\<close>: following \<open>nx\<close> from \<open>p\<close> visits exactly \<open>xs\<close>
  and arrives at \<open>q\<close>.
\<close>

type_synonym ptr = "nat option"

primrec lseg :: "(nat \<Rightarrow> ptr) \<Rightarrow> ptr \<Rightarrow> nat list \<Rightarrow> ptr \<Rightarrow> bool" where
  "lseg nx p [] q \<longleftrightarrow> p = q"
| "lseg nx p (x # xs) q \<longleftrightarrow> p = Some x \<and> lseg nx (nx x) xs q"

definition plist :: "(nat \<Rightarrow> ptr) \<Rightarrow> ptr \<Rightarrow> nat list \<Rightarrow> bool" where
  "plist nx p xs \<longleftrightarrow> lseg nx p xs None \<and> distinct xs"

subsection \<open>Bytes in a flat memory\<close>

type_synonym mem = "nat \<Rightarrow> u8"

definition rd :: "mem \<Rightarrow> nat \<Rightarrow> nat \<Rightarrow> u8 list" where
  "rd m a n = map m [a..<a + n]"

definition wr :: "mem \<Rightarrow> nat \<Rightarrow> u8 list \<Rightarrow> mem" where
  "wr m a xs = (\<lambda>x. if a \<le> x \<and> x < a + length xs then xs ! (x - a) else m x)"

text \<open>A NUL-terminated string: the bytes before the first zero.\<close>

definition cstr :: "mem \<Rightarrow> nat \<Rightarrow> u8 list \<Rightarrow> bool" where
  "cstr m a xs \<longleftrightarrow> rd m a (length xs) = xs \<and> 0 \<notin> set xs \<and> m (a + length xs) = 0"

section \<open>Lemmas\<close>

named_theorems kres_simps \<open>evaluation of results\<close>

subsection \<open>Results\<close>

lemma bindR_simps [simp, kres_simps]:
  "bindR (Inl e) f = Inl e"
  "bindR (Inr x) f = f x"
  by (simp_all add: bindR_def)

lemma bindR_InrE [elim!]:
  assumes "bindR m f = Inr y"
  obtains x where "m = Inr x" and "f x = Inr y"
  using assms by (cases m) auto

lemma bindR_eq_Inr: "bindR m f = Inr y \<longleftrightarrow> (\<exists>x. m = Inr x \<and> f x = Inr y)"
  by (cases m) auto

lemma bindR_assoc: "bindR (bindR m f) g = bindR m (\<lambda>x. bindR (f x) g)"
  by (cases m) auto

lemma bindR_cong [fundef_cong]:
  "m = m' \<Longrightarrow> (\<And>x. m' = Inr x \<Longrightarrow> f x = f' x) \<Longrightarrow> bindR m f = bindR m' f'"
  by (cases m') auto

lemma of_option_simps [simp, kres_simps]:
  "of_option e None = Inl e"
  "of_option e (Some v) = Inr v"
  by (simp_all add: of_option_def)

lemma foldR_append: "foldR f (xs @ ys) s = bindR (foldR f xs s) (foldR f ys)"
  by (induction xs arbitrary: s) (auto simp: bindR_assoc cong: bindR_cong)

text \<open>A loop whose body keeps an invariant and never fails keeps it and never fails.\<close>

lemma foldR_invariant:
  assumes "P s"
    and "\<And>x s. x \<in> set xs \<Longrightarrow> P s \<Longrightarrow> \<exists>s'. f x s = Inr s' \<and> P s'"
  shows "\<exists>s'. foldR f xs s = Inr s' \<and> P s'"
  using assms
proof (induction xs arbitrary: s)
  case Nil
  then show ?case by simp
next
  case (Cons x xs)
  from Cons.prems(2) [of x s] Cons.prems(1) obtain s1 where "f x s = Inr s1" and "P s1"
    by auto
  moreover from Cons.IH [OF \<open>P s1\<close>] Cons.prems(2) obtain s2
    where "foldR f xs s1 = Inr s2" and "P s2" by fastforce
  ultimately show ?case by simp
qed

subsection \<open>Linked lists\<close>

lemma lseg_None [simp]: "lseg nx None xs q \<longleftrightarrow> xs = [] \<and> q = None"
  by (cases xs) auto

lemma lseg_append: "lseg nx p (xs @ ys) q \<longleftrightarrow> (\<exists>r. lseg nx p xs r \<and> lseg nx r ys q)"
  by (induction xs arbitrary: p) auto

lemma lseg_upd [simp]: "x \<notin> set xs \<Longrightarrow> lseg (nx(x := v)) p xs q \<longleftrightarrow> lseg nx p xs q"
  by (induction xs arbitrary: p) auto

lemma lseg_cong: "(\<And>x. x \<in> set xs \<Longrightarrow> nx x = nx' x) \<Longrightarrow> lseg nx p xs q \<longleftrightarrow> lseg nx' p xs q"
  by (induction xs arbitrary: p) auto

lemma lseg_unique: "lseg nx p xs None \<Longrightarrow> lseg nx p ys None \<Longrightarrow> xs = ys"
proof (induction xs arbitrary: p ys)
  case Nil
  then show ?case by (cases ys) auto
next
  case (Cons x xs)
  then show ?case by (cases ys) auto
qed

lemma plist_Nil [simp]: "plist nx p [] \<longleftrightarrow> p = None"
  by (simp add: plist_def)

lemma plist_None [simp]: "plist nx None xs \<longleftrightarrow> xs = []"
  by (auto simp: plist_def)

lemma plist_Cons: "plist nx p (x # xs) \<longleftrightarrow> p = Some x \<and> plist nx (nx x) xs \<and> x \<notin> set xs"
  by (auto simp: plist_def)

lemma plist_SomeE:
  assumes "plist nx (Some x) xs"
  obtains ys where "xs = x # ys" and "plist nx (nx x) ys" and "x \<notin> set ys"
  using assms by (cases xs) (auto simp: plist_def)

lemma plist_upd [simp]: "x \<notin> set xs \<Longrightarrow> plist (nx(x := v)) p xs \<longleftrightarrow> plist nx p xs"
  by (simp add: plist_def)

lemma plist_cong: "(\<And>x. x \<in> set xs \<Longrightarrow> nx x = nx' x) \<Longrightarrow> plist nx p xs \<longleftrightarrow> plist nx' p xs"
  unfolding plist_def using lseg_cong by blast

lemma plist_unique: "plist nx p xs \<Longrightarrow> plist nx p ys \<Longrightarrow> xs = ys"
  by (auto simp: plist_def dest: lseg_unique)

text \<open>Linking a fresh entry behind the last one appends it.\<close>

lemma plist_snoc:
  assumes "plist nx p (xs @ [c])" and "x \<notin> set (xs @ [c])"
  shows "plist (nx(x := None, c := Some x)) p (xs @ [c, x])"
  using assms by (auto simp: plist_def lseg_append)

text \<open>Unlinking an entry between two others removes it.\<close>

lemma plist_unlink:
  assumes "plist nx p (xs @ c # x # ys)"
  shows "plist (nx(c := nx x, x := None)) p (xs @ c # ys)"
  using assms by (auto simp: plist_def lseg_append)

subsection \<open>Bytes\<close>

lemma length_rd [simp]: "length (rd m a n) = n"
  by (simp add: rd_def)

lemma rd_nth [simp]: "i < n \<Longrightarrow> rd m a n ! i = m (a + i)"
  by (simp add: rd_def)

lemma rd_0 [simp]: "rd m a 0 = []"
  by (simp add: rd_def)

lemma rd_Suc: "rd m a (Suc n) = m a # rd m (Suc a) n"
  by (simp add: rd_def upt_rec)

lemma rd_snoc: "rd m a (Suc n) = rd m a n @ [m (a + n)]"
  by (simp add: rd_def)

lemma rd_eqI: "(\<And>i. i < n \<Longrightarrow> m (a + i) = m' (b + i)) \<Longrightarrow> rd m a n = rd m' b n"
  by (rule nth_equalityI) auto

lemma rd_wr [simp]: "rd (wr m a xs) a (length xs) = xs"
  by (rule nth_equalityI) (auto simp: wr_def)

lemma rd_wr_other: "b + n \<le> a \<or> a + length xs \<le> b \<Longrightarrow> rd (wr m a xs) b n = rd m b n"
  by (rule rd_eqI) (auto simp: wr_def)

lemma find_SomeD: "List.find P xs = Some x \<Longrightarrow> x \<in> set xs \<and> P x"
  by (induction xs) (auto split: if_splits)

lemma wr_nth: "i < length xs \<Longrightarrow> wr m a xs (a + i) = xs ! i"
  by (simp add: wr_def)

lemma wr_other: "x < a \<or> a + length xs \<le> x \<Longrightarrow> wr m a xs x = m x"
  by (auto simp: wr_def)

lemma cstr_nth:
  assumes "cstr m a xs" and "i < length xs"
  shows "m (a + i) = xs ! i" and "m (a + i) \<noteq> 0"
proof -
  from assms have "rd m a (length xs) ! i = xs ! i" by (simp add: cstr_def)
  then show e: "m (a + i) = xs ! i" using assms(2) by simp
  have "xs ! i \<in> set xs" using assms(2) by simp
  then show "m (a + i) \<noteq> 0" using e assms(1) by (auto simp: cstr_def)
qed

lemma cstr_end: "cstr m a xs \<Longrightarrow> m (a + length xs) = 0"
  by (simp add: cstr_def)

lemma cstr_Nil [simp]: "cstr m a [] \<longleftrightarrow> m a = 0"
  by (simp add: cstr_def)

lemma cstr_Cons: "cstr m a (x # xs) \<longleftrightarrow> m a = x \<and> x \<noteq> 0 \<and> cstr m (Suc a) xs"
  by (auto simp: cstr_def rd_Suc)

subsection \<open>Words\<close>

lemma word_pred_bounds:
  fixes x :: "'a::len word"
  assumes "0 < x" and "x - 1 \<noteq> 0" and "x \<le> c"
  shows "0 < x - 1 \<and> x - 1 \<le> c"
proof -
  from assms(1) have "unat x \<noteq> 0" by (simp add: unat_gt_0)
  then have "unat (x - 1) = unat x - 1" by (metis One_nat_def unat_minus_one unat_0)
  then show ?thesis using assms by (simp add: word_le_nat_alt word_neq_0_conv [symmetric])
qed

lemma bit_ucast_byte:
  "bit (ucast (ucast x :: u8) :: u32) j \<longleftrightarrow> j < 8 \<and> bit x j" for x :: u32
  by (auto simp: bit_ucast_iff dest: bit_imp_le_length)

lemma bytes_of_word32:
  fixes w :: u32
  shows "ucast (ucast w :: u8) OR push_bit 8 (ucast (ucast (drop_bit 8 w) :: u8)) OR
     push_bit 16 (ucast (ucast (drop_bit 16 w) :: u8)) OR
     push_bit 24 (ucast (ucast (drop_bit 24 w) :: u8)) = w" (is "?l = w")
proof (rule bit_word_eqI)
  fix n assume n: "n < LENGTH(32)"
  consider "n < 8" | "8 \<le> n" "n < 16" | "16 \<le> n" "n < 24" | "24 \<le> n" using n by fastforce
  then show "bit ?l n = bit w n"
    using n by cases (simp_all add: bit_or_iff bit_push_bit_iff bit_ucast_byte bit_drop_bit_eq, auto)
qed

end
