(* ===== verification/Ptable.thy ===== *)
theory Ptable
  imports Prelude
begin

section \<open>The process table and its lists (proc.c, proc.h)\<close>

text \<open>
  The data of \<open>proc.h\<close> and the list routines of the scheduler build of
  \<open>proc.c\<close> (the Makefile defines \<open>CS333_SCHEDULER\<close>): one free list and three
  ready lists, all threaded through the \<open>next\<close> field of the entries of
  \<open>ptable.proc\<close>. The routines walk and relink that field; \<open>ready_rep\<close> and
  \<open>free_rep\<close> read the lists off the table, and the lemmas show that the routines act on
  them as a queue does. The locale \<open>proc_queue\<close> is that interface; the free list and
  each ready list interpret it.
\<close>

subsection \<open>Definitions: the data\<close>

definition NPROC :: nat where "NPROC = 64"
definition SIZE :: nat where "SIZE = 3"
definition HIGH :: int where "HIGH = 0"
definition DEFAULTPRIO :: int where "DEFAULTPRIO = 1"
definition LOW :: int where "LOW = 2"
definition COUNT :: u32 where "COUNT = 4500"

datatype procstate = UNUSED | EMBRYO | SLEEPING | RUNNABLE | RUNNING | ZOMBIE

record trapframe =
  tf_edi :: u32
  tf_esi :: u32
  tf_ebp :: u32
  tf_oesp :: u32
  tf_ebx :: u32
  tf_edx :: u32
  tf_ecx :: u32
  tf_eax :: u32
  tf_gs :: u16
  tf_fs :: u16
  tf_es :: u16
  tf_ds :: u16
  tf_trapno :: u32
  tf_err :: u32
  tf_eip :: u32
  tf_cs :: u16
  tf_eflags :: u32
  tf_esp :: u32
  tf_ss :: u16

record cpu_context =
  cx_edi :: u32
  cx_esi :: u32
  cx_ebx :: u32
  cx_ebp :: u32
  cx_eip :: u32

text \<open>
  \<open>tf\<close> and \<open>context\<close> point into the kernel stack; the record keeps the address
  and what is stored there, and \<open>p_retaddr\<close> is the word between the two.
\<close>

record proc =
  p_sz :: u32
  p_pgdir :: u32
  p_kstack :: u32
  p_state :: procstate
  p_pid :: int
  p_gid :: u32
  p_uid :: u32
  p_parent :: ptr
  p_tf_at :: u32
  p_tf :: trapframe
  p_retaddr :: u32
  p_context_at :: u32
  p_context :: cpu_context
  p_chan :: chan
  p_killed :: bool
  p_ofile :: "ptr list"
  p_cwd :: ptr
  p_name :: "u8 list"
  p_next :: ptr
  p_priority :: int

text \<open>The globals of \<open>proc.c\<close> and, for each CPU, its \<open>proc\<close> variable, stack
  pointer in the task state and page table register.\<close>

record cpu_regs =
  c_proc :: ptr
  c_esp0 :: u32
  c_cr3 :: u32

record ptable =
  procs :: "nat \<Rightarrow> proc"
  readyList :: "nat \<Rightarrow> ptr"
  freeList :: ptr
  timeToReset :: u32
  initproc :: ptr
  nextpid :: int
  kpgdir :: u32
  cpus :: "nat \<Rightarrow> cpu_regs"

definition updp :: "nat \<Rightarrow> (proc \<Rightarrow> proc) \<Rightarrow> ptable \<Rightarrow> ptable" where
  "updp p f s = s\<lparr>procs := (procs s)(p := f (procs s p))\<rparr>"

definition set_next :: "nat \<Rightarrow> ptr \<Rightarrow> ptable \<Rightarrow> ptable" where
  "set_next p q = updp p (\<lambda>r. r\<lparr>p_next := q\<rparr>)"

definition set_state :: "nat \<Rightarrow> procstate \<Rightarrow> ptable \<Rightarrow> ptable" where
  "set_state p st = updp p (\<lambda>r. r\<lparr>p_state := st\<rparr>)"

definition set_priority :: "nat \<Rightarrow> int \<Rightarrow> ptable \<Rightarrow> ptable" where
  "set_priority p v = updp p (\<lambda>r. r\<lparr>p_priority := v\<rparr>)"

definition nextf :: "ptable \<Rightarrow> nat \<Rightarrow> ptr" where
  "nextf s p = p_next (procs s p)"

definition set_ready :: "nat \<Rightarrow> ptr \<Rightarrow> ptable \<Rightarrow> ptable" where
  "set_ready i q s = s\<lparr>readyList := (readyList s)(i := q)\<rparr>"

subsection \<open>Definitions: the list routines\<close>

definition initFreeList_step :: "nat \<Rightarrow> ptable \<Rightarrow> ptable" where
  "initFreeList_step p s =
     (let s = (if p_state (procs s p) = UNUSED
               then (set_next p (freeList s) s)\<lparr>freeList := Some p\<rparr> else s)
      in set_priority p DEFAULTPRIO s)"

definition initFreeList :: "ptable \<Rightarrow> ptable" where
  "initFreeList s = fold initFreeList_step [0..<NPROC] (s\<lparr>freeList := None\<rparr>)"

text \<open>\<open>while (current->next != 0) current = current->next\<close>\<close>

partial_function (option) last_from :: "(nat \<Rightarrow> ptr) \<Rightarrow> nat \<Rightarrow> nat option" where
  "last_from nx current =
     (case nx current of None \<Rightarrow> Some current | Some q \<Rightarrow> last_from nx q)"

definition putOnFreeList :: "nat \<Rightarrow> ptable \<Rightarrow> ptable kres" where
  "putOnFreeList p s =
     (case freeList s of
        None \<Rightarrow> Inr (set_next p None (s\<lparr>freeList := Some p\<rparr>))
      | Some current \<Rightarrow>
          bindR (of_option Diverge (last_from (nextf s) current))
            (\<lambda>current. Inr (set_next current (Some p) (set_next p None s))))"

definition ready_index :: "int \<Rightarrow> nat kres" where
  "ready_index priority =
     (if 0 \<le> priority \<and> priority < int SIZE then Inr (nat priority) else Inl OutOfBounds)"

definition putOnReadyList :: "nat \<Rightarrow> int \<Rightarrow> ptable \<Rightarrow> ptable kres" where
  "putOnReadyList p priority s =
     bindR (ready_index priority) (\<lambda>i.
       case readyList s i of
         None \<Rightarrow> Inr (set_next p None (set_ready i (Some p) s))
       | Some current \<Rightarrow>
           bindR (of_option Diverge (last_from (nextf s) current))
             (\<lambda>current. Inr (set_next current (Some p) (set_next p None s))))"

text \<open>
  The search loop of \<open>removeFromReadyList\<close>. The loop does not stop after the entry is
  unlinked: it goes on to \<open>current->next\<close>, which is null when the entry was the last one,
  and the loop condition then reads through the null pointer.
\<close>

partial_function (option) remove_loop :: "nat \<Rightarrow> nat \<Rightarrow> ptable \<Rightarrow> ptable kres option" where
  "remove_loop p current s =
     (case nextf s current of
        None \<Rightarrow> Some (Inr s)
      | Some q \<Rightarrow>
          (let s = (if q = p then set_next p None (set_next current (nextf s q) s) else s)
           in (case nextf s current of
                 None \<Rightarrow> Some (Inl NullDeref)
               | Some current' \<Rightarrow> remove_loop p current' s)))"

definition run_loop :: "'a kres option \<Rightarrow> 'a kres" where
  "run_loop r = (case r of None \<Rightarrow> Inl Diverge | Some x \<Rightarrow> x)"

definition removeFromReadyList :: "nat \<Rightarrow> int \<Rightarrow> ptable \<Rightarrow> ptable kres" where
  "removeFromReadyList p priority s =
     bindR (ready_index priority) (\<lambda>i.
       case readyList s i of
         None \<Rightarrow> Inr s
       | Some current \<Rightarrow>
           if current = p then Inr (set_next p None (set_ready i (nextf s current) s))
           else run_loop (remove_loop p current s))"

text \<open>One of the two draining loops of \<open>resetReadyList\<close>.\<close>

partial_function (option) reset_loop :: "ptr \<Rightarrow> ptable \<Rightarrow> ptable kres option" where
  "reset_loop current s =
     (case current of
        None \<Rightarrow> Some (Inr s)
      | Some c \<Rightarrow>
          (let q = nextf s c in
           case bindR (removeFromReadyList c (p_priority (procs s c)) s) (\<lambda>s.
                  let s = set_priority c DEFAULTPRIO s
                  in putOnReadyList c (p_priority (procs s c)) s) of
             Inl e \<Rightarrow> Some (Inl e)
           | Inr s \<Rightarrow> reset_loop q s))"

definition reset_prio :: "nat \<Rightarrow> ptable \<Rightarrow> ptable" where
  "reset_prio p s =
     (if p_state (procs s p) = RUNNING \<or> p_state (procs s p) = SLEEPING
      then set_priority p DEFAULTPRIO s else s)"

definition resetReadyList :: "ptable \<Rightarrow> ptable kres" where
  "resetReadyList s =
     bindR (run_loop (reset_loop (readyList s (nat HIGH)) s)) (\<lambda>s.
     bindR (run_loop (reset_loop (readyList s (nat LOW)) s)) (\<lambda>s.
     Inr (fold reset_prio [0..<NPROC] s)))"

subsection \<open>Definitions: the lists a table holds\<close>

definition free_rep :: "ptable \<Rightarrow> nat list \<Rightarrow> bool" where
  "free_rep s xs \<longleftrightarrow> plist (nextf s) (freeList s) xs"

definition ready_rep :: "nat \<Rightarrow> ptable \<Rightarrow> nat list \<Rightarrow> bool" where
  "ready_rep i s xs \<longleftrightarrow> plist (nextf s) (readyList s i) xs"

text \<open>
  The four lists of a table: the free list holds \<open>F\<close>, the ready list of priority \<open>i\<close>
  holds \<open>R i\<close>, and no entry is on two of them. \<open>strip\<close> forgets the lists: two
  tables with the same \<open>strip\<close> differ in nothing else.
\<close>

definition lists_rep :: "ptable \<Rightarrow> nat list \<Rightarrow> (nat \<Rightarrow> nat list) \<Rightarrow> bool" where
  "lists_rep s F R \<longleftrightarrow> free_rep s F \<and> (\<forall>i<SIZE. ready_rep i s (R i)) \<and>
     (\<forall>i<SIZE. set F \<inter> set (R i) = {}) \<and>
     (\<forall>i<SIZE. \<forall>j<SIZE. i \<noteq> j \<longrightarrow> set (R i) \<inter> set (R j) = {})"

definition strip :: "ptable \<Rightarrow> ptable" where
  "strip s = s\<lparr>procs := \<lambda>p. (procs s p)\<lparr>p_next := None\<rparr>, readyList := \<lambda>_. None, freeList := None\<rparr>"

definition listed :: "nat list \<Rightarrow> (nat \<Rightarrow> nat list) \<Rightarrow> nat set" where
  "listed F R = set F \<union> (\<Union>i<SIZE. set (R i))"

definition hd_ptr :: "nat list \<Rightarrow> ptr" where
  "hd_ptr xs = (case xs of [] \<Rightarrow> None | x # _ \<Rightarrow> Some x)"

text \<open>The table in which the entries that satisfy \<open>P\<close> have the default priority.\<close>

definition prio_map :: "(nat \<Rightarrow> bool) \<Rightarrow> ptable \<Rightarrow> ptable" where
  "prio_map P s = s\<lparr>procs := \<lambda>p. if P p then (procs s p)\<lparr>p_priority := DEFAULTPRIO\<rparr> else procs s p\<rparr>"

text \<open>Taking the first entry of the free list, as \<open>allocproc\<close> does.\<close>

definition takeFromFreeList :: "nat \<Rightarrow> ptable \<Rightarrow> ptable" where
  "takeFromFreeList p s = set_next p None (s\<lparr>freeList := nextf s p\<rparr>)"

section \<open>Lemmas\<close>

named_theorems ptable_simps \<open>projections of the table updates\<close>

lemma updp_simps [simp, ptable_simps]:
  "procs (updp p f s) = (procs s)(p := f (procs s p))"
  "readyList (updp p f s) = readyList s"
  "freeList (updp p f s) = freeList s"
  "timeToReset (updp p f s) = timeToReset s"
  "initproc (updp p f s) = initproc s"
  "nextpid (updp p f s) = nextpid s"
  "kpgdir (updp p f s) = kpgdir s"
  "cpus (updp p f s) = cpus s"
  by (simp_all add: updp_def)

lemma nextf_simps [simp]:
  "nextf (set_next p q s) = (nextf s)(p := q)"
  "nextf (set_state p st s) = nextf s"
  "nextf (set_priority p v s) = nextf s"
  "nextf (set_ready i q s) = nextf s"
  "nextf (s\<lparr>freeList := q\<rparr>) = nextf s"
  "nextf (s\<lparr>timeToReset := t\<rparr>) = nextf s"
  "nextf (s\<lparr>cpus := cs\<rparr>) = nextf s"
  by (auto simp: nextf_def set_next_def set_state_def set_priority_def set_ready_def fun_eq_iff)

lemma readyList_simps [simp]:
  "readyList (set_next p q s) = readyList s"
  "readyList (set_state p st s) = readyList s"
  "readyList (set_priority p v s) = readyList s"
  "readyList (set_ready i q s) = (readyList s)(i := q)"
  by (auto simp: set_next_def set_state_def set_priority_def set_ready_def)

lemma freeList_simps [simp]:
  "freeList (set_next p q s) = freeList s"
  "freeList (set_state p st s) = freeList s"
  "freeList (set_priority p v s) = freeList s"
  "freeList (set_ready i q s) = freeList s"
  by (auto simp: set_next_def set_state_def set_priority_def set_ready_def)

lemma p_state_simps [simp]:
  "p_state (procs (set_next p q s) x) = p_state (procs s x)"
  "p_state (procs (set_state p st s) x) = (if x = p then st else p_state (procs s x))"
  "p_state (procs (set_priority p v s) x) = p_state (procs s x)"
  "p_state (procs (set_ready i q s) x) = p_state (procs s x)"
  by (auto simp: set_next_def set_state_def set_priority_def set_ready_def)

lemma p_priority_simps [simp]:
  "p_priority (procs (set_next p q s) x) = p_priority (procs s x)"
  "p_priority (procs (set_state p st s) x) = p_priority (procs s x)"
  "p_priority (procs (set_priority p v s) x) = (if x = p then v else p_priority (procs s x))"
  "p_priority (procs (set_ready i q s) x) = p_priority (procs s x)"
  by (auto simp: set_next_def set_state_def set_priority_def set_ready_def)

lemma last_from_plist:
  "plist nx (Some x) xs \<Longrightarrow> last_from nx x = Some (last xs)"
proof (induction xs arbitrary: x)
  case Nil
  then show ?case by simp
next
  case (Cons y ys)
  then show ?case
    by (subst last_from.simps) (cases ys, auto simp: plist_Cons)
qed

lemma listed_iff: "p \<in> listed F R \<longleftrightarrow> p \<in> set F \<or> (\<exists>i<SIZE. p \<in> set (R i))"
  by (auto simp: listed_def)

lemma listed_upd: "i < SIZE \<Longrightarrow> p \<notin> listed F (R(i := xs)) \<Longrightarrow> p \<notin> set xs"
  by (force simp: listed_def)

lemma strip_simps [simp]:
  "strip (set_next p q s) = strip s"
  "strip (set_ready i q s) = strip s"
  "strip (s\<lparr>freeList := q\<rparr>) = strip s"
  by (auto simp: strip_def set_next_def set_ready_def updp_def fun_eq_iff)

lemma stripD:
  assumes "strip s' = strip s"
  shows "p_state (procs s' p) = p_state (procs s p)"
    "p_priority (procs s' p) = p_priority (procs s p)"
    "p_pid (procs s' p) = p_pid (procs s p)"
    "p_chan (procs s' p) = p_chan (procs s p)"
    "p_parent (procs s' p) = p_parent (procs s p)"
    "(procs s' p)\<lparr>p_next := q\<rparr> = (procs s p)\<lparr>p_next := q\<rparr>"
    "timeToReset s' = timeToReset s" "initproc s' = initproc s"
    "nextpid s' = nextpid s" "kpgdir s' = kpgdir s" "cpus s' = cpus s"
proof -
  from assms have eq: "(procs s' p)\<lparr>p_next := None\<rparr> = (procs s p)\<lparr>p_next := None\<rparr>"
    unfolding strip_def
    by (metis (no_types, lifting) ptable.select_convs(1) ptable.surjective ptable.update_convs(1,2,3))
  show "p_state (procs s' p) = p_state (procs s p)"
    using arg_cong [OF eq, of p_state] by simp
  show "p_priority (procs s' p) = p_priority (procs s p)"
    using arg_cong [OF eq, of p_priority] by simp
  show "p_pid (procs s' p) = p_pid (procs s p)"
    using arg_cong [OF eq, of p_pid] by simp
  show "p_chan (procs s' p) = p_chan (procs s p)"
    using arg_cong [OF eq, of p_chan] by simp
  show "p_parent (procs s' p) = p_parent (procs s p)"
    using arg_cong [OF eq, of p_parent] by simp
  show "(procs s' p)\<lparr>p_next := q\<rparr> = (procs s p)\<lparr>p_next := q\<rparr>"
    using arg_cong [OF eq, of "p_next_update (\<lambda>_. q)"] by simp
  show "timeToReset s' = timeToReset s" using arg_cong [OF assms, of timeToReset] by (simp add: strip_def)
  show "initproc s' = initproc s" using arg_cong [OF assms, of initproc] by (simp add: strip_def)
  show "nextpid s' = nextpid s" using arg_cong [OF assms, of nextpid] by (simp add: strip_def)
  show "kpgdir s' = kpgdir s" using arg_cong [OF assms, of kpgdir] by (simp add: strip_def)
  show "cpus s' = cpus s" using arg_cong [OF assms, of cpus] by (simp add: strip_def)
qed

lemma ready_index_simps [simp]:
  "i < SIZE \<Longrightarrow> ready_index (int i) = Inr i"
  "ready_index v = Inr j \<longleftrightarrow> j < SIZE \<and> v = int j"
  by (auto simp: ready_index_def)

text \<open>A routine that rewrites one list and links only entries that no other list holds keeps
  the other lists.\<close>

lemma lists_rep_ready:
  assumes "lists_rep s F R" and "i < SIZE"
    and "\<And>x. x \<notin> A \<Longrightarrow> nextf s' x = nextf s x"
    and "A \<subseteq> set (R i) \<union> B" and "B \<inter> listed F R = {}"
    and "readyList s' = (readyList s)(i := q)" and "freeList s' = freeList s"
    and "plist (nextf s') q xs" and "set xs \<subseteq> set (R i) \<union> B"
  shows "lists_rep s' F (R(i := xs))"
proof -
  note rep = assms(1) [unfolded lists_rep_def free_rep_def ready_rep_def]
  have keep: "plist (nextf s') h ys" if "plist (nextf s) h ys" "set ys \<inter> (set (R i) \<union> B) = {}" for h ys
    using plist_cong [of ys "nextf s'" "nextf s" h] that assms(3,4) by blast
  have F: "set F \<inter> (set (R i) \<union> B) = {}"
    using rep assms(2,5) unfolding listed_def by blast
  have R: "set (R j) \<inter> (set (R i) \<union> B) = {}" if "j < SIZE" "j \<noteq> i" for j
    using rep assms(2,5) that unfolding listed_def by blast
  have "free_rep s' F"
    using keep [OF _ F] rep assms(7) by (simp add: free_rep_def)
  moreover have "ready_rep j s' ((R(i := xs)) j)" if "j < SIZE" for j
    using keep [OF _ R] rep assms(6,8) that by (simp add: ready_rep_def)
  moreover have "set F \<inter> set ((R(i := xs)) j) = {}" if "j < SIZE" for j
    using F rep assms(9) that by auto
  moreover have "set ((R(i := xs)) j) \<inter> set ((R(i := xs)) k) = {}"
    if "j < SIZE" "k < SIZE" "j \<noteq> k" for j k
  proof (cases "j = i \<or> k = i")
    case True
    then show ?thesis using R [OF that(1)] R [OF that(2)] assms(9) that(3) by auto
  next
    case False
    then show ?thesis using rep that by auto
  qed
  ultimately show ?thesis by (simp add: lists_rep_def)
qed

lemma lists_rep_free:
  assumes "lists_rep s F R"
    and "\<And>x. x \<notin> A \<Longrightarrow> nextf s' x = nextf s x"
    and "A \<subseteq> set F \<union> B" and "B \<inter> listed F R = {}"
    and "readyList s' = readyList s"
    and "plist (nextf s') (freeList s') xs" and "set xs \<subseteq> set F \<union> B"
  shows "lists_rep s' xs R"
proof -
  note rep = assms(1) [unfolded lists_rep_def free_rep_def ready_rep_def]
  have R: "set (R j) \<inter> (set F \<union> B) = {}" if "j < SIZE" for j
    using rep assms(4) that unfolding listed_def by blast
  have "ready_rep j s' (R j)" if "j < SIZE" for j
    using plist_cong [of "R j" "nextf s'" "nextf s" "readyList s j"] R [OF that] assms(2,3,5) rep that
    unfolding ready_rep_def by (metis (no_types, lifting) disjoint_iff subsetD)
  moreover have "set xs \<inter> set (R j) = {}" if "j < SIZE" for j
    using R [OF that] assms(7) by auto
  ultimately show ?thesis using rep assms(6) by (simp add: lists_rep_def free_rep_def)
qed

subsection \<open>Putting an entry on a list\<close>

lemma putOnReadyList_rep:
  assumes rep: "lists_rep s F R" and i: "i < SIZE" and p: "p \<notin> listed F R"
  shows "\<exists>s'. putOnReadyList p (int i) s = Inr s' \<and> lists_rep s' F (R(i := R i @ [p])) \<and>
           strip s' = strip s"
proof (cases "R i" rule: rev_cases)
  case Nil
  let ?s = "set_next p None (set_ready i (Some p) s)"
  have "readyList s i = None" using rep i Nil by (auto simp: lists_rep_def ready_rep_def)
  then have "putOnReadyList p (int i) s = Inr ?s"
    using i by (simp add: putOnReadyList_def)
  moreover have "lists_rep ?s F (R(i := R i @ [p]))"
    by (rule lists_rep_ready [OF rep i, where A = "{p}" and B = "{p}"])
      (use p Nil in \<open>auto simp: plist_Cons\<close>)
  ultimately show ?thesis by simp
next
  case (snoc ys c)
  let ?s = "set_next c (Some p) (set_next p None s)"
  have pl: "plist (nextf s) (readyList s i) (ys @ [c])"
    using rep i snoc by (auto simp: lists_rep_def ready_rep_def)
  then obtain h where h: "readyList s i = Some h"
    by (cases ys) (auto simp: plist_Cons)
  have pc: "p \<notin> set (ys @ [c])" using p i snoc by (auto simp: listed_iff)
  have "putOnReadyList p (int i) s = Inr ?s"
    using i h last_from_plist [OF pl [unfolded h]] by (simp add: putOnReadyList_def)
  moreover have "lists_rep ?s F (R(i := R i @ [p]))"
    by (rule lists_rep_ready [OF rep i, where A = "{p, c}" and B = "{p}"])
      (use p snoc plist_snoc [OF pl pc] in auto)
  ultimately show ?thesis by simp
qed

lemma putOnFreeList_rep:
  assumes rep: "lists_rep s F R" and p: "p \<notin> listed F R"
  shows "\<exists>s'. putOnFreeList p s = Inr s' \<and> lists_rep s' (F @ [p]) R \<and> strip s' = strip s"
proof (cases F rule: rev_cases)
  case Nil
  let ?s = "set_next p None (s\<lparr>freeList := Some p\<rparr>)"
  have "freeList s = None" using rep Nil by (auto simp: lists_rep_def free_rep_def)
  then have "putOnFreeList p s = Inr ?s"
    by (simp add: putOnFreeList_def)
  moreover have "lists_rep ?s (F @ [p]) R"
    by (rule lists_rep_free [OF rep, where A = "{p}" and B = "{p}"])
      (use p Nil in \<open>auto simp: plist_Cons\<close>)
  ultimately show ?thesis by simp
next
  case (snoc ys c)
  let ?s = "set_next c (Some p) (set_next p None s)"
  have pl: "plist (nextf s) (freeList s) (ys @ [c])"
    using rep snoc by (auto simp: lists_rep_def free_rep_def)
  then obtain h where h: "freeList s = Some h"
    by (cases ys) (auto simp: plist_Cons)
  have pc: "p \<notin> set (ys @ [c])" using p snoc by (auto simp: listed_def)
  have "putOnFreeList p s = Inr ?s"
    using h last_from_plist [OF pl [unfolded h]] by (simp add: putOnFreeList_def)
  moreover have "lists_rep ?s (F @ [p]) R"
    by (rule lists_rep_free [OF rep, where A = "{p, c}" and B = "{p}"])
      (use p snoc plist_snoc [OF pl pc] in auto)
  ultimately show ?thesis by simp
qed

subsection \<open>Taking an entry off a list\<close>

lemma takeFromFreeList_rep:
  assumes rep: "lists_rep s (p # F) R"
  shows "lists_rep (takeFromFreeList p s) F R"
  by (rule lists_rep_free [OF rep, where A = "{p}" and B = "{}"])
    (use rep in \<open>auto simp: takeFromFreeList_def lists_rep_def free_rep_def plist_Cons\<close>)

lemma remove_first_rep:
  assumes rep: "lists_rep s F R" and i: "i < SIZE" and R: "R i = p # xs"
  shows "\<exists>s'. removeFromReadyList p (int i) s = Inr s' \<and> lists_rep s' F (R(i := xs)) \<and>
           strip s' = strip s"
proof -
  let ?s = "set_next p None (set_ready i (nextf s p) s)"
  have pl: "readyList s i = Some p" "plist (nextf s) (nextf s p) xs" "p \<notin> set xs"
    using rep i R by (auto simp: lists_rep_def ready_rep_def plist_Cons)
  then have "removeFromReadyList p (int i) s = Inr ?s"
    using i by (simp add: removeFromReadyList_def)
  moreover have "lists_rep ?s F (R(i := xs))"
    by (rule lists_rep_ready [OF rep i, where A = "{p}" and B = "{}"]) (use pl R in auto)
  ultimately show ?thesis by simp
qed

lemma remove_loop_absent:
  "plist (nextf s) (Some c) xs \<Longrightarrow> p \<notin> set (tl xs) \<Longrightarrow> remove_loop p c s = Some (Inr s)"
proof (induction xs arbitrary: c)
  case Nil
  then show ?case by simp
next
  case (Cons y ys)
  then show ?case
    by (subst remove_loop.simps) (cases ys, auto simp: plist_Cons)
qed

lemma remove_loop_present:
  "plist (nextf s) (Some c) (xs @ d # p # ys) \<Longrightarrow>
   remove_loop p c s =
     (if ys = [] then Some (Inl NullDeref)
      else Some (Inr (set_next p None (set_next d (Some (hd ys)) s))))"
proof (induction xs arbitrary: c)
  case Nil
  then have d: "c = d" "nextf s d = Some p" "d \<noteq> p" "d \<notin> set ys" "p \<notin> set ys"
    and ys: "plist (nextf s) (nextf s p) ys" by (auto simp: plist_Cons)
  show ?case
  proof (cases ys)
    case Nil
    then show ?thesis using d ys by (subst remove_loop.simps) auto
  next
    case (Cons y zs)
    let ?s = "set_next p None (set_next d (nextf s p) s)"
    have "plist (nextf ?s) (Some y) (y # zs)"
      using Cons d ys by (auto simp: plist_Cons)
    from remove_loop_absent [OF this, of p] show ?thesis
      using Cons d ys by (subst remove_loop.simps) (auto simp: plist_Cons)
  qed
next
  case (Cons x xs)
  then have c: "c = x" and pl: "plist (nextf s) (nextf s x) (xs @ d # p # ys)"
    by (auto simp: plist_Cons)
  then obtain q where q: "nextf s x = Some q" by (cases xs) (auto simp: plist_Cons)
  have "q \<noteq> p" using pl q by (cases xs) (auto simp: plist_Cons)
  then show ?case using Cons.IH [of q] c pl q by (subst remove_loop.simps) auto
qed

lemma removeFromReadyList_rep:
  assumes rep: "lists_rep s F R" and i: "i < SIZE" and R: "R i = xs @ p # ys"
    and "xs = [] \<or> ys \<noteq> []"
  shows "\<exists>s'. removeFromReadyList p (int i) s = Inr s' \<and> lists_rep s' F (R(i := xs @ ys)) \<and>
           strip s' = strip s"
proof (cases xs rule: rev_cases)
  case Nil
  then show ?thesis using remove_first_rep [OF rep i] R by simp
next
  case (snoc zs d)
  then obtain y ys' where ys: "ys = y # ys'" using assms(4) by (cases ys) auto
  let ?s = "set_next p None (set_next d (Some y) s)"
  have pl: "plist (nextf s) (readyList s i) (zs @ d # p # ys)"
    using rep i R snoc by (auto simp: lists_rep_def ready_rep_def)
  then obtain h where h: "readyList s i = Some h" "h \<noteq> p"
    by (cases zs) (auto simp: plist_Cons)
  then have "removeFromReadyList p (int i) s = Inr ?s"
    using i remove_loop_present [OF pl [unfolded h(1)]] ys
    by (simp add: removeFromReadyList_def run_loop_def)
  moreover have "lists_rep ?s F (R(i := xs @ ys))"
    by (rule lists_rep_ready [OF rep i, where A = "{p, d}" and B = "{}"])
      (use R snoc ys plist_unlink [of "nextf s" "readyList s i" zs d p ys] pl in
        \<open>auto simp: fun_upd_twist plist_def lseg_append\<close>)
  ultimately show ?thesis by simp
qed

lemma removeFromReadyList_last:
  assumes rep: "lists_rep s F R" and i: "i < SIZE" and R: "R i = xs @ [p]" and "xs \<noteq> []"
  shows "removeFromReadyList p (int i) s = Inl NullDeref"
proof -
  obtain zs d where xs: "xs = zs @ [d]" using assms(4) by (cases xs rule: rev_cases) auto
  have pl: "plist (nextf s) (readyList s i) (zs @ d # p # [])"
    using rep i R xs by (auto simp: lists_rep_def ready_rep_def)
  then obtain h where h: "readyList s i = Some h" "h \<noteq> p"
    by (cases zs) (auto simp: plist_Cons)
  then show ?thesis
    using i remove_loop_present [OF pl [unfolded h(1)]]
    by (simp add: removeFromReadyList_def run_loop_def)
qed

lemma removeFromReadyList_absent:
  assumes rep: "lists_rep s F R" and i: "i < SIZE" and p: "p \<notin> set (R i)"
  shows "removeFromReadyList p (int i) s = Inr s"
proof (cases "R i")
  case Nil
  then show ?thesis using rep i by (auto simp: lists_rep_def ready_rep_def removeFromReadyList_def)
next
  case (Cons h xs)
  then have pl: "plist (nextf s) (Some h) (h # xs)" and h: "readyList s i = Some h" "h \<noteq> p"
    using rep i p by (auto simp: lists_rep_def ready_rep_def plist_Cons)
  from remove_loop_absent [OF pl, of p] show ?thesis
    using h i p Cons by (simp add: removeFromReadyList_def run_loop_def)
qed

subsection \<open>Resetting the ready lists\<close>

lemma hd_ptr_simps [simp]: "hd_ptr [] = None" "hd_ptr (x # xs) = Some x"
  by (simp_all add: hd_ptr_def)

lemma plist_hd: "plist nx h xs \<Longrightarrow> h = hd_ptr xs"
  by (cases xs) (auto simp: plist_Cons)

lemma lists_rep_hd: "lists_rep s F R \<Longrightarrow> i < SIZE \<Longrightarrow> readyList s i = hd_ptr (R i)"
  by (auto simp: lists_rep_def ready_rep_def dest: plist_hd)

lemma lists_rep_free_hd: "lists_rep s F R \<Longrightarrow> freeList s = hd_ptr F"
  by (auto simp: lists_rep_def free_rep_def dest: plist_hd)

lemma lists_rep_cong:
  assumes "nextf s' = nextf s" and "readyList s' = readyList s" and "freeList s' = freeList s"
  shows "lists_rep s' F R \<longleftrightarrow> lists_rep s F R"
  using assms by (simp add: lists_rep_def free_rep_def ready_rep_def)

lemma lists_rep_set [simp]:
  "lists_rep (set_priority p v s) F R \<longleftrightarrow> lists_rep s F R"
  "lists_rep (set_state p st s) F R \<longleftrightarrow> lists_rep s F R"
  by (rule lists_rep_cong; simp)+

lemma lists_rep_ext:
  "lists_rep s F R \<Longrightarrow> (\<And>i. i < SIZE \<Longrightarrow> R i = R' i) \<Longrightarrow> lists_rep s F R'"
  by (simp add: lists_rep_def)

lemma prio_map_simps [simp]:
  "nextf (prio_map P s) = nextf s" "readyList (prio_map P s) = readyList s"
  "freeList (prio_map P s) = freeList s"
  "strip (prio_map P s) = prio_map P (strip s)"
  "prio_map P (prio_map Q s) = prio_map (\<lambda>p. P p \<or> Q p) s"
  "prio_map (\<lambda>_. False) s = s"
  by (auto simp: prio_map_def nextf_def strip_def fun_eq_iff)

lemma lists_rep_prio_map [simp]: "lists_rep (prio_map P s) F R \<longleftrightarrow> lists_rep s F R"
  by (rule lists_rep_cong) simp_all

lemma set_priority_default: "set_priority p DEFAULTPRIO s = prio_map (\<lambda>x. x = p) s"
  by (auto simp: set_priority_def updp_def prio_map_def fun_eq_iff)

lemma prio_map_proj [simp]:
  "p_state (procs (prio_map P s) p) = p_state (procs s p)"
  "p_pgdir (procs (prio_map P s) p) = p_pgdir (procs s p)"
  "p_priority (procs (prio_map P s) p) = (if P p then DEFAULTPRIO else p_priority (procs s p))"
  "cpus (prio_map P s) = cpus s" "timeToReset (prio_map P s) = timeToReset s"
  by (simp_all add: prio_map_def)

lemma reset_prio_eq:
  "reset_prio p s =
     prio_map (\<lambda>x. x = p \<and> (p_state (procs s x) = RUNNING \<or> p_state (procs s x) = SLEEPING)) s"
  by (auto simp: reset_prio_def set_priority_def updp_def prio_map_def fun_eq_iff)

lemma fold_reset_prio:
  "fold reset_prio xs s =
     prio_map (\<lambda>p. p \<in> set xs \<and> (p_state (procs s p) = RUNNING \<or> p_state (procs s p) = SLEEPING)) s"
  by (induction xs arbitrary: s) (auto simp: reset_prio_eq intro!: arg_cong [where f = "\<lambda>P. prio_map P _"])

lemma SIZE_simps [simp]: "0 < SIZE" "Suc 0 < SIZE" "2 < SIZE"
  by (simp_all add: SIZE_def)

lemma reset_one:
  assumes rep: "lists_rep s F R" and j: "j < SIZE" "j \<noteq> 1" and R: "R j = c # xs"
    and prio: "p_priority (procs s c) = int j"
  shows "\<exists>s'. bindR (removeFromReadyList c (p_priority (procs s c)) s) (\<lambda>s.
                  let s = set_priority c DEFAULTPRIO s
                  in putOnReadyList c (p_priority (procs s c)) s) = Inr s' \<and>
           lists_rep s' F (R(j := xs, 1 := R 1 @ [c])) \<and>
           strip s' = prio_map (\<lambda>x. x = c) (strip s)"
proof -
  obtain s1 where s1: "removeFromReadyList c (int j) s = Inr s1"
    "lists_rep s1 F (R(j := xs))" "strip s1 = strip s"
    using remove_first_rep [OF rep j(1) R] by auto
  have "distinct (c # xs)"
    using rep j(1) R unfolding lists_rep_def ready_rep_def plist_def by metis
  then have "c \<notin> listed F (R(j := xs))"
    using rep j(1) R unfolding lists_rep_def listed_iff
    by (metis (no_types, lifting) disjoint_iff distinct.simps(2) fun_upd_apply list.set_intros(1))
  then obtain s2 where s2: "putOnReadyList c (int 1) (set_priority c DEFAULTPRIO s1) = Inr s2"
    "lists_rep s2 F ((R(j := xs))(1 := (R(j := xs)) 1 @ [c]))"
    "strip s2 = strip (set_priority c DEFAULTPRIO s1)"
    using putOnReadyList_rep [of "set_priority c DEFAULTPRIO s1" F "R(j := xs)" 1 c] s1(2)
    by (auto simp: SIZE_def)
  have "strip s2 = prio_map (\<lambda>x. x = c) (strip s)"
    using s2(3) s1(3) by (simp add: set_priority_default)
  then show ?thesis using s1(1) s2(1,2) j(2) prio by (simp add: DEFAULTPRIO_def)
qed

lemma reset_loop_rep:
  assumes "lists_rep s F R" and "j < SIZE" "j \<noteq> 1" and "R j = xs"
    and "\<forall>p\<in>set xs. p_priority (procs s p) = int j"
  shows "\<exists>s'. reset_loop (hd_ptr xs) s = Some (Inr s') \<and>
           lists_rep s' F (R(j := [], 1 := R 1 @ xs)) \<and> strip s' = prio_map (\<lambda>x. x \<in> set xs) (strip s)"
  using assms
proof (induction xs arbitrary: s R)
  case Nil
  have "R(j := [], 1 := R 1) = R" using Nil by auto
  then have "lists_rep s F (R(j := [], 1 := R 1 @ []))" using Nil(1) by simp
  moreover have "reset_loop (hd_ptr []) s = Some (Inr s)" by (simp add: reset_loop.simps)
  moreover have "strip s = prio_map (\<lambda>x. x \<in> set []) (strip s)" by simp
  ultimately show ?case by blast
next
  case (Cons c xs)
  obtain s' where s': "bindR (removeFromReadyList c (p_priority (procs s c)) s) (\<lambda>s.
                  let s = set_priority c DEFAULTPRIO s
                  in putOnReadyList c (p_priority (procs s c)) s) = Inr s'"
    "lists_rep s' F (R(j := xs, 1 := R 1 @ [c]))" "strip s' = prio_map (\<lambda>x. x = c) (strip s)"
    using reset_one [OF Cons.prems(1,2,3,4)] Cons.prems(5) by auto
  have next_c: "nextf s c = hd_ptr xs" and "c \<notin> set xs"
    using Cons.prems(1,2,4) unfolding lists_rep_def ready_rep_def
    by (metis plist_Cons plist_hd)+
  have eq: "(R(j := xs, 1 := R 1 @ [c]))(j := [], 1 := (R(j := xs, 1 := R 1 @ [c])) 1 @ xs) =
      R(j := [], 1 := R 1 @ c # xs)" by (auto simp: fun_eq_iff)
  have "p_priority (procs s' p) = int j" if "p \<in> set xs" for p
  proof -
    have "p_priority (procs (strip s') p) = p_priority (procs (prio_map (\<lambda>x. x = c) (strip s)) p)"
      using s'(3) by simp
    then show ?thesis using that \<open>c \<notin> set xs\<close> Cons.prems(5)
      by (auto simp: strip_def prio_map_def split: if_splits)
  qed
  then obtain s'' where "reset_loop (hd_ptr xs) s' = Some (Inr s'')"
    "lists_rep s'' F (R(j := [], 1 := R 1 @ c # xs))"
    "strip s'' = prio_map (\<lambda>x. x \<in> set xs) (strip s')"
    using Cons.IH [OF s'(2) Cons.prems(2,3), unfolded eq] Cons.prems(3) by fastforce
  then show ?case using s'(1,3) next_c
    by (subst reset_loop.simps) (auto simp: disj_commute insert_iff)
qed

lemma resetReadyList_rep:
  assumes rep: "lists_rep s F R"
    and prio: "\<forall>i<SIZE. \<forall>p\<in>set (R i). p_priority (procs s p) = int i"
  shows "\<exists>s'. resetReadyList s = Inr s' \<and>
           lists_rep s' F (\<lambda>i. if i = 1 then R 1 @ R 0 @ R 2 else []) \<and>
           strip s' = prio_map (\<lambda>p. p \<in> set (R 0) \<union> set (R 2) \<or>
             p < NPROC \<and> (p_state (procs s p) = RUNNING \<or> p_state (procs s p) = SLEEPING)) (strip s)"
proof -
  obtain s1 where s1: "reset_loop (hd_ptr (R 0)) s = Some (Inr s1)"
    "lists_rep s1 F (R(0 := [], 1 := R 1 @ R 0))" "strip s1 = prio_map (\<lambda>x. x \<in> set (R 0)) (strip s)"
    using reset_loop_rep [OF rep, of 0 "R 0"] prio [rule_format, of 0] by auto
  have state: "p_state (procs s1 p) = p_state (procs s p)"
    and prio1: "p \<notin> set (R 0) \<Longrightarrow> p_priority (procs s1 p) = p_priority (procs s p)" for p
    using arg_cong [OF s1(3), of "\<lambda>s. p_state (procs s p)"]
      arg_cong [OF s1(3), of "\<lambda>s. p_priority (procs s p)"]
    by (simp_all add: strip_def prio_map_def)
  have "set (R 2) \<inter> set (R 0) = {}" using rep by (simp add: lists_rep_def)
  then have prio2: "\<forall>p\<in>set (R 2). p_priority (procs s1 p) = int 2"
    using prio prio1 by (metis SIZE_simps(3) disjoint_iff)
  let ?R1 = "R(0 := [], 1 := R 1 @ R 0)"
  obtain s2 where s2: "reset_loop (hd_ptr (R 2)) s1 = Some (Inr s2)"
    "lists_rep s2 F (?R1(2 := [], 1 := ?R1 1 @ R 2))" "strip s2 = prio_map (\<lambda>x. x \<in> set (R 2)) (strip s1)"
    using reset_loop_rep [OF s1(2), of 2 "R 2"] prio2 by auto
  have state2: "p_state (procs s2 p) = p_state (procs s p)" for p
    using arg_cong [OF s2(3), of "\<lambda>s. p_state (procs s p)"] state
    by (simp add: strip_def prio_map_def)
  let ?s = "fold reset_prio [0..<NPROC] s2"
  have hd: "readyList s (nat HIGH) = hd_ptr (R 0)" "readyList s1 (nat LOW) = hd_ptr (R 2)"
    using lists_rep_hd [OF rep, of 0] lists_rep_hd [OF s1(2), of 2] by (simp_all add: HIGH_def LOW_def)
  have "resetReadyList s = Inr ?s"
    using s1(1) s2(1) hd by (simp add: resetReadyList_def run_loop_def)
  moreover have "lists_rep ?s F (\<lambda>i. if i = 1 then R 1 @ R 0 @ R 2 else [])"
    using s2(2) unfolding fold_reset_prio lists_rep_prio_map
    by (rule lists_rep_ext) (auto simp: SIZE_def less_Suc_eq numeral_3_eq_3 numeral_2_eq_2)
  moreover have "strip ?s = prio_map (\<lambda>p. p \<in> set (R 0) \<union> set (R 2) \<or>
             p < NPROC \<and> (p_state (procs s p) = RUNNING \<or> p_state (procs s p) = SLEEPING)) (strip s)"
    using s1(3) s2(3) state2
    by (auto simp: fold_reset_prio intro!: arg_cong [where f = "\<lambda>P. prio_map P _"])
  ultimately show ?thesis by blast
qed

subsection \<open>The free list after boot\<close>

lemma initFreeList_step_simps [simp]:
  "strip (initFreeList_step n t) = prio_map (\<lambda>x. x = n) (strip t)"
  "readyList (initFreeList_step n t) = readyList t"
  by (simp_all add: initFreeList_step_def set_priority_default Let_def)

lemma initFreeList_step_plist:
  "plist (nextf t) (freeList t) xs \<Longrightarrow> n \<notin> set xs \<Longrightarrow>
   plist (nextf (initFreeList_step n t)) (freeList (initFreeList_step n t))
     (if p_state (procs t n) = UNUSED then n # xs else xs)"
  by (simp add: initFreeList_step_def Let_def plist_Cons)

lemma initFreeList_steps_frame:
  "strip (fold initFreeList_step [0..<n] s) = prio_map (\<lambda>p. p < n) (strip s) \<and>
   readyList (fold initFreeList_step [0..<n] s) = readyList s"
proof (induction n)
  case (Suc n)
  have "(\<lambda>p. p = n \<or> p < n) = (\<lambda>p. p < Suc n)" by auto
  then show ?case using Suc by simp
qed simp

lemma initFreeList_steps_plist:
  assumes "freeList s = None"
  shows "plist (nextf (fold initFreeList_step [0..<n] s)) (freeList (fold initFreeList_step [0..<n] s))
           (rev (filter (\<lambda>p. p_state (procs s p) = UNUSED) [0..<n]))"
proof (induction n)
  case 0
  then show ?case using assms by simp
next
  case (Suc n)
  have "p_state (procs (fold initFreeList_step [0..<n] s) n) = p_state (procs s n)"
    using arg_cong [OF conjunct1 [OF initFreeList_steps_frame [of n s]], of "\<lambda>s. p_state (procs s n)"]
    by (simp add: strip_def prio_map_def)
  then show ?case using initFreeList_step_plist [OF Suc, of n] by auto
qed

lemma initFreeList_rep:
  assumes "readyList s = (\<lambda>_. None)"
  shows "lists_rep (initFreeList s) (rev (filter (\<lambda>p. p_state (procs s p) = UNUSED) [0..<NPROC])) (\<lambda>_. [])"
    and "strip (initFreeList s) = prio_map (\<lambda>p. p < NPROC) (strip s)"
  using initFreeList_steps_frame [of NPROC "s\<lparr>freeList := None\<rparr>"]
    initFreeList_steps_plist [of "s\<lparr>freeList := None\<rparr>" NPROC] assms
  by (auto simp: initFreeList_def lists_rep_def free_rep_def ready_rep_def)

section \<open>The queue interface\<close>

text \<open>
  What the users of the lists rely on: \<open>put\<close> appends an entry that is on no list,
  \<open>first\<close> is the oldest entry, \<open>take_first\<close> removes it, and nothing outside the
  list (\<open>frame\<close>) changes.
\<close>

locale proc_queue =
  fixes rep :: "'s \<Rightarrow> nat list \<Rightarrow> bool"
    and admissible :: "nat \<Rightarrow> bool"
    and frame :: "'s \<Rightarrow> 'f"
    and put :: "nat \<Rightarrow> 's \<Rightarrow> 's kres"
    and first :: "'s \<Rightarrow> ptr"
    and take_first :: "nat \<Rightarrow> 's \<Rightarrow> 's kres"
  assumes first_rep: "rep s xs \<Longrightarrow> first s = hd_ptr xs"
    and put_rep: "rep s xs \<Longrightarrow> admissible p \<Longrightarrow> p \<notin> set xs \<Longrightarrow>
      \<exists>s'. put p s = Inr s' \<and> rep s' (xs @ [p]) \<and> frame s' = frame s"
    and take_rep: "rep s (p # xs) \<Longrightarrow>
      \<exists>s'. take_first p s = Inr s' \<and> rep s' xs \<and> frame s' = frame s"
begin

lemma put_all:
  assumes "rep s xs" and "\<forall>p\<in>set ys. admissible p" and "distinct ys" and "set ys \<inter> set xs = {}"
  shows "\<exists>s'. foldR put ys s = Inr s' \<and> rep s' (xs @ ys) \<and> frame s' = frame s"
  using assms
proof (induction ys arbitrary: s xs)
  case Nil
  then show ?case by auto
next
  case (Cons y ys)
  then obtain s1 where s1: "put y s = Inr s1" "rep s1 (xs @ [y])" "frame s1 = frame s"
    using put_rep [of s xs y] by auto
  with Cons.IH [OF s1(2)] Cons.prems show ?case by auto
qed

lemma take_all:
  assumes "rep s (xs @ ys)"
  shows "\<exists>s'. foldR take_first xs s = Inr s' \<and> rep s' ys \<and> frame s' = frame s"
  using assms
proof (induction xs arbitrary: s)
  case Nil
  then show ?case by auto
next
  case (Cons x xs)
  then obtain s1 where s1: "take_first x s = Inr s1" "rep s1 (xs @ ys)" "frame s1 = frame s"
    using take_rep [of s x "xs @ ys"] by auto
  with Cons.IH [OF s1(2)] show ?case by auto
qed

text \<open>First in, first out: the entries that were there leave first, in their order, and the
  entries put afterwards are then the whole list, in the order they were put.\<close>

lemma fifo:
  assumes "rep s xs" and "\<forall>p\<in>set ys. admissible p" and "distinct ys" and "set ys \<inter> set xs = {}"
  shows "\<exists>s'. bindR (foldR put ys s) (foldR take_first xs) = Inr s' \<and> rep s' ys \<and>
           first s' = hd_ptr ys \<and> frame s' = frame s"
proof -
  obtain s1 where s1: "foldR put ys s = Inr s1" "rep s1 (xs @ ys)" "frame s1 = frame s"
    using put_all [OF assms] by auto
  with take_all [OF s1(2)] show ?thesis by (auto dest: first_rep)
qed

end

lemma lists_rep_unlisted:
  assumes "lists_rep s F (R(i := xs))" and "p \<notin> listed F (R(i := []))" and "p \<notin> set xs"
  shows "p \<notin> listed F (R(i := xs))"
  using assms by (auto simp: listed_iff split: if_splits)

interpretation readyq: proc_queue
  "\<lambda>s xs. i < SIZE \<and> lists_rep s F (R(i := xs))" "\<lambda>p. p \<notin> listed F (R(i := []))" strip
  "\<lambda>p. putOnReadyList p (int i)" "\<lambda>s. readyList s i" "\<lambda>p. removeFromReadyList p (int i)"
  for i F R
proof unfold_locales
  fix s xs
  assume "i < SIZE \<and> lists_rep s F (R(i := xs))"
  then show "readyList s i = hd_ptr xs" using lists_rep_hd [of s F "R(i := xs)" i] by simp
next
  fix s xs p
  assume "i < SIZE \<and> lists_rep s F (R(i := xs))" "p \<notin> listed F (R(i := []))" "p \<notin> set xs"
  then show "\<exists>s'. putOnReadyList p (int i) s = Inr s' \<and>
      (i < SIZE \<and> lists_rep s' F (R(i := xs @ [p]))) \<and> strip s' = strip s"
    using putOnReadyList_rep [of s F "R(i := xs)" i p] lists_rep_unlisted [of s F R i xs p] by simp
next
  fix s p xs
  assume "i < SIZE \<and> lists_rep s F (R(i := p # xs))"
  then show "\<exists>s'. removeFromReadyList p (int i) s = Inr s' \<and>
      (i < SIZE \<and> lists_rep s' F (R(i := xs))) \<and> strip s' = strip s"
    using remove_first_rep [of s F "R(i := p # xs)" i p xs] by simp
qed

interpretation freeq: proc_queue
  "\<lambda>s xs. lists_rep s xs R" "\<lambda>p. p \<notin> listed [] R" strip
  putOnFreeList freeList "\<lambda>p s. Inr (takeFromFreeList p s)"
  for R
proof unfold_locales
  fix s xs p
  assume "lists_rep s xs R" "p \<notin> listed [] R" "p \<notin> set xs"
  then show "\<exists>s'. putOnFreeList p s = Inr s' \<and> lists_rep s' (xs @ [p]) R \<and> strip s' = strip s"
    using putOnFreeList_rep [of s xs R p] by (simp add: listed_iff)
next
  show "\<exists>s'. Inr (takeFromFreeList p s) = Inr s' \<and> lists_rep s' xs R \<and> strip s' = strip s"
    if "lists_rep s (p # xs) R" for s p xs
    using takeFromFreeList_rep [OF that] by (simp add: takeFromFreeList_def)
qed (rule lists_rep_free_hd)

section \<open>Properties\<close>

text \<open>
  C16: \<open>resetReadyList\<close> succeeds and merges the three ready lists into the one of the
  default priority, in the order default, high, low, keeping the order within each; every
  process it moves and every running or sleeping process gets the default priority, and
  nothing else changes.
\<close>

theorem reset_merges_lists:
  assumes "lists_rep s F R" and "\<forall>i<SIZE. \<forall>p\<in>set (R i). p_priority (procs s p) = int i"
  shows "\<exists>s'. resetReadyList s = Inr s' \<and>
    lists_rep s' F (\<lambda>i. if i = 1 then R 1 @ R 0 @ R 2 else []) \<and>
    (\<forall>p. p_priority (procs s' p) =
       (if p \<in> set (R 0) \<union> set (R 2) \<or>
           p < NPROC \<and> (p_state (procs s p) = RUNNING \<or> p_state (procs s p) = SLEEPING)
        then DEFAULTPRIO else p_priority (procs s p))) \<and>
    (\<forall>p. p_state (procs s' p) = p_state (procs s p))"
proof -
  obtain s' where s': "resetReadyList s = Inr s'"
    "lists_rep s' F (\<lambda>i. if i = 1 then R 1 @ R 0 @ R 2 else [])"
    "strip s' = prio_map (\<lambda>p. p \<in> set (R 0) \<union> set (R 2) \<or>
       p < NPROC \<and> (p_state (procs s p) = RUNNING \<or> p_state (procs s p) = SLEEPING)) (strip s)"
    using resetReadyList_rep [OF assms] by blast
  have "p_priority (procs s' p) = (if p \<in> set (R 0) \<union> set (R 2) \<or>
      p < NPROC \<and> (p_state (procs s p) = RUNNING \<or> p_state (procs s p) = SLEEPING)
      then DEFAULTPRIO else p_priority (procs s p))"
    "p_state (procs s' p) = p_state (procs s p)" for p
    using arg_cong [OF s'(3), of "\<lambda>s. p_priority (procs s p)"] arg_cong [OF s'(3), of "\<lambda>s. p_state (procs s p)"]
    by (auto simp: strip_def)
  then show ?thesis using s'(1,2) by blast
qed

theorem reset_merges_lists_witness:
  "\<exists>s s'. readyList s 0 = Some 1 \<and> readyList s 2 = Some 2 \<and> resetReadyList s = Inr s' \<and>
     lists_rep s' [] (\<lambda>i. if i = 1 then [1, 2] else [])"
proof -
  obtain t :: ptable where True by simp
  define s where "s = t\<lparr>procs := (procs t)(1 := (procs t 1)\<lparr>p_next := None, p_priority := 0\<rparr>,
      2 := (procs t 2)\<lparr>p_next := None, p_priority := 2\<rparr>),
    readyList := (\<lambda>_. None)(0 := Some 1, 2 := Some 2), freeList := None\<rparr>"
  let ?R = "(\<lambda>_ :: nat. [])(0 := [1 :: nat], 2 := [2])"
  have rep: "lists_rep s [] ?R"
    by (auto simp: lists_rep_def free_rep_def ready_rep_def plist_def nextf_def s_def)
  have "\<forall>i<SIZE. \<forall>p\<in>set (?R i). p_priority (procs s p) = int i" by (simp add: s_def)
  from reset_merges_lists [OF rep this] obtain s' where "resetReadyList s = Inr s'"
    and l: "lists_rep s' [] (\<lambda>i. if i = 1 then ?R 1 @ ?R 0 @ ?R 2 else [])" by blast
  moreover have "lists_rep s' [] (\<lambda>i. if i = 1 then [1, 2] else [])"
    using l by (rule lists_rep_ext) simp
  moreover have "readyList s 0 = Some 1" "readyList s 2 = Some 2" by (simp_all add: s_def)
  ultimately show ?thesis by blast
qed

text \<open>
  C17: a ready list is a first-in-first-out queue. If list \<open>i\<close> holds \<open>xs\<close> and
  processes \<open>ys\<close> that are on no list are put on it one after the other, then removing
  \<open>xs\<close> from the front succeeds and leaves \<open>ys\<close> in the order they were put, and the
  other lists and every other field are untouched.
\<close>

theorem ready_list_fifo:
  assumes "i < SIZE" and "lists_rep s F (R(i := xs))" and "distinct ys" and "set ys \<inter> listed F (R(i := xs)) = {}"
  shows "\<exists>s'. bindR (foldR (\<lambda>p. putOnReadyList p (int i)) ys s) (foldR (\<lambda>p. removeFromReadyList p (int i)) xs) = Inr s' \<and>
    lists_rep s' F (R(i := ys)) \<and> readyList s' i = hd_ptr ys \<and> strip s' = strip s"
proof -
  have "\<forall>p\<in>set ys. p \<notin> listed F (R(i := []))" "set ys \<inter> set xs = {}"
    using assms(1,4) by (auto simp: listed_iff disjoint_iff split: if_splits)
  then show ?thesis using readyq.fifo [of i s F R xs ys] assms(1,2,3) by simp
qed

theorem ready_list_fifo_witness:
  "\<exists>s s'. bindR (foldR (\<lambda>p. putOnReadyList p (int 1)) [4, 3] s) (foldR (\<lambda>p. removeFromReadyList p (int 1)) [5]) = Inr s' \<and>
     readyList s' 1 = Some 4"
proof -
  obtain t :: ptable where True by simp
  define s where "s = t\<lparr>procs := (procs t)(5 := (procs t 5)\<lparr>p_next := None\<rparr>),
    readyList := (\<lambda>_. None)(1 := Some 5), freeList := None\<rparr>"
  have "lists_rep s [] ((\<lambda>_. [])(1 := [5]))"
    by (auto simp: lists_rep_def free_rep_def ready_rep_def plist_def nextf_def s_def)
  moreover have "set [4, 3] \<inter> listed [] ((\<lambda>_. [])(1 := [5])) = {}" by (simp add: listed_def)
  ultimately obtain s' where
    "bindR (foldR (\<lambda>p. putOnReadyList p (int 1)) [4, 3] s) (foldR (\<lambda>p. removeFromReadyList p (int 1)) [5]) = Inr s'"
    "readyList s' 1 = hd_ptr [4, 3]"
    using ready_list_fifo [of 1 s "[]" "\<lambda>_. []" "[5]" "[4, 3]"] by fastforce
  then show ?thesis unfolding hd_ptr_simps by (intro exI conjI)
qed

end
