(* ===== verification/Spinlock.thy ===== *)
theory Spinlock
  imports Prelude
begin

section \<open>Spin locks and interrupt nesting (spinlock.c)\<close>

text \<open>
  The lock structure, the per-CPU fields \<open>ncli\<close> and \<open>intena\<close> with the interrupt
  flag, and the routines of \<open>spinlock.c\<close> as functions on them. Several CPUs share one
  lock: the step relation \<open>lock_step\<close> runs the instructions of \<open>acquire\<close> and
  \<open>release\<close> one shared access at a time, interleaved in any order, and the invariant
  shows mutual exclusion and that \<open>holding\<close> tells the truth at every point.
\<close>

subsection \<open>Definitions\<close>

record spinlock =
  lk_locked :: u32
  lk_name :: string
  lk_cpu :: ptr
  lk_pcs :: "u32 list"

record cpu =
  cpu_ncli :: int
  cpu_intena :: bool
  cpu_if :: bool

definition initlock :: "string \<Rightarrow> spinlock \<Rightarrow> spinlock" where
  "initlock name lk = lk\<lparr>lk_name := name, lk_locked := 0, lk_cpu := None\<rparr>"

definition holding :: "nat \<Rightarrow> spinlock \<Rightarrow> bool" where
  "holding c lk \<longleftrightarrow> lk_locked lk \<noteq> 0 \<and> lk_cpu lk = Some c"

definition pushcli :: "cpu \<Rightarrow> cpu" where
  "pushcli k =
     (let eflags = cpu_if k; k = k\<lparr>cpu_if := False\<rparr>;
          k' = k\<lparr>cpu_ncli := cpu_ncli k + 1\<rparr>
      in if cpu_ncli k = 0 then k'\<lparr>cpu_intena := eflags\<rparr> else k')"

definition popcli :: "cpu \<Rightarrow> cpu kres" where
  "popcli k =
     (if cpu_if k then Inl (Panic ''popcli - interruptible'')
      else let k = k\<lparr>cpu_ncli := cpu_ncli k - 1\<rparr>
           in if cpu_ncli k < 0 then Inl (Panic ''popcli'')
              else if cpu_ncli k = 0 \<and> cpu_intena k then Inr (k\<lparr>cpu_if := True\<rparr>)
              else Inr k)"

text \<open>
  \<open>getcallerpcs\<close>: follow the chain of saved frame pointers through the stack
  (\<open>stk\<close> reads a word of memory), at most ten frames, zero after the end.
\<close>

fun callerpcs :: "(u32 \<Rightarrow> u32) \<Rightarrow> u32 \<Rightarrow> nat \<Rightarrow> u32 list" where
  "callerpcs stk ebp 0 = []"
| "callerpcs stk ebp (Suc n) =
     (if ebp = 0 \<or> ebp < 0x80000000 \<or> ebp = 0xffffffff then replicate (Suc n) 0
      else stk (ebp + 4) # callerpcs stk (stk ebp) n)"

definition getcallerpcs :: "(u32 \<Rightarrow> u32) \<Rightarrow> u32 \<Rightarrow> u32 list" where
  "getcallerpcs stk v = callerpcs stk (v - 8) 10"

text \<open>
  One run of \<open>acquire\<close> on CPU \<open>c\<close>: the result is \<open>None\<close> when the atomic
  exchange found the lock taken, that is when the CPU spins and tries again.
\<close>

definition acquire :: "nat \<Rightarrow> u32 list \<Rightarrow> spinlock \<times> cpu \<Rightarrow> (spinlock \<times> cpu) option kres" where
  "acquire c pcs = (\<lambda>(lk, k).
     let k = pushcli k in
     if holding c lk then Inl (Panic ''acquire'')
     else if lk_locked lk \<noteq> 0 then Inr None
     else Inr (Some (lk\<lparr>lk_locked := 1, lk_cpu := Some c, lk_pcs := pcs\<rparr>, k)))"

definition release :: "nat \<Rightarrow> spinlock \<times> cpu \<Rightarrow> (spinlock \<times> cpu) kres" where
  "release c = (\<lambda>(lk, k).
     if \<not> holding c lk then Inl (Panic ''release'')
     else let lk = lk\<lparr>lk_pcs := (lk_pcs lk)[0 := 0], lk_cpu := None, lk_locked := 0\<rparr>
          in bindR (popcli k) (\<lambda>k. Inr (lk, k)))"

text \<open>
  The same code one shared access at a time. A CPU is outside, spinning on the exchange,
  past a successful exchange but before \<open>lk->cpu = cpu\<close>, in its critical section, or past
  \<open>lk->cpu = 0\<close> but before the releasing exchange.
\<close>

datatype lock_pc = Outside | Spinning | Taken | Inside | Leaving

record lock_sys =
  ls_lock :: spinlock
  ls_cpus :: "nat \<Rightarrow> cpu"
  ls_pc :: "nat \<Rightarrow> lock_pc"

definition lock_init :: "string \<Rightarrow> lock_sys" where
  "lock_init name =
     \<lparr>ls_lock = initlock name \<lparr>lk_locked = 0, lk_name = [], lk_cpu = None, lk_pcs = replicate 10 0\<rparr>,
      ls_cpus = (\<lambda>_. \<lparr>cpu_ncli = 0, cpu_intena = False, cpu_if = True\<rparr>),
      ls_pc = (\<lambda>_. Outside)\<rparr>"

inductive lock_step :: "lock_sys \<Rightarrow> lock_sys \<Rightarrow> bool" where
  enter: "ls_pc s c = Outside \<Longrightarrow> \<not> holding c (ls_lock s) \<Longrightarrow>
     lock_step s (s\<lparr>ls_cpus := (ls_cpus s)(c := pushcli (ls_cpus s c)),
                    ls_pc := (ls_pc s)(c := Spinning)\<rparr>)"
| spin: "ls_pc s c = Spinning \<Longrightarrow> lk_locked (ls_lock s) \<noteq> 0 \<Longrightarrow>
     lock_step s (s\<lparr>ls_lock := (ls_lock s)\<lparr>lk_locked := 1\<rparr>\<rparr>)"
| take: "ls_pc s c = Spinning \<Longrightarrow> lk_locked (ls_lock s) = 0 \<Longrightarrow>
     lock_step s (s\<lparr>ls_lock := (ls_lock s)\<lparr>lk_locked := 1\<rparr>, ls_pc := (ls_pc s)(c := Taken)\<rparr>)"
| record_owner: "ls_pc s c = Taken \<Longrightarrow>
     lock_step s (s\<lparr>ls_lock := (ls_lock s)\<lparr>lk_cpu := Some c, lk_pcs := pcs\<rparr>,
                    ls_pc := (ls_pc s)(c := Inside)\<rparr>)"
| clear_owner: "ls_pc s c = Inside \<Longrightarrow> holding c (ls_lock s) \<Longrightarrow>
     lock_step s (s\<lparr>ls_lock := (ls_lock s)\<lparr>lk_pcs := (lk_pcs (ls_lock s))[0 := 0], lk_cpu := None\<rparr>,
                    ls_pc := (ls_pc s)(c := Leaving)\<rparr>)"
| leave: "ls_pc s c = Leaving \<Longrightarrow> popcli (ls_cpus s c) = Inr k \<Longrightarrow>
     lock_step s (s\<lparr>ls_lock := (ls_lock s)\<lparr>lk_locked := 0\<rparr>,
                    ls_cpus := (ls_cpus s)(c := k), ls_pc := (ls_pc s)(c := Outside)\<rparr>)"

inductive lock_reachable :: "string \<Rightarrow> lock_sys \<Rightarrow> bool" for name where
  start: "lock_reachable name (lock_init name)"
| step: "lock_reachable name s \<Longrightarrow> lock_step s t \<Longrightarrow> lock_reachable name t"

definition owns :: "lock_pc \<Rightarrow> bool" where
  "owns pc \<longleftrightarrow> pc = Taken \<or> pc = Inside \<or> pc = Leaving"

definition cpu_ok :: "lock_pc \<Rightarrow> cpu \<Rightarrow> bool" where
  "cpu_ok pc k \<longleftrightarrow> cpu_ncli k = (if pc = Outside then 0 else 1) \<and> (pc \<noteq> Outside \<longrightarrow> \<not> cpu_if k)"

definition lock_inv :: "lock_sys \<Rightarrow> bool" where
  "lock_inv s \<longleftrightarrow>
     (\<forall>c d. owns (ls_pc s c) \<longrightarrow> owns (ls_pc s d) \<longrightarrow> c = d) \<and>
     (lk_locked (ls_lock s) \<noteq> 0 \<longleftrightarrow> (\<exists>c. owns (ls_pc s c))) \<and>
     (\<forall>c. lk_cpu (ls_lock s) = Some c \<longleftrightarrow> ls_pc s c = Inside) \<and>
     (\<forall>c. cpu_ok (ls_pc s c) (ls_cpus s c))"

section \<open>Lemmas\<close>

subsection \<open>Interrupt nesting\<close>

lemma pushcli_ncli [simp]: "cpu_ncli (pushcli k) = cpu_ncli k + 1"
  and pushcli_if [simp]: "cpu_if (pushcli k) = False"
  by (simp_all add: pushcli_def Let_def)

lemma pushcli_intena [simp]:
  "cpu_intena (pushcli k) = (if cpu_ncli k = 0 then cpu_if k else cpu_intena k)"
  by (simp add: pushcli_def Let_def)

lemma popcli_ok:
  assumes "\<not> cpu_if k" and "0 < cpu_ncli k"
  shows "popcli k = Inr (k\<lparr>cpu_ncli := cpu_ncli k - 1,
     cpu_if := (cpu_ncli k = 1 \<and> cpu_intena k)\<rparr>)"
  using assms by (auto simp: popcli_def Let_def)

lemma holding_iff_inside:
  "lock_inv s \<Longrightarrow> holding c (ls_lock s) \<longleftrightarrow> ls_pc s c = Inside"
  unfolding lock_inv_def holding_def owns_def by blast

lemma owns_simps [simp]:
  "\<not> owns Outside" "\<not> owns Spinning" "owns Taken" "owns Inside" "owns Leaving"
  by (simp_all add: owns_def)

text \<open>A move between two points on the same side of the exchange leaves ownership alone.\<close>

lemma owns_upd [simp]: "owns pc = owns (f c) \<Longrightarrow> owns ((f(c := pc)) d) = owns (f d)"
  by simp

lemma sole_owner: "lock_inv s \<Longrightarrow> owns (ls_pc s c) \<Longrightarrow> d \<noteq> c \<Longrightarrow> \<not> owns (ls_pc s d)"
  by (auto simp: lock_inv_def)

lemma lock_inv_cpu: "lock_inv s \<Longrightarrow> cpu_ok (ls_pc s c) (ls_cpus s c)"
  by (simp add: lock_inv_def)

lemma not_inside: "\<not> owns pc \<Longrightarrow> pc \<noteq> Inside"
  by auto

lemma lock_step_inv: "lock_step s t \<Longrightarrow> lock_inv s \<Longrightarrow> lock_inv t"
proof (induction rule: lock_step.induct)
  case (enter s c)
  then show ?case by (simp add: lock_inv_def cpu_ok_def del: fun_upd_apply) auto
next
  case (spin s c)
  then show ?case by (auto simp: lock_inv_def)
next
  case (take s c)
  then have "\<not> owns (ls_pc s d)" for d by (auto simp: lock_inv_def)
  with take show ?case by (auto simp: lock_inv_def cpu_ok_def dest: not_inside)
next
  case (record_owner s c pcs)
  then have "d \<noteq> c \<Longrightarrow> ls_pc s d \<noteq> Inside" for d
    using sole_owner [of s c d] by auto
  with record_owner show ?case by (simp add: lock_inv_def cpu_ok_def del: fun_upd_apply) auto
next
  case (clear_owner s c)
  then have "d \<noteq> c \<Longrightarrow> ls_pc s d \<noteq> Inside" for d
    using sole_owner [of s c d] by auto
  with clear_owner show ?case by (simp add: lock_inv_def cpu_ok_def del: fun_upd_apply) auto
next
  case (leave s c k)
  then have "d \<noteq> c \<Longrightarrow> \<not> owns (ls_pc s d)" for d
    using sole_owner [of s c d] by simp
  moreover have "cpu_ok Leaving (ls_cpus s c)" using lock_inv_cpu [of s c] leave by simp
  then have "cpu_ok Outside k"
    using leave(2) popcli_ok [of "ls_cpus s c"] by (auto simp: cpu_ok_def)
  ultimately show ?case using leave by (auto simp: lock_inv_def dest: not_inside)
qed

lemma lock_inv_init: "lock_inv (lock_init name)"
  by (simp add: lock_inv_def lock_init_def owns_def cpu_ok_def initlock_def)

lemma lock_reachable_inv: "lock_reachable name s \<Longrightarrow> lock_inv s"
  by (induction rule: lock_reachable.induct) (auto intro: lock_inv_init lock_step_inv)

section \<open>Properties\<close>

text \<open>
  C21: in every interleaving of CPUs running \<open>acquire\<close> and \<open>release\<close> on one lock,
  at most one CPU is between its successful exchange and its releasing exchange; the lock
  word is set exactly then; \<open>holding\<close> is true exactly on the CPU inside its critical
  section; and that CPU has interrupts off at nesting depth one.
\<close>

theorem spinlock_mutual_exclusion:
  assumes "lock_reachable name s" and "owns (ls_pc s c)"
  shows "(owns (ls_pc s d) \<longrightarrow> d = c) \<and> lk_locked (ls_lock s) \<noteq> 0 \<and>
    (holding d (ls_lock s) \<longleftrightarrow> ls_pc s d = Inside) \<and>
    \<not> cpu_if (ls_cpus s c) \<and> cpu_ncli (ls_cpus s c) = 1"
proof -
  from assms(1) have inv: "lock_inv s" by (rule lock_reachable_inv)
  then have "cpu_ok (ls_pc s c) (ls_cpus s c)" by (auto simp: lock_inv_def)
  moreover from assms(2) have "ls_pc s c \<noteq> Outside" by (auto simp: owns_def)
  ultimately show ?thesis
    using inv assms(2) holding_iff_inside [OF inv, of d] by (auto simp: lock_inv_def cpu_ok_def)
qed

theorem spinlock_mutual_exclusion_witness:
  "\<exists>s. lock_reachable ''ptable'' s \<and> owns (ls_pc s 0) \<and> \<not> cpu_if (ls_cpus s 0) \<and>
     cpu_ncli (ls_cpus s 0) = 1"
proof -
  let ?s0 = "lock_init ''ptable''"
  let ?s1 = "?s0\<lparr>ls_cpus := (ls_cpus ?s0)(0 := pushcli (ls_cpus ?s0 0)),
                  ls_pc := (ls_pc ?s0)(0 := Spinning)\<rparr>"
  let ?s2 = "?s1\<lparr>ls_lock := (ls_lock ?s1)\<lparr>lk_locked := 1\<rparr>, ls_pc := (ls_pc ?s1)(0 := Taken)\<rparr>"
  have "lock_step ?s0 ?s1"
    by (rule lock_step.enter) (simp_all add: lock_init_def holding_def initlock_def)
  moreover have "lock_step ?s1 ?s2"
    by (rule lock_step.take) (simp_all add: lock_init_def initlock_def)
  ultimately have r: "lock_reachable ''ptable'' ?s2"
    by (meson lock_reachable.intros)
  moreover have o: "owns (ls_pc ?s2 0)" by (simp add: owns_def)
  ultimately show ?thesis using spinlock_mutual_exclusion [OF r o] by blast
qed

text \<open>
  C22: \<open>pushcli\<close> and \<open>popcli\<close> nest: \<open>n\<close> calls of \<open>pushcli\<close> undone by
  \<open>n\<close> calls of \<open>popcli\<close> never panic and put the interrupt flag and the depth back
  to what they were, whether interrupts were on or off at the start.
\<close>

theorem pushcli_popcli_nest:
  assumes "0 \<le> cpu_ncli k" and "0 < cpu_ncli k \<longrightarrow> \<not> cpu_if k"
  shows "\<exists>k'. foldR (\<lambda>_. popcli) (replicate n ()) ((pushcli ^^ n) k) = Inr k' \<and>
    cpu_if k' = cpu_if k \<and> cpu_ncli k' = cpu_ncli k \<and>
    (0 < cpu_ncli k \<longrightarrow> cpu_intena k' = cpu_intena k)"
  using assms
proof (induction n arbitrary: k)
  case 0
  then show ?case by simp
next
  case (Suc n)
  from Suc.IH [of "pushcli k"] Suc.prems obtain k1 where
    k1: "foldR (\<lambda>_. popcli) (replicate n ()) ((pushcli ^^ n) (pushcli k)) = Inr k1"
      "\<not> cpu_if k1" "cpu_ncli k1 = cpu_ncli k + 1" "cpu_intena k1 = cpu_intena (pushcli k)"
    by auto
  have "foldR (\<lambda>_. popcli) (replicate (Suc n) ()) ((pushcli ^^ Suc n) k) =
      bindR (Inr k1) (foldR (\<lambda>_. popcli) [()])"
    unfolding replicate_Suc replicate_append_same [symmetric] foldR_append
    by (simp only: k1(1) funpow_Suc_right o_apply)
  with k1 Suc.prems popcli_ok [of k1] show ?case by auto
qed

theorem pushcli_popcli_nest_witness:
  "\<exists>k'. foldR (\<lambda>_. popcli) (replicate 3 ())
     ((pushcli ^^ 3) \<lparr>cpu_ncli = 0, cpu_intena = False, cpu_if = True\<rparr>) = Inr k' \<and> cpu_if k'"
  using pushcli_popcli_nest [of "\<lparr>cpu_ncli = 0, cpu_intena = False, cpu_if = True\<rparr>" 3] by auto

end
