(* ===== verification/CString.thy ===== *)
theory CString
  imports Prelude
begin

unbundle bit_operations_syntax

section \<open>Memory and string routines (string.c, ulib.c)\<close>

text \<open>
  The byte routines of the kernel (\<open>string.c\<close>) and of the user library
  (\<open>ulib.c\<close>) over a flat memory. A pointer is an address; \<open>*p++\<close> reads or
  writes at the pointer and passes the next address on. Loops that look for a NUL byte may
  run past every string, so they are partial functions: \<open>None\<close> is a loop that never
  ends. The results compare each routine with the copy, fill or comparison it stands for.
\<close>

subsection \<open>Definitions: string.c\<close>

text \<open>\<open>rep stosb\<close> and \<open>rep stosl\<close> store a byte or a little-endian word \<open>cnt\<close> times.\<close>

fun stosb :: "mem \<Rightarrow> nat \<Rightarrow> u8 \<Rightarrow> nat \<Rightarrow> mem" where
  "stosb m a b 0 = m"
| "stosb m a b (Suc n) = stosb (m(a := b)) (a + 1) b n"

definition store32 :: "mem \<Rightarrow> nat \<Rightarrow> u32 \<Rightarrow> mem" where
  "store32 m a w = m(a := ucast w, a + 1 := ucast (drop_bit 8 w),
     a + 2 := ucast (drop_bit 16 w), a + 3 := ucast (drop_bit 24 w))"

fun stosl :: "mem \<Rightarrow> nat \<Rightarrow> u32 \<Rightarrow> nat \<Rightarrow> mem" where
  "stosl m a w 0 = m"
| "stosl m a w (Suc n) = stosl (store32 m a w) (a + 4) w n"

definition memset :: "mem \<Rightarrow> nat \<Rightarrow> u32 \<Rightarrow> nat \<Rightarrow> mem" where
  "memset m dst c n =
     (if dst mod 4 = 0 \<and> n mod 4 = 0
      then (let c = c AND 0xFF
            in stosl m dst (push_bit 24 c OR push_bit 16 c OR push_bit 8 c OR c) (n div 4))
      else stosb m dst (ucast c) n)"

fun memcmp :: "mem \<Rightarrow> nat \<Rightarrow> nat \<Rightarrow> nat \<Rightarrow> int" where
  "memcmp m s1 s2 0 = 0"
| "memcmp m s1 s2 (Suc n) =
     (if m s1 \<noteq> m s2 then uint (m s1) - uint (m s2)
      else memcmp m (s1 + 1) (s2 + 1) n)"

fun copy_up :: "mem \<Rightarrow> nat \<Rightarrow> nat \<Rightarrow> nat \<Rightarrow> mem" where
  "copy_up m d s 0 = m"
| "copy_up m d s (Suc n) = copy_up (m(d := m s)) (d + 1) (s + 1) n"

fun copy_down :: "mem \<Rightarrow> nat \<Rightarrow> nat \<Rightarrow> nat \<Rightarrow> mem" where
  "copy_down m d s 0 = m"
| "copy_down m d s (Suc n) = copy_down (m(d - 1 := m (s - 1))) (d - 1) (s - 1) n"

definition memmove :: "mem \<Rightarrow> nat \<Rightarrow> nat \<Rightarrow> nat \<Rightarrow> mem" where
  "memmove m dst src n =
     (if src < dst \<and> src + n > dst then copy_down m (dst + n) (src + n) n
      else copy_up m dst src n)"

definition memcpy :: "mem \<Rightarrow> nat \<Rightarrow> nat \<Rightarrow> nat \<Rightarrow> mem" where
  "memcpy m dst src n = memmove m dst src n"

fun strncmp :: "mem \<Rightarrow> nat \<Rightarrow> nat \<Rightarrow> nat \<Rightarrow> int" where
  "strncmp m p q 0 = 0"
| "strncmp m p q (Suc n) =
     (if m p \<noteq> 0 \<and> m p = m q then strncmp m (p + 1) (q + 1) n
      else uint (m p) - uint (m q))"

text \<open>
  \<open>strncpy\<close>: the first loop copies up to and including a NUL, the second pads what is
  left of \<open>n\<close> with zeros. The count is the number of times \<open>n-- > 0\<close> can still hold.
\<close>

fun zero_fill :: "mem \<Rightarrow> nat \<Rightarrow> nat \<Rightarrow> mem" where
  "zero_fill m s 0 = m"
| "zero_fill m s (Suc n) = zero_fill (m(s := 0)) (s + 1) n"

fun strncpy :: "mem \<Rightarrow> nat \<Rightarrow> nat \<Rightarrow> nat \<Rightarrow> mem" where
  "strncpy m s t 0 = m"
| "strncpy m s t (Suc n) =
     (let m' = m(s := m t) in
      if m t \<noteq> 0 then strncpy m' (s + 1) (t + 1) n else zero_fill m' (s + 1) n)"

text \<open>\<open>safestrcpy\<close>: \<open>--n > 0\<close> leaves room for the final \<open>*s = 0\<close>.\<close>

fun safestrcpy_loop :: "mem \<Rightarrow> nat \<Rightarrow> nat \<Rightarrow> nat \<Rightarrow> mem" where
  "safestrcpy_loop m s t 0 = m(s := 0)"
| "safestrcpy_loop m s t (Suc n) =
     (let m' = m(s := m t) in
      if m t \<noteq> 0 then safestrcpy_loop m' (s + 1) (t + 1) n else m'(s + 1 := 0))"

definition safestrcpy :: "mem \<Rightarrow> nat \<Rightarrow> nat \<Rightarrow> int \<Rightarrow> mem" where
  "safestrcpy m s t n = (if n \<le> 0 then m else safestrcpy_loop m s t (nat n - 1))"

partial_function (option) strlen_from :: "mem \<Rightarrow> nat \<Rightarrow> nat \<Rightarrow> nat option" where
  "strlen_from m s n = (if m (s + n) = 0 then Some n else strlen_from m s (n + 1))"

definition strlen :: "mem \<Rightarrow> nat \<Rightarrow> nat option" where
  "strlen m s = strlen_from m s 0"

subsection \<open>Definitions: ulib.c\<close>

partial_function (option) strcpy :: "mem \<Rightarrow> nat \<Rightarrow> nat \<Rightarrow> mem option" where
  "strcpy m s t =
     (if m t = 0 then Some (m(s := m t)) else strcpy (m(s := m t)) (s + 1) (t + 1))"

partial_function (option) strcmp :: "mem \<Rightarrow> nat \<Rightarrow> nat \<Rightarrow> int option" where
  "strcmp m p q =
     (if m p \<noteq> 0 \<and> m p = m q then strcmp m (p + 1) (q + 1)
      else Some (uint (m p) - uint (m q)))"

definition ulib_memset :: "mem \<Rightarrow> nat \<Rightarrow> u32 \<Rightarrow> nat \<Rightarrow> mem" where
  "ulib_memset m dst c n = stosb m dst (ucast c) n"

partial_function (option) strchr :: "mem \<Rightarrow> nat \<Rightarrow> u8 \<Rightarrow> nat option option" where
  "strchr m s c =
     (if m s = 0 then Some None
      else if m s = c then Some (Some s)
      else strchr m (s + 1) c)"

definition is_digit :: "u8 \<Rightarrow> bool" where
  "is_digit c \<longleftrightarrow> 48 \<le> c \<and> c \<le> 57"

text \<open>\<open>atoi\<close> computes in a C int: the additions and the multiplication wrap.\<close>

partial_function (option) atoi_loop :: "mem \<Rightarrow> nat \<Rightarrow> u32 \<Rightarrow> u32 option" where
  "atoi_loop m s n =
     (if is_digit (m s) then atoi_loop m (s + 1) (n * 10 + ucast (m s) - 48) else Some n)"

definition atoi :: "mem \<Rightarrow> nat \<Rightarrow> u32 option" where
  "atoi m s = atoi_loop m s 0"

text \<open>The user library's \<open>memmove\<close> always copies upwards.\<close>

definition ulib_memmove :: "mem \<Rightarrow> nat \<Rightarrow> nat \<Rightarrow> int \<Rightarrow> mem" where
  "ulib_memmove m dst src n = copy_up m dst src (nat n)"

text \<open>The value a digit string denotes.\<close>

definition digits_value :: "u8 list \<Rightarrow> nat" where
  "digits_value ds = foldl (\<lambda>v d. v * 10 + (unat d - 48)) 0 ds"

section \<open>Lemmas\<close>

subsection \<open>Fills and copies\<close>

lemma stosb_eq: "stosb m a b n = (\<lambda>x. if a \<le> x \<and> x < a + n then b else m x)"
  by (induction n arbitrary: m a) (auto simp: fun_eq_iff)

lemma zero_fill_eq: "zero_fill m s n = stosb m s 0 n"
  by (induction n arbitrary: m s) auto

text \<open>The replicated word of \<open>memset\<close> has the byte in each of its four places.\<close>

lemma and_0xFF: "(c :: u32) AND 0xFF = take_bit 8 c"
proof -
  have "(0xFF :: u32) = mask 8" by (simp add: mask_eq_exp_minus_1)
  then show ?thesis by (simp only: take_bit_eq_mask)
qed

lemma replicated_byte:
  fixes c :: u32
  defines "d \<equiv> c AND 0xFF"
  defines "w \<equiv> push_bit 24 d OR push_bit 16 d OR push_bit 8 d OR d"
  shows "ucast w = (ucast c :: u8)" "ucast (drop_bit 8 w) = (ucast c :: u8)"
    "ucast (drop_bit 16 w) = (ucast c :: u8)" "ucast (drop_bit 24 w) = (ucast c :: u8)"
  unfolding d_def w_def and_0xFF
  by (rule bit_word_eqI, simp add: bit_ucast_iff bit_or_iff bit_push_bit_iff bit_take_bit_iff
      bit_drop_bit_eq)+

lemma stosl_eq:
  assumes "ucast w = b" "ucast (drop_bit 8 w) = b" "ucast (drop_bit 16 w) = b"
    "ucast (drop_bit 24 w) = b"
  shows "stosl m a w n = (\<lambda>x. if a \<le> x \<and> x < a + 4 * n then b else m x)"
proof (induction n arbitrary: m a)
  case 0
  then show ?case by (auto simp: fun_eq_iff)
next
  case (Suc n)
  show ?case
  proof
    fix x
    consider "x < a" | "a \<le> x" "x < a + 4" | "a + 4 \<le> x" by linarith
    then show "stosl m a w (Suc n) x = (if a \<le> x \<and> x < a + 4 * Suc n then b else m x)"
    proof cases
      case 2
      then have "x = a \<or> x = a + 1 \<or> x = a + 2 \<or> x = a + 3" by linarith
      then show ?thesis using assms by (auto simp: Suc store32_def)
    qed (simp_all add: Suc store32_def)
  qed
qed

lemma wr_upd_first:
  "wr (m(a := x)) (Suc a) xs = wr m a (x # xs)"
proof
  fix b
  consider "b = a" | "b < a" | "a < b" by linarith
  then show "wr (m(a := x)) (Suc a) xs b = wr m a (x # xs) b"
    by cases (auto simp: wr_def nth_Cons' )
qed

lemma wr_Nil [simp]: "wr m a [] = m"
  by (auto simp: wr_def fun_eq_iff)

lemma wr_upd_last: "wr (m(a + length xs := x)) a xs = wr m a (xs @ [x])"
  by (auto simp: wr_def nth_append fun_eq_iff)

lemma copy_up_wr:
  assumes "d \<le> s \<or> s + n \<le> d"
  shows "copy_up m d s n = wr m d (rd m s n)"
  using assms
proof (induction n arbitrary: m d s)
  case 0
  then show ?case by simp
next
  case (Suc n)
  then have "copy_up (m(d := m s)) (Suc d) (Suc s) n =
      wr (m(d := m s)) (Suc d) (rd (m(d := m s)) (Suc s) n)"
    by (intro Suc.IH) auto
  moreover have "rd (m(d := m s)) (Suc s) n = rd m (Suc s) n"
    using Suc.prems by (intro rd_eqI) auto
  ultimately show ?case by (simp add: rd_Suc wr_upd_first)
qed

lemma copy_down_wr:
  assumes "s \<le> d"
  shows "copy_down m (d + n) (s + n) n = wr m d (rd m s n)"
proof (induction n arbitrary: m)
  case 0
  then show ?case by simp
next
  case (Suc n)
  have "rd (m(d + n := m (s + n))) s n = rd m s n"
    using assms by (intro rd_eqI) auto
  then have "wr (m(d + n := m (s + n))) d (rd (m(d + n := m (s + n))) s n) = wr m d (rd m s (Suc n))"
    using wr_upd_last [of m d "rd m s n" "m (s + n)"] by (simp only: length_rd rd_snoc)
  then show ?case by (simp only: copy_down.simps Suc add_Suc_right diff_Suc_1)
qed

lemma stosb_wr: "stosb m a b n = wr m a (replicate n b)"
  by (auto simp: stosb_eq wr_def fun_eq_iff)

lemma memmove_wr: "memmove m dst src n = wr m dst (rd m src n)"
  unfolding memmove_def using copy_up_wr [of dst src n m] copy_down_wr [of src dst m n] by auto

lemma memset_wr: "memset m dst c n = wr m dst (replicate n (ucast c))"
proof (cases "dst mod 4 = 0 \<and> n mod 4 = 0")
  case True
  then have "4 * (n div 4) = n" by presburger
  with True show ?thesis
    by (simp only: memset_def Let_def stosl_eq [OF replicated_byte] stosb_wr [symmetric]
        stosb_eq) simp
next
  case False
  then show ?thesis by (auto simp: memset_def stosb_wr)
qed

subsection \<open>Strings\<close>

lemma cstr_frame:
  "cstr m a xs \<Longrightarrow> (\<And>i. i \<le> length xs \<Longrightarrow> m' (a + i) = m (a + i)) \<Longrightarrow> cstr m' a xs"
  by (simp add: cstr_def) (metis less_imp_le_nat rd_eqI)

lemma cstr_wr_append:
  "0 \<notin> set xs \<Longrightarrow> cstr (wr m a (xs @ 0 # ys)) a xs"
  by (auto simp: cstr_def wr_def nth_append intro: nth_equalityI)

lemma strlen_from_cstr:
  assumes "cstr m s xs" and "k \<le> length xs"
  shows "strlen_from m s (length xs - k) = Some (length xs)"
  using assms(2)
proof (induction k)
  case 0
  with assms show ?case by (simp add: strlen_from.simps cstr_end)
next
  case (Suc k)
  then have i: "length xs - Suc k < length xs" by arith
  with assms have "m (s + (length xs - Suc k)) \<noteq> 0" by (intro cstr_nth)
  moreover from Suc.prems have "length xs - Suc k + 1 = length xs - k" by arith
  ultimately show ?case using Suc by (subst strlen_from.simps) simp
qed

lemma strncpy_wr:
  assumes "cstr m t xs" and "s + n \<le> t \<or> t + length xs < s"
  shows "strncpy m s t n = wr m s (take n (xs @ replicate n 0))"
  using assms
proof (induction n arbitrary: m s t xs)
  case 0
  then show ?case by simp
next
  case (Suc n)
  show ?case
  proof (cases xs)
    case Nil
    with Suc.prems have "m t = 0" by simp
    then show ?thesis
      by (simp add: Nil zero_fill_eq stosb_wr wr_upd_first)
  next
    case (Cons y ys)
    with Suc.prems(1) have y: "m t = y" "y \<noteq> 0" "cstr m (Suc t) ys"
      by (simp_all add: cstr_Cons)
    have "cstr (m(s := y)) (Suc t) ys"
      using y(3) by (rule cstr_frame) (use Suc.prems(2) Cons in auto)
    moreover have "Suc s + n \<le> Suc t \<or> Suc t + length ys < Suc s"
      using Suc.prems(2) Cons by auto
    ultimately have "strncpy (m(s := y)) (Suc s) (Suc t) n =
        wr (m(s := y)) (Suc s) (take n (ys @ replicate n 0))"
      by (rule Suc.IH)
    moreover have "take n (ys @ replicate n 0) = take n (ys @ 0 # replicate n (0::u8))"
      by (simp flip: replicate_Suc)
    ultimately show ?thesis using y Cons by (simp add: wr_upd_first)
  qed
qed

lemma safestrcpy_loop_wr:
  assumes "cstr m t xs" and "s + n < t \<or> t + length xs < s"
  shows "safestrcpy_loop m s t n =
    (if length xs < n then wr m s (xs @ [0, 0]) else wr m s (take n xs @ [0]))"
  using assms
proof (induction n arbitrary: m s t xs)
  case 0
  then show ?case by (simp add: wr_upd_first [of m s 0 "[]", simplified])
next
  case (Suc n)
  show ?case
  proof (cases xs)
    case Nil
    with Suc.prems have "m t = 0" by simp
    then show ?thesis
      by (simp add: Nil flip: wr_upd_first)
  next
    case (Cons y ys)
    with Suc.prems(1) have y: "m t = y" "y \<noteq> 0" "cstr m (Suc t) ys"
      by (simp_all add: cstr_Cons)
    have "cstr (m(s := y)) (Suc t) ys"
      using y(3) by (rule cstr_frame) (use Suc.prems(2) Cons in auto)
    moreover have "Suc s + n < Suc t \<or> Suc t + length ys < Suc s"
      using Suc.prems(2) Cons by auto
    ultimately have "safestrcpy_loop (m(s := y)) (Suc s) (Suc t) n =
        (if length ys < n then wr (m(s := y)) (Suc s) (ys @ [0, 0])
         else wr (m(s := y)) (Suc s) (take n ys @ [0]))"
      by (rule Suc.IH)
    then show ?thesis using y Cons by (simp add: wr_upd_first)
  qed
qed

lemma uint_diff_zero [simp]: "uint (a :: u8) - uint b = 0 \<longleftrightarrow> a = b"
  by (simp add: word_uint_eq_iff)

lemma uint_zero [simp]: "uint (a :: u8) = 0 \<longleftrightarrow> a = 0"
  by (simp add: word_uint_eq_iff)

lemma strncmp_zero_iff:
  assumes "cstr m p xs" and "cstr m q ys"
  shows "strncmp m p q n = 0 \<longleftrightarrow> take n xs = take n ys"
  using assms
proof (induction n arbitrary: p q xs ys)
  case 0
  then show ?case by simp
next
  case (Suc n)
  then show ?case
    by (cases xs; cases ys) (auto simp: cstr_Cons word_uint_eq_iff [symmetric])
qed

lemma memcmp_zero_iff: "memcmp m p q n = 0 \<longleftrightarrow> rd m p n = rd m q n"
  by (induction n arbitrary: p q) (auto simp: rd_Suc word_uint_eq_iff [symmetric])

lemma strcpy_wr:
  assumes "cstr m t xs" and "s + length xs < t \<or> t + length xs < s"
  shows "strcpy m s t = Some (wr m s (xs @ [0]))"
  using assms
proof (induction xs arbitrary: m s t)
  case Nil
  then show ?case
    by (subst strcpy.simps) (simp add: wr_upd_first [of m s 0 "[]", simplified])
next
  case (Cons y ys)
  then have y: "m t = y" "y \<noteq> 0" "cstr m (Suc t) ys" by (simp_all add: cstr_Cons)
  have "cstr (m(s := y)) (Suc t) ys"
    using y(3) by (rule cstr_frame) (use Cons.prems in auto)
  moreover have "Suc s + length ys < Suc t \<or> Suc t + length ys < Suc s"
    using Cons.prems by auto
  ultimately have "strcpy (m(s := y)) (Suc s) (Suc t) = Some (wr (m(s := y)) (Suc s) (ys @ [0]))"
    by (rule Cons.IH)
  then show ?case using y by (subst strcpy.simps) (simp add: wr_upd_first)
qed

lemma strcmp_zero_iff:
  assumes "cstr m p xs" and "cstr m q ys"
  shows "\<exists>r. strcmp m p q = Some r \<and> (r = 0 \<longleftrightarrow> xs = ys)"
  using assms
proof (induction xs arbitrary: p q ys)
  case Nil
  then show ?case by (cases ys) (auto simp: strcmp.simps [of m p q] cstr_Cons word_uint_eq_iff [symmetric])
next
  case (Cons x xs)
  then show ?case
  proof (cases ys)
    case Nil
    with Cons.prems show ?thesis by (auto simp: strcmp.simps [of m p q] cstr_Cons word_uint_eq_iff [symmetric])
  next
    case (Cons y ys')
    with Cons.prems Cons.IH [of "Suc p" "Suc q" ys'] show ?thesis
      by (auto simp: strcmp.simps [of m p q] cstr_Cons word_uint_eq_iff [symmetric])
  qed
qed

lemma strchr_cstr:
  assumes "cstr m s xs" and "c \<noteq> 0"
  shows "strchr m s c =
    Some (if c \<in> set xs then Some (s + length (takeWhile (\<lambda>x. x \<noteq> c) xs)) else None)"
  using assms(1)
proof (induction xs arbitrary: s)
  case Nil
  then show ?case by (subst strchr.simps) simp
next
  case (Cons x xs)
  then show ?case by (subst strchr.simps) (auto simp: cstr_Cons)
qed

subsection \<open>Decimal numbers\<close>

lemma digits_value_snoc:
  "digits_value (ds @ [d]) = digits_value ds * 10 + (unat d - 48)"
  by (simp add: digits_value_def)

lemma foldl_digits_word:
  assumes "\<forall>d \<in> set ds. is_digit d"
  shows "foldl (\<lambda>v d. v * 10 + ucast d - 48) (of_nat k) ds =
    (of_nat (foldl (\<lambda>v d. v * 10 + (unat d - 48)) k ds) :: u32)"
  using assms
proof (induction ds arbitrary: k)
  case Nil
  then show ?case by simp
next
  case (Cons d ds)
  then have "48 \<le> unat d" by (simp add: is_digit_def word_le_nat_alt)
  then have "of_nat k * 10 + ucast d - 48 = (of_nat (k * 10 + (unat d - 48)) :: u32)"
    by (simp add: of_nat_diff)
  moreover have "\<forall>d \<in> set ds. is_digit d" using Cons.prems by simp
  ultimately show ?case by (simp only: foldl.simps Cons.IH)
qed

lemma atoi_loop_digits:
  assumes "rd m s (length ds) = ds" and "\<forall>d \<in> set ds. is_digit d"
    and "\<not> is_digit (m (s + length ds))"
  shows "atoi_loop m s n = Some (foldl (\<lambda>v d. v * 10 + ucast d - 48) n ds)"
  using assms
proof (induction ds arbitrary: s n)
  case Nil
  then show ?case by (subst atoi_loop.simps) simp
next
  case (Cons d ds)
  then show ?case by (subst atoi_loop.simps) (auto simp: rd_Suc)
qed

section \<open>Correctness of the byte routines\<close>

text \<open>
  C23: \<open>memmove\<close> is a simultaneous copy for every overlap of the two regions: the
  destination gets the bytes the source had before the call, and nothing else changes.
\<close>

theorem memmove_correct: "memmove m dst src n = wr m dst (rd m src n)"
  by (rule memmove_wr)

text \<open>
  C24: \<open>memset\<close> fills exactly the \<open>n\<close> bytes at \<open>dst\<close> with the low byte of
  \<open>c\<close>, on the word-store path as on the byte-store path.
\<close>

theorem memset_correct: "memset m dst c n = wr m dst (replicate n (ucast c))"
  by (rule memset_wr)

text \<open>
  C25: \<open>safestrcpy\<close> of a string into a buffer of \<open>n > 0\<close> bytes leaves a
  NUL-terminated string there, the first \<open>n - 1\<close> bytes of the source, and writes no
  byte outside the buffer.
\<close>

theorem safestrcpy_correct:
  assumes "cstr m t xs" and "0 < n" and "s + nat n \<le> t \<or> t + length xs < s"
  shows "cstr (safestrcpy m s t n) s (take (nat n - 1) xs) \<and>
    (\<forall>x. x < s \<or> s + nat n \<le> x \<longrightarrow> safestrcpy m s t n x = m x)"
proof -
  define k where "k = nat n - 1"
  with assms(2) have n: "nat n = Suc k" by arith
  have eq: "safestrcpy m s t n =
      (if length xs < k then wr m s (xs @ [0, 0]) else wr m s (take k xs @ [0]))"
    using assms(2) safestrcpy_loop_wr [OF assms(1), of s k] assms(3) n
    by (simp add: safestrcpy_def Suc_le_eq)
  have nz: "0 \<notin> set xs" using assms(1) by (simp add: cstr_def)
  show ?thesis
  proof (cases "length xs < k")
    case True
    then show ?thesis using nz n unfolding eq
      by (auto simp: cstr_wr_append wr_other)
  next
    case False
    moreover from nz have "0 \<notin> set (take k xs)" by (meson in_set_takeD)
    ultimately show ?thesis using n unfolding eq
      by (auto simp: cstr_wr_append wr_other)
  qed
qed

theorem safestrcpy_correct_witness:
  "cstr (safestrcpy (\<lambda>a. if a = 8 then 104 else if a = 9 then 105 else if a = 10 then 33 else 0)
     0 8 3) 0 [104, 105]"
  using safestrcpy_correct [of "\<lambda>a. if a = 8 then 104 else if a = 9 then 105 else if a = 10 then 33 else 0"
      8 "[104, 105, 33]" 3 0]
  by (simp add: cstr_Cons)

end
