(* ===== verification/Sched.thy ===== *)
theory Sched
  imports Ptable Layout Spinlock CString
begin

section \<open>Scheduling, sleeping and waking (proc.c)\<close>

text \<open>
  The operations of \<open>proc.c\<close> on the process table: the table part of each as a function
  on \<open>ptable\<close>, and the whole of each, with the lock, the checks of \<open>sched\<close> and the
  switch to and from the scheduler, as a function on \<open>sched_sys\<close>. A context switch ends
  one function: what the process does when it is switched to again is its \<open>kont\<close>, and
  \<open>resume\<close> runs it. The relation \<open>sched_step\<close> interleaves the CPUs at the points
  where \<open>ptable.lock\<close> is free or handed over; \<open>sched_inv\<close> holds in every state
  it reaches.
\<close>

subsection \<open>Definitions: operations on the table\<close>

definition chan_of :: "ptr \<Rightarrow> chan" where
  "chan_of p = (case p of None \<Rightarrow> ChNull | Some q \<Rightarrow> ChProc q)"

definition curproc :: "nat \<Rightarrow> ptable \<Rightarrow> ptr" where
  "curproc c t = c_proc (cpus t c)"

definition set_cpu :: "nat \<Rightarrow> (cpu_regs \<Rightarrow> cpu_regs) \<Rightarrow> ptable \<Rightarrow> ptable" where
  "set_cpu c f t = t\<lparr>cpus := (cpus t)(c := f (cpus t c))\<rparr>"

definition switchkvm :: "nat \<Rightarrow> ptable \<Rightarrow> ptable" where
  "switchkvm c t = set_cpu c (\<lambda>r. r\<lparr>c_cr3 := v2p (kpgdir t)\<rparr>) t"

definition switchuvm :: "nat \<Rightarrow> nat \<Rightarrow> ptable \<Rightarrow> ptable kres" where
  "switchuvm c p t =
     (case curproc c t of
        None \<Rightarrow> Inl NullDeref
      | Some q \<Rightarrow>
          let t = set_cpu c (\<lambda>r. r\<lparr>c_esp0 := p_kstack (procs t q) + KSTACKSIZE\<rparr>) t in
          if p_pgdir (procs t p) = 0 then Inl (Panic ''switchuvm: no pgdir'')
          else Inr (set_cpu c (\<lambda>r. r\<lparr>c_cr3 := v2p (p_pgdir (procs t p))\<rparr>) t))"

text \<open>\<open>p->state = RUNNABLE; putOnReadyList(p, p->priority);\<close>\<close>

definition make_runnable :: "nat \<Rightarrow> ptable \<Rightarrow> ptable kres" where
  "make_runnable p t =
     (let t = set_state p RUNNABLE t in putOnReadyList p (p_priority (procs t p)) t)"

definition wakeup1_step :: "chan \<Rightarrow> nat \<Rightarrow> ptable \<Rightarrow> ptable kres" where
  "wakeup1_step chan p t =
     (if p_state (procs t p) = SLEEPING \<and> p_chan (procs t p) = chan then make_runnable p t
      else Inr t)"

definition wakeup1 :: "chan \<Rightarrow> ptable \<Rightarrow> ptable kres" where
  "wakeup1 chan = foldR (wakeup1_step chan) [0..<NPROC]"

fun kill_loop :: "int \<Rightarrow> nat list \<Rightarrow> ptable \<Rightarrow> (int \<times> ptable) kres" where
  "kill_loop pid [] t = Inr (-1, t)"
| "kill_loop pid (p # ps) t =
     (if p_pid (procs t p) = pid then
        (let t = updp p (\<lambda>r. r\<lparr>p_killed := True\<rparr>) t in
         bindR (if p_state (procs t p) = SLEEPING then make_runnable p t else Inr t)
           (\<lambda>t. Inr (0, t)))
      else kill_loop pid ps t)"

definition kill_table :: "int \<Rightarrow> ptable \<Rightarrow> (int \<times> ptable) kres" where
  "kill_table pid = kill_loop pid [0..<NPROC]"

fun setPriority_loop :: "int \<Rightarrow> int \<Rightarrow> nat list \<Rightarrow> ptable \<Rightarrow> (int \<times> ptable) kres" where
  "setPriority_loop pid priority [] t = Inr (-1, t)"
| "setPriority_loop pid priority (p # ps) t =
     (if p_pid (procs t p) = pid then
        (let oldPriority = p_priority (procs t p) in
         if oldPriority = priority then Inr (0, t)
         else
           let t = set_priority p priority t in
           bindR (if p_state (procs t p) = RUNNABLE
                  then bindR (removeFromReadyList p oldPriority t) (putOnReadyList p priority)
                  else Inr t)
             (\<lambda>t. Inr (0, t)))
      else setPriority_loop pid priority ps t)"

definition setPriority_table :: "int \<Rightarrow> int \<Rightarrow> ptable \<Rightarrow> (int \<times> ptable) kres" where
  "setPriority_table pid priority = setPriority_loop pid priority [0..<NPROC]"

text \<open>The locked part of \<open>allocproc\<close>.\<close>

definition alloc_slot :: "ptable \<Rightarrow> nat option \<times> ptable" where
  "alloc_slot t =
     (case freeList t of
        None \<Rightarrow> (None, t)
      | Some p \<Rightarrow>
          let t = takeFromFreeList p t;
              t = updp p (\<lambda>r. r\<lparr>p_state := EMBRYO, p_pid := nextpid t\<rparr>) t
          in (Some p, t\<lparr>nextpid := nextpid t + 1\<rparr>))"

text \<open>The locked part of \<open>exit\<close> before the switch.\<close>

definition exit_reparent :: "nat \<Rightarrow> nat \<Rightarrow> ptable \<Rightarrow> ptable kres" where
  "exit_reparent me p t =
     (if p_parent (procs t p) = Some me then
        (let t = updp p (\<lambda>r. r\<lparr>p_parent := initproc t\<rparr>) t in
         if p_state (procs t p) = ZOMBIE then wakeup1 (chan_of (initproc t)) t else Inr t)
      else Inr t)"

definition exit_table :: "nat \<Rightarrow> ptable \<Rightarrow> ptable kres" where
  "exit_table me t =
     bindR (wakeup1 (chan_of (p_parent (procs t me))) t) (\<lambda>t.
     bindR (foldR (exit_reparent me) [0..<NPROC] t) (\<lambda>t.
     Inr (set_state me ZOMBIE t)))"

text \<open>One pass of \<open>wait\<close> over the table: the first zombie child, and whether there is a
  child at all before it; then what \<open>wait\<close> writes into the slot it reaps.\<close>

fun wait_scan :: "nat \<Rightarrow> nat list \<Rightarrow> bool \<Rightarrow> ptable \<Rightarrow> nat option \<times> bool" where
  "wait_scan me [] havekids t = (None, havekids)"
| "wait_scan me (p # ps) havekids t =
     (if p_parent (procs t p) \<noteq> Some me then wait_scan me ps havekids t
      else if p_state (procs t p) = ZOMBIE then (Some p, True)
      else wait_scan me ps True t)"

definition wait_reap :: "nat \<Rightarrow> ptable \<Rightarrow> int \<times> ptable" where
  "wait_reap p t =
     (p_pid (procs t p),
      updp p (\<lambda>r. r\<lparr>p_kstack := 0, p_state := UNUSED, p_pid := 0, p_parent := None,
                     p_name := (p_name r)[0 := 0], p_killed := False\<rparr>) t)"

text \<open>The body of the scheduler's loop for the list that is not empty.\<close>

definition count_down :: "ptable \<Rightarrow> ptable kres" where
  "count_down t =
     (let t = t\<lparr>timeToReset := timeToReset t - 1\<rparr> in
      if timeToReset t = 0
      then bindR (resetReadyList t) (\<lambda>t. Inr (t\<lparr>timeToReset := COUNT\<rparr>))
      else Inr t)"

definition scheduler_pick :: "nat \<Rightarrow> nat \<Rightarrow> ptable \<Rightarrow> ptable kres" where
  "scheduler_pick c p t =
     bindR (removeFromReadyList p (p_priority (procs t p)) t) (\<lambda>t.
     bindR (count_down t) (\<lambda>t.
     bindR (switchuvm c p (set_cpu c (\<lambda>r. r\<lparr>c_proc := Some p\<rparr>) t)) (\<lambda>t.
     Inr (set_state p RUNNING t))))"

subsection \<open>Definitions: the operations with the lock and the switch\<close>

datatype mode =
    MSched \<comment> \<open>top of \<open>scheduler\<close>'s outer loop, lock not held\<close>
  | MLoop \<comment> \<open>head of its inner loop, lock held\<close>
  | MResume \<comment> \<open>just switched to a process, lock held\<close>
  | MRun \<comment> \<open>running a process, lock not held\<close>
  | MWait \<comment> \<open>head of the loop of \<open>wait\<close>, lock held\<close>

datatype kont =
    KForkret
  | KYield bool
  | KSleep bool bool \<comment> \<open>the saved \<open>intena\<close>; whether \<open>lk == &ptable.lock\<close>\<close>
  | KExit

datatype making = NoChild | Making nat | Aborting nat

record sched_sys =
  pt :: ptable
  ptlock :: spinlock
  cpuv :: "nat \<Rightarrow> cpu"
  loopi :: "nat \<Rightarrow> int"
  mode :: "nat \<Rightarrow> mode"
  kont :: "nat \<Rightarrow> kont"
  making :: "nat \<Rightarrow> making"

definition lock_pt :: "nat \<Rightarrow> u32 list \<Rightarrow> sched_sys \<Rightarrow> sched_sys kres" where
  "lock_pt c pcs s =
     bindR (acquire c pcs (ptlock s, cpuv s c)) (\<lambda>r.
       case r of
         None \<Rightarrow> Inl Diverge
       | Some (lk, k) \<Rightarrow> Inr (s\<lparr>ptlock := lk, cpuv := (cpuv s)(c := k)\<rparr>))"

definition unlock_pt :: "nat \<Rightarrow> sched_sys \<Rightarrow> sched_sys kres" where
  "unlock_pt c s =
     bindR (release c (ptlock s, cpuv s c)) (\<lambda>(lk, k).
       Inr (s\<lparr>ptlock := lk, cpuv := (cpuv s)(c := k)\<rparr>))"

definition on_pt :: "(ptable \<Rightarrow> ptable kres) \<Rightarrow> sched_sys \<Rightarrow> sched_sys kres" where
  "on_pt f s = bindR (f (pt s)) (\<lambda>t. Inr (s\<lparr>pt := t\<rparr>))"

definition set_mode :: "nat \<Rightarrow> mode \<Rightarrow> sched_sys \<Rightarrow> sched_sys" where
  "set_mode c m s = s\<lparr>mode := (mode s)(c := m)\<rparr>"

text \<open>The scheduler after \<open>swtch\<close> returns to it: \<open>switchkvm(); proc = 0; ++i\<close>.\<close>

definition scheduler_back :: "nat \<Rightarrow> sched_sys \<Rightarrow> sched_sys" where
  "scheduler_back c s =
     set_mode c MLoop
       (s\<lparr>pt := set_cpu c (\<lambda>r. r\<lparr>c_proc := None\<rparr>) (switchkvm c (pt s)),
          loopi := (loopi s)(c := loopi s c + 1)\<rparr>)"

definition sched :: "nat \<Rightarrow> (bool \<Rightarrow> kont) \<Rightarrow> sched_sys \<Rightarrow> sched_sys kres" where
  "sched c k s =
     (case curproc c (pt s) of
        None \<Rightarrow> Inl NullDeref
      | Some p \<Rightarrow>
          if \<not> holding c (ptlock s) then Inl (Panic ''sched ptable.lock'')
          else if cpu_ncli (cpuv s c) \<noteq> 1 then Inl (Panic ''sched locks'')
          else if p_state (procs (pt s) p) = RUNNING then Inl (Panic ''sched running'')
          else if cpu_if (cpuv s c) then Inl (Panic ''sched interruptible'')
          else Inr (scheduler_back c (s\<lparr>kont := (kont s)(p := k (cpu_intena (cpuv s c)))\<rparr>)))"

definition with_proc :: "nat \<Rightarrow> sched_sys \<Rightarrow> (nat \<Rightarrow> 'a kres) \<Rightarrow> 'a kres" where
  "with_proc c s f = (case curproc c (pt s) of None \<Rightarrow> Inl NullDeref | Some p \<Rightarrow> f p)"

definition yield :: "nat \<Rightarrow> u32 list \<Rightarrow> sched_sys \<Rightarrow> sched_sys kres" where
  "yield c pcs s =
     bindR (lock_pt c pcs s) (\<lambda>s.
     with_proc c s (\<lambda>p.
     bindR (on_pt (make_runnable p) s) (sched c KYield)))"

text \<open>
  \<open>sleep(chan, lk)\<close> up to the switch; \<open>lk\<close> is null, \<open>ptable.lock\<close> or another
  lock, which it gives up.
\<close>

datatype lockref = LkNull | LkPtable | LkOther spinlock

definition sleep_on :: "nat \<Rightarrow> nat \<Rightarrow> chan \<Rightarrow> bool \<Rightarrow> sched_sys \<Rightarrow> sched_sys kres" where
  "sleep_on c p chan own s =
     sched c (\<lambda>ie. KSleep ie own)
       (s\<lparr>pt := updp p (\<lambda>r. r\<lparr>p_chan := chan, p_state := SLEEPING\<rparr>) (pt s)\<rparr>)"

definition sleep :: "nat \<Rightarrow> u32 list \<Rightarrow> chan \<Rightarrow> lockref \<Rightarrow> sched_sys \<Rightarrow> (lockref \<times> sched_sys) kres" where
  "sleep c pcs chan lk s =
     (case curproc c (pt s) of
        None \<Rightarrow> Inl (Panic ''sleep'')
      | Some p \<Rightarrow>
          (case lk of
             LkNull \<Rightarrow> Inl (Panic ''sleep without lk'')
           | LkPtable \<Rightarrow> bindR (sleep_on c p chan True s) (\<lambda>s. Inr (LkPtable, s))
           | LkOther l \<Rightarrow>
               bindR (lock_pt c pcs s) (\<lambda>s.
               bindR (release c (l, cpuv s c)) (\<lambda>(l, k).
               bindR (sleep_on c p chan False (s\<lparr>cpuv := (cpuv s)(c := k)\<rparr>)) (\<lambda>s.
               Inr (LkOther l, s))))))"

definition wakeup :: "nat \<Rightarrow> u32 list \<Rightarrow> chan \<Rightarrow> sched_sys \<Rightarrow> sched_sys kres" where
  "wakeup c pcs chan s =
     bindR (lock_pt c pcs s) (\<lambda>s. bindR (on_pt (wakeup1 chan) s) (unlock_pt c))"

text \<open>An operation between \<open>acquire\<close> and \<open>release\<close> that returns a value.\<close>

definition locked :: "nat \<Rightarrow> u32 list \<Rightarrow> (ptable \<Rightarrow> ('a \<times> ptable) kres) \<Rightarrow> sched_sys \<Rightarrow> ('a \<times> sched_sys) kres" where
  "locked c pcs f s =
     bindR (lock_pt c pcs s) (\<lambda>s.
     bindR (f (pt s)) (\<lambda>(r, t).
     bindR (unlock_pt c (s\<lparr>pt := t\<rparr>)) (\<lambda>s. Inr (r, s))))"

definition kill :: "nat \<Rightarrow> u32 list \<Rightarrow> int \<Rightarrow> sched_sys \<Rightarrow> (int \<times> sched_sys) kres" where
  "kill c pcs pid = locked c pcs (kill_table pid)"

definition setPriority :: "nat \<Rightarrow> u32 list \<Rightarrow> int \<Rightarrow> int \<Rightarrow> sched_sys \<Rightarrow> (int \<times> sched_sys) kres" where
  "setPriority c pcs pid priority = locked c pcs (setPriority_table pid priority)"

definition exit_sched :: "nat \<Rightarrow> u32 list \<Rightarrow> sched_sys \<Rightarrow> sched_sys kres" where
  "exit_sched c pcs s =
     with_proc c s (\<lambda>p.
     bindR (lock_pt c pcs s) (\<lambda>s.
     bindR (on_pt (exit_table p) s) (sched c (\<lambda>_. KExit))))"

definition wait_enter :: "nat \<Rightarrow> u32 list \<Rightarrow> sched_sys \<Rightarrow> sched_sys kres" where
  "wait_enter c pcs s = bindR (lock_pt c pcs s) (\<lambda>s. Inr (set_mode c MWait s))"

text \<open>One iteration of the loop of \<open>wait\<close>: the result is the pid it returns, if any.\<close>

definition wait_iter :: "nat \<Rightarrow> sched_sys \<Rightarrow> (int option \<times> sched_sys) kres" where
  "wait_iter c s =
     with_proc c s (\<lambda>me.
     case wait_scan me [0..<NPROC] False (pt s) of
       (Some p, _) \<Rightarrow>
         (case wait_reap p (pt s) of (pid, t) \<Rightarrow>
            bindR (unlock_pt c (s\<lparr>pt := t\<rparr>)) (\<lambda>s. Inr (Some pid, set_mode c MRun s)))
     | (None, havekids) \<Rightarrow>
         if \<not> havekids \<or> p_killed (procs (pt s) me)
         then bindR (unlock_pt c s) (\<lambda>s. Inr (Some (-1), set_mode c MRun s))
         else bindR (sleep c [] (ChProc me) LkPtable s) (\<lambda>(_, s). Inr (None, s)))"

definition scheduler_start :: "nat \<Rightarrow> u32 list \<Rightarrow> sched_sys \<Rightarrow> sched_sys kres" where
  "scheduler_start c pcs s =
     (let s = s\<lparr>cpuv := (cpuv s)(c := (cpuv s c)\<lparr>cpu_if := True\<rparr>)\<rparr> in
      bindR (lock_pt c pcs s) (\<lambda>s.
      Inr (set_mode c MLoop (s\<lparr>loopi := (loopi s)(c := 0)\<rparr>))))"

definition scheduler_loop :: "nat \<Rightarrow> sched_sys \<Rightarrow> sched_sys kres" where
  "scheduler_loop c s =
     (let i = loopi s c in
      if i < int SIZE then
        bindR (ready_index i) (\<lambda>j.
        case readyList (pt s) j of
          None \<Rightarrow> Inr (s\<lparr>loopi := (loopi s)(c := i + 1)\<rparr>)
        | Some p \<Rightarrow>
            bindR (on_pt (scheduler_pick c p) s) (\<lambda>s.
            Inr (set_mode c MResume (s\<lparr>loopi := (loopi s)(c := if i \<noteq> 2 then -1 else i)\<rparr>))))
      else bindR (unlock_pt c s) (\<lambda>s. Inr (set_mode c MSched s)))"

text \<open>What a process does when it is switched to: return from \<open>sched\<close> into its caller,
  or run \<open>forkret\<close> (whose first call also initialises the file system).\<close>

definition resume :: "nat \<Rightarrow> sched_sys \<Rightarrow> sched_sys kres" where
  "resume c s =
     with_proc c s (\<lambda>p.
     let back = (\<lambda>ie s. s\<lparr>cpuv := (cpuv s)(c := (cpuv s c)\<lparr>cpu_intena := ie\<rparr>)\<rparr>);
         clear = (\<lambda>s. s\<lparr>pt := updp p (\<lambda>r. r\<lparr>p_chan := ChNull\<rparr>) (pt s)\<rparr>)
     in case kont s p of
          KForkret \<Rightarrow> bindR (unlock_pt c s) (\<lambda>s. Inr (set_mode c MRun s))
        | KYield ie \<Rightarrow> bindR (unlock_pt c (back ie s)) (\<lambda>s. Inr (set_mode c MRun s))
        | KSleep ie own \<Rightarrow>
            let s = clear (back ie s) in
            if own then Inr (set_mode c MWait s)
            else bindR (unlock_pt c s) (\<lambda>s. Inr (set_mode c MRun s))
        | KExit \<Rightarrow> Inl (Panic ''zombie exit''))"

subsection \<open>Definitions: reporting\<close>

definition bytes_of :: "string \<Rightarrow> u8 list" where
  "bytes_of str = map of_char str"

text \<open>The bytes \<open>strncpy\<close> writes into a field of \<open>n\<close> bytes.\<close>

definition strncpy_field :: "u8 list \<Rightarrow> nat \<Rightarrow> u8 list" where
  "strncpy_field src n = take n (takeWhile (\<lambda>b. b \<noteq> 0) src @ replicate n 0)"

record uproc =
  up_pid :: int
  up_gid :: u32
  up_uid :: u32
  up_ppid :: int
  up_state :: "u8 list"
  up_size :: u32
  up_priority :: int
  up_name :: "u8 list"

text \<open>\<open>states\<close> has entries up to \<open>RUNNING\<close>; the first two are null.\<close>

definition getProcInfo_state :: "procstate \<Rightarrow> string kres" where
  "getProcInfo_state st =
     (case st of
        UNUSED \<Rightarrow> Inl NullDeref
      | EMBRYO \<Rightarrow> Inl NullDeref
      | SLEEPING \<Rightarrow> Inr ''SLEEPING''
      | RUNNABLE \<Rightarrow> Inr ''RUNNABLE''
      | RUNNING \<Rightarrow> Inr ''RUNNING ''
      | ZOMBIE \<Rightarrow> Inl OutOfBounds)"

definition getProcInfo_entry :: "ptable \<Rightarrow> nat \<Rightarrow> uproc kres" where
  "getProcInfo_entry t p =
     (let r = procs t p in
      bindR (getProcInfo_state (p_state r)) (\<lambda>st.
      Inr \<lparr>up_pid = p_pid r, up_gid = p_gid r, up_uid = p_uid r,
           up_ppid = (case p_parent r of Some q \<Rightarrow> p_pid (procs t q) | None \<Rightarrow> p_pid r),
           up_state = strncpy_field (bytes_of st) 16, up_size = p_sz r,
           up_priority = p_priority r, up_name = strncpy_field (p_name r) 16\<rparr>))"

definition reported :: "procstate \<Rightarrow> bool" where
  "reported st \<longleftrightarrow> st = ZOMBIE \<or> st = RUNNING \<or> st = RUNNABLE \<or> st = SLEEPING"

fun getProcInfo_loop :: "int \<Rightarrow> int \<Rightarrow> nat list \<Rightarrow> uproc list \<Rightarrow> ptable \<Rightarrow> (int \<times> uproc list) kres" where
  "getProcInfo_loop maxn i [] table t = Inr (i, table)"
| "getProcInfo_loop maxn i (p # ps) table t =
     (if \<not> i < maxn then Inr (i, table)
      else if reported (p_state (procs t p))
      then bindR (getProcInfo_entry t p) (\<lambda>e. getProcInfo_loop maxn (i + 1) ps (table @ [e]) t)
      else getProcInfo_loop maxn i ps table t)"

definition getProcInfo :: "int \<Rightarrow> ptable \<Rightarrow> (int \<times> uproc list) kres" where
  "getProcInfo maxn t = getProcInfo_loop maxn 0 [0..<NPROC] [] t"

text \<open>\<open>procdump\<close>: what it prints for each used slot; \<open>stk\<close> reads kernel memory.\<close>

definition procdump_state :: "procstate \<Rightarrow> string" where
  "procdump_state st =
     (case st of
        UNUSED \<Rightarrow> ''unused'' | EMBRYO \<Rightarrow> ''embryo'' | SLEEPING \<Rightarrow> ''sleep ''
      | RUNNABLE \<Rightarrow> ''runble'' | RUNNING \<Rightarrow> ''run   '' | ZOMBIE \<Rightarrow> ''zombie'')"

record dump_line =
  dl_pid :: int
  dl_uid :: u32
  dl_gid :: u32
  dl_priority :: int
  dl_state :: string
  dl_name :: "u8 list"
  dl_pcs :: "u32 list"

definition procdump_line :: "(u32 \<Rightarrow> u32) \<Rightarrow> proc \<Rightarrow> dump_line" where
  "procdump_line stk r =
     \<lparr>dl_pid = p_pid r, dl_uid = p_uid r, dl_gid = p_gid r, dl_priority = p_priority r,
      dl_state = procdump_state (p_state r), dl_name = takeWhile (\<lambda>b. b \<noteq> 0) (p_name r),
      dl_pcs = (if p_state r = SLEEPING
                then takeWhile (\<lambda>pc. pc \<noteq> 0) (getcallerpcs stk (cx_ebp (p_context r) + 8)) else [])\<rparr>"

definition procdump :: "(u32 \<Rightarrow> u32) \<Rightarrow> ptable \<Rightarrow> dump_line list" where
  "procdump stk t =
     map (procdump_line stk) (filter (\<lambda>r. p_state r \<noteq> UNUSED) (map (procs t) [0..<NPROC]))"

subsection \<open>Definitions: boot\<close>

text \<open>The table part of \<open>userinit\<close>: \<open>fill\<close> stands for the writes to the fields of the
  new process between \<open>allocproc\<close> and the state change.\<close>

definition userinit_table :: "(proc \<Rightarrow> proc) \<Rightarrow> ptable \<Rightarrow> ptable kres" where
  "userinit_table fill t =
     (let t = (initFreeList t)\<lparr>timeToReset := COUNT\<rparr> in
      case alloc_slot t of
        (None, t) \<Rightarrow> Inl NullDeref
      | (Some p, t) \<Rightarrow>
          let t = updp p fill (t\<lparr>initproc := Some p\<rparr>);
              t = set_state p RUNNABLE t;
              t = t\<lparr>readyList := (readyList t)(0 := None, 1 := None, 2 := None)\<rparr>
          in putOnReadyList p (p_priority (procs t p)) t)"

text \<open>The table as the loader leaves it: the zeroed \<open>.bss\<close> and \<open>nextpid = 1\<close>.\<close>

definition zero_tf :: trapframe where
  "zero_tf = \<lparr>tf_edi = 0, tf_esi = 0, tf_ebp = 0, tf_oesp = 0, tf_ebx = 0, tf_edx = 0, tf_ecx = 0,
     tf_eax = 0, tf_gs = 0, tf_fs = 0, tf_es = 0, tf_ds = 0, tf_trapno = 0, tf_err = 0, tf_eip = 0,
     tf_cs = 0, tf_eflags = 0, tf_esp = 0, tf_ss = 0\<rparr>"

definition zero_context :: cpu_context where
  "zero_context = \<lparr>cx_edi = 0, cx_esi = 0, cx_ebx = 0, cx_ebp = 0, cx_eip = 0\<rparr>"

definition zero_proc :: proc where
  "zero_proc = \<lparr>p_sz = 0, p_pgdir = 0, p_kstack = 0, p_state = UNUSED, p_pid = 0, p_gid = 0,
     p_uid = 0, p_parent = None, p_tf_at = 0, p_tf = zero_tf, p_retaddr = 0, p_context_at = 0,
     p_context = zero_context, p_chan = ChNull, p_killed = False, p_ofile = replicate 16 None,
     p_cwd = None, p_name = replicate 16 0, p_next = None, p_priority = 0\<rparr>"

definition boot_table :: "u32 \<Rightarrow> ptable" where
  "boot_table kpg = \<lparr>procs = \<lambda>_. zero_proc, readyList = \<lambda>_. None, freeList = None, timeToReset = 0,
     initproc = None, nextpid = 1, kpgdir = kpg,
     cpus = \<lambda>_. \<lparr>c_proc = None, c_esp0 = 0, c_cr3 = v2p kpg\<rparr>\<rparr>"

definition pinit :: "spinlock \<Rightarrow> spinlock" where
  "pinit = initlock ''ptable''"

definition boot_sys :: "ptable \<Rightarrow> sched_sys" where
  "boot_sys t = \<lparr>pt = t,
     ptlock = pinit \<lparr>lk_locked = 0, lk_name = [], lk_cpu = None, lk_pcs = replicate 10 0\<rparr>,
     cpuv = \<lambda>_. \<lparr>cpu_ncli = 0, cpu_intena = False, cpu_if = False\<rparr>,
     loopi = \<lambda>_. 0, mode = \<lambda>_. MSched, kont = \<lambda>_. KForkret, making = \<lambda>_. NoChild\<rparr>"

subsection \<open>Definitions: the interleavings of the CPUs\<close>

text \<open>Writes a process makes to its own slot, or to a slot it is still building, outside the
  lock: none of the fields the scheduler reads but the page table, which is never null in the
  first case.\<close>

definition private_update :: "(proc \<Rightarrow> proc) \<Rightarrow> bool" where
  "private_update f \<longleftrightarrow> (\<forall>r. p_state (f r) = p_state r \<and> p_next (f r) = p_next r)"

definition lock_mode :: "mode \<Rightarrow> bool" where
  "lock_mode m \<longleftrightarrow> m = MLoop \<or> m = MResume \<or> m = MWait"

inductive sched_step :: "sched_sys \<Rightarrow> sched_sys \<Rightarrow> bool" where
  start: "mode s c = MSched \<Longrightarrow> scheduler_start c pcs s = Inr t \<Longrightarrow> sched_step s t"
| loop: "mode s c = MLoop \<Longrightarrow> scheduler_loop c s = Inr t \<Longrightarrow> sched_step s t"
| resume: "mode s c = MResume \<Longrightarrow> resume c s = Inr t \<Longrightarrow> sched_step s t"
| yield: "mode s c = MRun \<Longrightarrow> yield c pcs s = Inr t \<Longrightarrow> sched_step s t"
| sleep: "mode s c = MRun \<Longrightarrow> acquire c pcs' (lk, cpuv s c) = Inr (Some (lk', k)) \<Longrightarrow>
    sleep c pcs chan (LkOther lk') (s\<lparr>cpuv := (cpuv s)(c := k)\<rparr>) = Inr (r, t) \<Longrightarrow> sched_step s t"
| wakeup: "mode s c = MRun \<or> mode s c = MSched \<Longrightarrow> wakeup c pcs chan s = Inr t \<Longrightarrow> sched_step s t"
| kill: "mode s c = MRun \<or> mode s c = MSched \<Longrightarrow> kill c pcs pid s = Inr (r, t) \<Longrightarrow> sched_step s t"
| setPriority: "mode s c = MRun \<Longrightarrow> 0 \<le> priority \<Longrightarrow> priority \<le> 2 \<Longrightarrow>
    setPriority c pcs pid priority s = Inr (r, t) \<Longrightarrow> sched_step s t"
| wait_enter: "mode s c = MRun \<Longrightarrow> wait_enter c pcs s = Inr t \<Longrightarrow> sched_step s t"
| wait_iter: "mode s c = MWait \<Longrightarrow> wait_iter c s = Inr (r, t) \<Longrightarrow> sched_step s t"
| exit: "mode s c = MRun \<Longrightarrow> curproc c (pt s) = Some p \<Longrightarrow> making s p = NoChild \<Longrightarrow>
    exit_sched c pcs s = Inr t \<Longrightarrow> sched_step s t"
| alloc: "mode s c = MRun \<Longrightarrow> curproc c (pt s) = Some p \<Longrightarrow> making s p = NoChild \<Longrightarrow>
    locked c pcs (\<lambda>t. Inr (alloc_slot t)) s = Inr (Some n, t) \<Longrightarrow>
    sched_step s (t\<lparr>kont := (kont t)(n := KForkret), making := (making t)(p := Making n)\<rparr>)"
| fill: "mode s c = MRun \<Longrightarrow> curproc c (pt s) = Some p \<Longrightarrow> making s p = Making n \<Longrightarrow>
    private_update f \<Longrightarrow> p_priority (f (procs (pt s) n)) \<in> {p_priority (procs (pt s) n), DEFAULTPRIO} \<Longrightarrow>
    sched_step s (s\<lparr>pt := updp n f (pt s)\<rparr>)"
| ready: "mode s c = MRun \<Longrightarrow> curproc c (pt s) = Some p \<Longrightarrow> making s p = Making n \<Longrightarrow>
    p_pgdir (procs (pt s) n) \<noteq> 0 \<Longrightarrow>
    locked c pcs (\<lambda>t. bindR (make_runnable n t) (\<lambda>t. Inr ((), t))) s = Inr (u, t) \<Longrightarrow>
    sched_step s (t\<lparr>making := (making t)(p := NoChild)\<rparr>)"
| abort: "mode s c = MRun \<Longrightarrow> curproc c (pt s) = Some p \<Longrightarrow> making s p = Making n \<Longrightarrow>
    sched_step s (s\<lparr>pt := set_state n UNUSED (pt s), making := (making s)(p := Aborting n)\<rparr>)"
| give_back: "mode s c = MRun \<Longrightarrow> curproc c (pt s) = Some p \<Longrightarrow> making s p = Aborting n \<Longrightarrow>
    locked c pcs (\<lambda>t. bindR (putOnFreeList n t) (\<lambda>t. Inr ((), t))) s = Inr (u, t) \<Longrightarrow>
    sched_step s (t\<lparr>making := (making t)(p := NoChild)\<rparr>)"
| leak: "mode s c = MRun \<Longrightarrow> curproc c (pt s) = Some p \<Longrightarrow> making s p = Aborting n \<Longrightarrow>
    sched_step s (s\<lparr>making := (making s)(p := NoChild)\<rparr>)"
| own: "mode s c = MRun \<Longrightarrow> curproc c (pt s) = Some p \<Longrightarrow> private_update f \<Longrightarrow>
    p_priority (f (procs (pt s) p)) = p_priority (procs (pt s) p) \<Longrightarrow>
    p_pgdir (f (procs (pt s) p)) \<noteq> 0 \<Longrightarrow>
    sched_step s (s\<lparr>pt := updp p f (pt s)\<rparr>)"

inductive sched_reachable :: "sched_sys \<Rightarrow> bool" where
  boot: "private_update fill \<Longrightarrow> (\<And>r. p_pgdir (fill r) \<noteq> 0 \<and> p_priority (fill r) = p_priority r) \<Longrightarrow>
    userinit_table fill (boot_table kpg) = Inr t \<Longrightarrow> sched_reachable (boot_sys t)"
| step: "sched_reachable s \<Longrightarrow> sched_step s t \<Longrightarrow> sched_reachable t"

subsection \<open>Definitions: the invariant\<close>

definition alive :: "procstate \<Rightarrow> bool" where
  "alive st \<longleftrightarrow> st = SLEEPING \<or> st = RUNNABLE \<or> st = RUNNING"

definition states_ok :: "nat list \<Rightarrow> (nat \<Rightarrow> nat list) \<Rightarrow> ptable \<Rightarrow> bool" where
  "states_ok F R t \<longleftrightarrow>
     (\<forall>i<SIZE. \<forall>p. p \<in> set (R i) \<longleftrightarrow>
        p < NPROC \<and> p_state (procs t p) = RUNNABLE \<and> p_priority (procs t p) = int i) \<and>
     (\<forall>p\<in>set F. p < NPROC \<and> p_state (procs t p) = UNUSED) \<and>
     (\<forall>p<NPROC. 0 \<le> p_priority (procs t p) \<and> p_priority (procs t p) < int SIZE) \<and>
     (\<forall>p<NPROC. alive (p_state (procs t p)) \<longrightarrow> p_pgdir (procs t p) \<noteq> 0) \<and>
     0 < timeToReset t \<and> timeToReset t \<le> COUNT"

definition table_ok :: "nat list \<Rightarrow> (nat \<Rightarrow> nat list) \<Rightarrow> ptable \<Rightarrow> bool" where
  "table_ok F R t \<longleftrightarrow> lists_rep t F R \<and> states_ok F R t"

definition cpus_ok :: "ptable \<Rightarrow> bool" where
  "cpus_ok t \<longleftrightarrow>
     (\<forall>c p. curproc c t = Some p \<longrightarrow> p < NPROC \<and> p_state (procs t p) = RUNNING) \<and>
     (\<forall>p<NPROC. p_state (procs t p) = RUNNING \<longrightarrow> (\<exists>c. curproc c t = Some p)) \<and>
     (\<forall>c d p. curproc c t = Some p \<longrightarrow> curproc d t = Some p \<longrightarrow> c = d)"

definition making_slot :: "making \<Rightarrow> nat option" where
  "making_slot m = (case m of NoChild \<Rightarrow> None | Making n \<Rightarrow> Some n | Aborting n \<Rightarrow> Some n)"

definition making_ok :: "nat list \<Rightarrow> (nat \<Rightarrow> making) \<Rightarrow> ptable \<Rightarrow> bool" where
  "making_ok F mk t \<longleftrightarrow>
     (\<forall>p n. mk p = Making n \<longrightarrow> n < NPROC \<and> p_state (procs t n) = EMBRYO) \<and>
     (\<forall>p n. mk p = Aborting n \<longrightarrow> n < NPROC \<and> p_state (procs t n) = UNUSED \<and> n \<notin> set F) \<and>
     (\<forall>p q n. making_slot (mk p) = Some n \<longrightarrow> making_slot (mk q) = Some n \<longrightarrow> p = q)"

definition locks_ok :: "sched_sys \<Rightarrow> bool" where
  "locks_ok s \<longleftrightarrow>
     (\<forall>c. holding c (ptlock s) \<longleftrightarrow> lock_mode (mode s c)) \<and>
     (lk_locked (ptlock s) \<noteq> 0 \<longrightarrow> (\<exists>c. lock_mode (mode s c))) \<and>
     (\<forall>c. if lock_mode (mode s c) then cpu_ncli (cpuv s c) = 1 \<and> \<not> cpu_if (cpuv s c)
          else cpu_ncli (cpuv s c) = 0)"

definition konts_ok :: "(nat \<Rightarrow> kont) \<Rightarrow> ptable \<Rightarrow> bool" where
  "konts_ok kt t \<longleftrightarrow>
     (\<forall>p<NPROC. p_state (procs t p) \<noteq> UNUSED \<longrightarrow> p_state (procs t p) \<noteq> ZOMBIE \<longrightarrow> kt p \<noteq> KExit)"

definition core_ok :: "(nat \<Rightarrow> kont) \<Rightarrow> (nat \<Rightarrow> making) \<Rightarrow> ptable \<Rightarrow> bool" where
  "core_ok kt mk t \<longleftrightarrow>
     (\<exists>F R. table_ok F R t \<and> making_ok F mk t) \<and> cpus_ok t \<and> konts_ok kt t"

definition modes_ok :: "sched_sys \<Rightarrow> bool" where
  "modes_ok s \<longleftrightarrow>
     (\<forall>c. mode s c \<in> {MRun, MResume, MWait} \<longleftrightarrow> curproc c (pt s) \<noteq> None) \<and>
     (\<forall>c. mode s c = MLoop \<longrightarrow> 0 \<le> loopi s c) \<and>
     (\<forall>c j. mode s c = MLoop \<longrightarrow> loopi s c < int SIZE \<longrightarrow> int j < loopi s c \<longrightarrow>
        readyList (pt s) j = None) \<and>
     (\<forall>c. mode s c \<in> {MRun, MResume, MWait} \<longrightarrow> loopi s c = -1 \<or> loopi s c = 2)"

definition sched_inv :: "sched_sys \<Rightarrow> bool" where
  "sched_inv s \<longleftrightarrow> core_ok (kont s) (making s) (pt s) \<and> locks_ok s \<and> modes_ok s"

text \<open>What waking does to the slots: every process of \<open>A\<close> asleep on the channel becomes
  runnable.\<close>

definition sleeping_on :: "chan \<Rightarrow> proc \<Rightarrow> bool" where
  "sleeping_on ch r \<longleftrightarrow> p_state r = SLEEPING \<and> p_chan r = ch"

definition wake_on :: "nat set \<Rightarrow> chan \<Rightarrow> ptable \<Rightarrow> ptable" where
  "wake_on A ch t = t\<lparr>procs := \<lambda>p. if p \<in> A \<and> sleeping_on ch (procs t p)
     then (procs t p)\<lparr>p_state := RUNNABLE\<rparr> else procs t p\<rparr>"

text \<open>The processes that a wakeup appends to the ready list \<open>i\<close>, in table order.\<close>

definition woken :: "chan \<Rightarrow> ptable \<Rightarrow> nat \<Rightarrow> nat list" where
  "woken ch t i = filter (\<lambda>p. sleeping_on ch (procs t p) \<and> p_priority (procs t p) = int i) [0..<NPROC]"

text \<open>Two tables that differ at most in which of their idle processes sleep.\<close>

definition same_shape :: "ptable \<Rightarrow> ptable \<Rightarrow> bool" where
  "same_shape t t' \<longleftrightarrow> cpus t' = cpus t \<and>
     (\<forall>p. p_state (procs t' p) = p_state (procs t p) \<or>
          p_state (procs t p) \<in> {SLEEPING, RUNNABLE} \<and> p_state (procs t' p) \<in> {SLEEPING, RUNNABLE})"

section \<open>Lemmas\<close>

subsection \<open>The table part\<close>

lemma strip_proj [simp]:
  "p_state (procs (strip t) p) = p_state (procs t p)"
  "p_priority (procs (strip t) p) = p_priority (procs t p)"
  "p_pgdir (procs (strip t) p) = p_pgdir (procs t p)"
  "p_parent (procs (strip t) p) = p_parent (procs t p)"
  "p_chan (procs (strip t) p) = p_chan (procs t p)"
  "p_pid (procs (strip t) p) = p_pid (procs t p)"
  "p_killed (procs (strip t) p) = p_killed (procs t p)"
  "timeToReset (strip t) = timeToReset t" "cpus (strip t) = cpus t"
  "initproc (strip t) = initproc t" "nextpid (strip t) = nextpid t" "kpgdir (strip t) = kpgdir t"
  by (simp_all add: strip_def)

lemma strip_set_state [simp]: "strip (set_state p st t) = set_state p st (strip t)"
  by (auto simp: strip_def set_state_def updp_def fun_eq_iff)

lemma curproc_strip [simp]: "curproc c (strip t) = curproc c t"
  by (simp add: curproc_def)

text \<open>Everything but the lists is read off \<open>strip\<close>.\<close>

lemma states_ok_strip: "states_ok F R (strip t) \<longleftrightarrow> states_ok F R t"
  by (simp add: states_ok_def)

lemma cpus_ok_strip: "cpus_ok (strip t) \<longleftrightarrow> cpus_ok t"
  by (simp add: cpus_ok_def)

lemma making_ok_strip: "making_ok F mk (strip t) \<longleftrightarrow> making_ok F mk t"
  by (simp add: making_ok_def)

lemma states_okD:
  assumes "states_ok F R t"
  shows "i < SIZE \<Longrightarrow> p \<in> set (R i) \<longleftrightarrow>
      p < NPROC \<and> p_state (procs t p) = RUNNABLE \<and> p_priority (procs t p) = int i"
    and "p \<in> set F \<Longrightarrow> p < NPROC \<and> p_state (procs t p) = UNUSED"
    and "p < NPROC \<Longrightarrow> 0 \<le> p_priority (procs t p) \<and> p_priority (procs t p) < int SIZE"
    and "p < NPROC \<Longrightarrow> alive (p_state (procs t p)) \<Longrightarrow> p_pgdir (procs t p) \<noteq> 0"
    and "0 < timeToReset t" and "timeToReset t \<le> COUNT"
  using assms by (simp_all add: states_ok_def)

lemma states_okI:
  assumes "\<And>i p. i < SIZE \<Longrightarrow> p \<in> set (R i) \<longleftrightarrow>
      p < NPROC \<and> p_state (procs t p) = RUNNABLE \<and> p_priority (procs t p) = int i"
    and "\<And>p. p \<in> set F \<Longrightarrow> p < NPROC \<and> p_state (procs t p) = UNUSED"
    and "\<And>p. p < NPROC \<Longrightarrow> 0 \<le> p_priority (procs t p) \<and> p_priority (procs t p) < int SIZE"
    and "\<And>p. p < NPROC \<Longrightarrow> alive (p_state (procs t p)) \<Longrightarrow> p_pgdir (procs t p) \<noteq> 0"
    and "0 < timeToReset t" and "timeToReset t \<le> COUNT"
  shows "states_ok F R t"
  using assms by (simp add: states_ok_def)

lemma states_ok_cong:
  assumes "\<And>p. p_state (procs t' p) = p_state (procs t p)"
    and "\<And>p. p_priority (procs t' p) = p_priority (procs t p)"
    and "\<And>p. p_pgdir (procs t' p) = p_pgdir (procs t p)" and "timeToReset t' = timeToReset t"
  shows "states_ok F R t' \<longleftrightarrow> states_ok F R t"
  using assms by (simp add: states_ok_def)

lemma table_ok_unlisted:
  assumes "table_ok F R t" and "p \<notin> set F" and "p_state (procs t p) \<noteq> RUNNABLE"
  shows "p \<notin> listed F R"
  using assms by (auto simp: table_ok_def states_ok_def listed_iff)

lemma states_ok_runnable:
  assumes "states_ok F R t" and "p < NPROC" and "p \<notin> set F"
    and "p_pgdir (procs t p) \<noteq> 0" and "p_priority (procs t p) = int i" and "i < SIZE"
  shows "states_ok F (R(i := R i @ [p])) (set_state p RUNNABLE t)"
  using assms unfolding states_ok_def set_state_def by auto

lemma make_runnable_ok:
  assumes ok: "table_ok F R t" and p: "p < NPROC" "p \<notin> set F" "p_state (procs t p) \<noteq> RUNNABLE"
    and pg: "p_pgdir (procs t p) \<noteq> 0"
  shows "\<exists>t'. make_runnable p t = Inr t' \<and>
    table_ok F (R(nat (p_priority (procs t p)) := R (nat (p_priority (procs t p))) @ [p])) t' \<and>
    strip t' = set_state p RUNNABLE (strip t)"
proof -
  define i where "i = nat (p_priority (procs t p))"
  then have i: "p_priority (procs t p) = int i" "i < SIZE"
    using states_okD(3) [of F R t p] ok p(1) by (auto simp: table_ok_def)
  obtain t' where t': "putOnReadyList p (int i) (set_state p RUNNABLE t) = Inr t'"
    "lists_rep t' F (R(i := R i @ [p]))" "strip t' = strip (set_state p RUNNABLE t)"
    using putOnReadyList_rep [OF _ i(2), of "set_state p RUNNABLE t" F R p]
      table_ok_unlisted [OF ok p(2,3)] ok by (auto simp: table_ok_def)
  have "states_ok F (R(i := R i @ [p])) (set_state p RUNNABLE t)"
    using states_ok_runnable [OF _ p(1,2) pg i] ok by (simp add: table_ok_def)
  then have "states_ok F (R(i := R i @ [p])) t'"
    using t'(3) by (metis states_ok_strip)
  then show ?thesis using t' i by (simp add: make_runnable_def table_ok_def)
qed

lemma table_ok_ext: "table_ok F R t \<Longrightarrow> (\<And>i. i < SIZE \<Longrightarrow> R i = R' i) \<Longrightarrow> table_ok F R' t"
  by (auto simp: table_ok_def states_ok_def intro: lists_rep_ext)

lemma cpus_okI:
  assumes "\<And>c p. curproc c t = Some p \<Longrightarrow> p < NPROC \<and> p_state (procs t p) = RUNNING"
    and "\<And>p. p < NPROC \<Longrightarrow> p_state (procs t p) = RUNNING \<Longrightarrow> \<exists>c. curproc c t = Some p"
    and "\<And>c d p. curproc c t = Some p \<Longrightarrow> curproc d t = Some p \<Longrightarrow> c = d"
  shows "cpus_ok t"
  unfolding cpus_ok_def using assms by blast

lemma cpus_okD:
  assumes "cpus_ok t"
  shows "curproc c t = Some p \<Longrightarrow> p < NPROC \<and> p_state (procs t p) = RUNNING"
    and "p < NPROC \<Longrightarrow> p_state (procs t p) = RUNNING \<Longrightarrow> \<exists>c. curproc c t = Some p"
    and "curproc c t = Some p \<Longrightarrow> curproc d t = Some p \<Longrightarrow> c = d"
  using assms unfolding cpus_ok_def by blast+

lemma cpus_ok_cong:
  assumes "\<And>p. p_state (procs t' p) = RUNNING \<longleftrightarrow> p_state (procs t p) = RUNNING" and "cpus t' = cpus t"
  shows "cpus_ok t' \<longleftrightarrow> cpus_ok t"
  using assms by (simp add: cpus_ok_def curproc_def)

lemma making_ok_cong:
  assumes "\<And>p. p_state (procs t' p) = EMBRYO \<longleftrightarrow> p_state (procs t p) = EMBRYO"
    and "\<And>p. p_state (procs t' p) = UNUSED \<longleftrightarrow> p_state (procs t p) = UNUSED"
  shows "making_ok F mk t' \<longleftrightarrow> making_ok F mk t"
  using assms by (simp add: making_ok_def)

lemma wake_on_simps [simp]:
  "p_state (procs (wake_on A ch t) p) =
     (if p \<in> A \<and> sleeping_on ch (procs t p) then RUNNABLE else p_state (procs t p))"
  "p_priority (procs (wake_on A ch t) p) = p_priority (procs t p)"
  "p_pgdir (procs (wake_on A ch t) p) = p_pgdir (procs t p)"
  "p_parent (procs (wake_on A ch t) p) = p_parent (procs t p)"
  "p_chan (procs (wake_on A ch t) p) = p_chan (procs t p)"
  "cpus (wake_on A ch t) = cpus t" "timeToReset (wake_on A ch t) = timeToReset t"
  "initproc (wake_on A ch t) = initproc t"
  by (simp_all add: wake_on_def)

lemma sleeping_on_strip [simp]: "sleeping_on ch (procs (strip t) p) = sleeping_on ch (procs t p)"
  by (simp add: sleeping_on_def)

lemma wake_on_Cons:
  "wake_on (insert p A) ch t =
     (if sleeping_on ch (procs t p) then wake_on A ch (set_state p RUNNABLE t) else wake_on A ch t)"
  by (rule ptable.equality) (auto simp: wake_on_def set_state_def updp_def sleeping_on_def fun_eq_iff)

lemma wakeup1_step_eq:
  "wakeup1_step ch p t = (if sleeping_on ch (procs t p) then make_runnable p t else Inr t)"
  by (simp add: wakeup1_step_def sleeping_on_def)

lemma wakeup1_fold:
  assumes "table_ok F R t" and "set ps \<subseteq> {..<NPROC}" and "distinct ps"
  shows "\<exists>t'. foldR (wakeup1_step ch) ps t = Inr t' \<and>
    table_ok F (\<lambda>i. R i @ filter (\<lambda>p. sleeping_on ch (procs t p) \<and> p_priority (procs t p) = int i) ps) t' \<and>
    strip t' = wake_on (set ps) ch (strip t)"
  using assms
proof (induction ps arbitrary: R t)
  case Nil
  then show ?case by (simp add: wake_on_def)
next
  case (Cons p ps)
  show ?case
  proof (cases "sleeping_on ch (procs t p)")
    case False
    then show ?thesis using Cons by (simp add: wakeup1_step_eq [of ch p] wake_on_Cons)
  next
    case True
    have p: "p < NPROC" "p \<notin> set F" "p_state (procs t p) \<noteq> RUNNABLE" "p_pgdir (procs t p) \<noteq> 0"
      using True Cons.prems by (auto simp: sleeping_on_def table_ok_def alive_def dest: states_okD)
    let ?i = "nat (p_priority (procs t p))"
    obtain t1 where t1: "make_runnable p t = Inr t1" "table_ok F (R(?i := R ?i @ [p])) t1"
      "strip t1 = set_state p RUNNABLE (strip t)"
      using make_runnable_ok [OF Cons.prems(1) p] by auto
    have i: "p_priority (procs t p) = int ?i"
      using Cons.prems(1) states_okD(3) [of F R t p] p(1) by (simp add: table_ok_def)
    have same: "sleeping_on ch (procs t1 q) = sleeping_on ch (procs t q)"
      "p_priority (procs t1 q) = p_priority (procs t q)" if "q \<in> set ps" for q
      using that Cons.prems(3) arg_cong [OF t1(3), of "\<lambda>t. sleeping_on ch (procs t q)"]
        arg_cong [OF t1(3), of "\<lambda>t. p_priority (procs t q)"]
      by (auto simp: set_state_def)
    obtain t2 where t2: "foldR (wakeup1_step ch) ps t1 = Inr t2"
      "table_ok F (\<lambda>i. (R(?i := R ?i @ [p])) i @
         filter (\<lambda>p. sleeping_on ch (procs t1 p) \<and> p_priority (procs t1 p) = int i) ps) t2"
      "strip t2 = wake_on (set ps) ch (strip t1)"
      using Cons.IH [OF t1(2)] Cons.prems by auto
    have "table_ok F (\<lambda>i. R i @ filter (\<lambda>p. sleeping_on ch (procs t p) \<and> p_priority (procs t p) = int i) (p # ps)) t2"
      by (rule table_ok_ext [OF t2(2)]) (use i same True in \<open>auto cong: filter_cong\<close>)
    then show ?thesis using t1 t2 True
      by (simp add: wakeup1_step_eq [of ch p] wake_on_Cons)
  qed
qed

lemma wakeup1_ok:
  assumes "table_ok F R t"
  shows "\<exists>t'. wakeup1 ch t = Inr t' \<and> table_ok F (\<lambda>i. R i @ woken ch t i) t' \<and>
    strip t' = wake_on {..<NPROC} ch (strip t)"
  using wakeup1_fold [OF assms, of "[0..<NPROC]" ch]
  by (simp add: wakeup1_def woken_def atLeast0LessThan subset_refl)

lemma same_shapeD:
  assumes "same_shape t t'"
  shows "cpus t' = cpus t" and "st \<notin> {SLEEPING, RUNNABLE} \<Longrightarrow>
    p_state (procs t' p) = st \<longleftrightarrow> p_state (procs t p) = st"
  using assms unfolding same_shape_def by force+

lemma same_shape_refl [simp]: "same_shape t t"
  by (simp add: same_shape_def)

lemma same_shape_trans: "same_shape t u \<Longrightarrow> same_shape u w \<Longrightarrow> same_shape t w"
  unfolding same_shape_def by (metis (no_types, lifting))

lemma same_shape_ok:
  assumes "same_shape t t'"
  shows "cpus_ok t' \<longleftrightarrow> cpus_ok t" and "making_ok F mk t' \<longleftrightarrow> making_ok F mk t"
    and "konts_ok kt t' \<longleftrightarrow> konts_ok kt t"
proof -
  note st = same_shapeD(2) [OF assms]
  show "cpus_ok t' \<longleftrightarrow> cpus_ok t"
    by (rule cpus_ok_cong) (simp_all add: st same_shapeD(1) [OF assms])
  show "making_ok F mk t' \<longleftrightarrow> making_ok F mk t"
    by (rule making_ok_cong) (simp_all add: st)
  show "konts_ok kt t' \<longleftrightarrow> konts_ok kt t"
    by (simp add: konts_ok_def st)
qed

lemma core_okI:
  assumes "table_ok F R' t'" and "making_ok F mk t" and "cpus_ok t" and "konts_ok kt t"
    and "same_shape t t'"
  shows "core_ok kt mk t'"
  using assms same_shape_ok [OF assms(5)] unfolding core_ok_def by blast

lemma core_okE:
  assumes "core_ok kt mk t"
  obtains F R where "table_ok F R t" and "making_ok F mk t" and "cpus_ok t" and "konts_ok kt t"
  using assms by (auto simp: core_ok_def)

lemma same_shape_strip: "same_shape t t' \<longleftrightarrow> same_shape (strip t) (strip t')"
  by (simp add: same_shape_def)

lemma wakeup1_core:
  assumes "core_ok kt mk t"
  shows "\<exists>t'. wakeup1 ch t = Inr t' \<and> core_ok kt mk t' \<and> strip t' = wake_on {..<NPROC} ch (strip t)"
proof -
  obtain F R where t: "table_ok F R t" "making_ok F mk t" "cpus_ok t" "konts_ok kt t"
    using assms by (rule core_okE)
  obtain t' where t': "wakeup1 ch t = Inr t'" "table_ok F (\<lambda>i. R i @ woken ch t i) t'"
    "strip t' = wake_on {..<NPROC} ch (strip t)" using wakeup1_ok [OF t(1)] by blast
  have "same_shape t t'"
    by (subst same_shape_strip) (auto simp: t'(3) same_shape_def sleeping_on_def)
  then show ?thesis using core_okI [OF t'(2) t(2,3,4)] t' by blast
qed

subsection \<open>Killing and changing priorities\<close>

lemma states_ok_updp:
  assumes "states_ok F R t" and "\<And>r. p_state (f r) = p_state r \<and> p_priority (f r) = p_priority r"
    and "\<And>r. alive (p_state r) \<Longrightarrow> p_pgdir r \<noteq> 0 \<Longrightarrow> p_pgdir (f r) \<noteq> 0"
  shows "states_ok F R (updp p f t)"
  using assms by (simp add: states_ok_def)

lemma lists_rep_updp:
  assumes "\<And>r. p_next (f r) = p_next r"
  shows "lists_rep (updp p f t) F R \<longleftrightarrow> lists_rep t F R"
  by (rule lists_rep_cong) (simp_all add: nextf_def assms fun_eq_iff)

lemma lists_rep_other [simp]:
  "lists_rep (t\<lparr>nextpid := v\<rparr>) F R \<longleftrightarrow> lists_rep t F R"
  "lists_rep (t\<lparr>timeToReset := w\<rparr>) F R \<longleftrightarrow> lists_rep t F R"
  "lists_rep (t\<lparr>initproc := q\<rparr>) F R \<longleftrightarrow> lists_rep t F R"
  "lists_rep (set_cpu c g t) F R \<longleftrightarrow> lists_rep t F R"
  by (rule lists_rep_cong; simp add: nextf_def set_cpu_def fun_eq_iff)+

lemma kill_slot_core:
  assumes "core_ok kt mk t" and "p < NPROC"
  shows "\<exists>t'. (let t = updp p (\<lambda>r. r\<lparr>p_killed := True\<rparr>) t in
         bindR (if p_state (procs t p) = SLEEPING then make_runnable p t else Inr t)
           (\<lambda>t. Inr (0 :: int, t))) = Inr (0, t') \<and> core_ok kt mk t' \<and> same_shape t t'"
proof -
  obtain F R where t: "table_ok F R t" "making_ok F mk t" "cpus_ok t" "konts_ok kt t"
    using assms(1) by (rule core_okE)
  let ?t = "updp p (\<lambda>r. r\<lparr>p_killed := True\<rparr>) t"
  have ok: "table_ok F R ?t"
    using t(1) by (simp add: table_ok_def states_ok_updp lists_rep_updp)
  have sh: "same_shape t ?t" by (simp add: same_shape_def)
  show ?thesis
  proof (cases "p_state (procs t p) = SLEEPING")
    case False
    then show ?thesis using core_okI [OF ok t(2,3,4) sh] sh by simp
  next
    case True
    then have "p \<notin> set F" "p_pgdir (procs t p) \<noteq> 0"
      using states_okD(2,4) [of F R t p] t(1) assms(2) by (auto simp: table_ok_def alive_def)
    then obtain t' R' where t': "make_runnable p ?t = Inr t'" "table_ok F R' t'"
      "strip t' = set_state p RUNNABLE (strip ?t)"
      using make_runnable_ok [OF ok assms(2)] True by auto
    have "same_shape t t'"
      by (subst same_shape_strip) (auto simp: t'(3) same_shape_def True set_state_def)
    then show ?thesis using core_okI [OF t'(2) t(2,3,4)] t'(1) True by simp
  qed
qed

lemma kill_loop_core:
  assumes "core_ok kt mk t" and "set ps \<subseteq> {..<NPROC}"
  shows "\<exists>r t'. kill_loop pid ps t = Inr (r, t') \<and> core_ok kt mk t' \<and> same_shape t t'"
  using assms
proof (induction ps)
  case Nil
  then show ?case by simp
next
  case (Cons p ps)
  then show ?case using kill_slot_core [OF Cons.prems(1), of p] by auto
qed

lemma kill_table_core:
  "core_ok kt mk t \<Longrightarrow> \<exists>r t'. kill_table pid t = Inr (r, t') \<and> core_ok kt mk t' \<and> same_shape t t'"
  unfolding kill_table_def by (rule kill_loop_core) auto

lemma lists_rep_distinct: "lists_rep t F R \<Longrightarrow> i < SIZE \<Longrightarrow> distinct (R i)"
  by (simp add: lists_rep_def ready_rep_def plist_def)

lemma states_ok_move:
  assumes "states_ok F R t" and "lists_rep t F R" and "p < NPROC" and "p_state (procs t p) = RUNNABLE"
    and "p_priority (procs t p) = int i" and "i < SIZE" and "j < SIZE" and "i \<noteq> j" and "R i = xs @ p # ys"
  shows "states_ok F (R(i := xs @ ys, j := R j @ [p])) (set_priority p (int j) t)"
    and "p \<notin> listed F (R(i := xs @ ys))"
proof -
  have d: "p \<notin> set (xs @ ys)" using lists_rep_distinct [OF assms(2,6)] assms(9) by auto
  have R: "q \<in> set (R k) \<longleftrightarrow> q < NPROC \<and> p_state (procs t q) = RUNNABLE \<and> p_priority (procs t q) = int k"
    if "k < SIZE" for k q
    by (rule states_okD(1) [OF assms(1) that])
  have Ri: "q \<in> set (xs @ ys) \<longleftrightarrow> q \<noteq> p \<and> q \<in> set (R i)" for q
    using d assms(9) by auto
  have "q \<in> set ((R(i := xs @ ys, j := R j @ [p])) k) \<longleftrightarrow> q < NPROC \<and>
      p_state (procs (set_priority p (int j) t) q) = RUNNABLE \<and>
      p_priority (procs (set_priority p (int j) t) q) = int k" if "k < SIZE" for k q
    using that assms(3-8) R [OF that, of q] R [OF assms(6), of q] Ri [of q] by auto
  moreover have "p_pgdir (procs (set_priority p v t) q) = p_pgdir (procs t q)"
    "timeToReset (set_priority p v t) = timeToReset t" for q v
    by (simp_all add: set_priority_def)
  ultimately show "states_ok F (R(i := xs @ ys, j := R j @ [p])) (set_priority p (int j) t)"
    using assms(1,7) unfolding states_ok_def by simp
  show "p \<notin> listed F (R(i := xs @ ys))"
    using states_okD(2) [OF assms(1), of p] assms(4,5) R Ri by (auto simp: listed_iff)
qed

lemma set_priority_same_shape [simp]: "same_shape t (set_priority p v t)"
  by (simp add: same_shape_def) (simp add: set_priority_def)

lemma states_ok_set_priority:
  assumes "states_ok F R t" and "p_state (procs t p) \<noteq> RUNNABLE" and "0 \<le> v" and "v < int SIZE"
  shows "states_ok F R (set_priority p v t)"
proof -
  have "p_pgdir (procs (set_priority p v t) q) = p_pgdir (procs t q)"
    "timeToReset (set_priority p v t) = timeToReset t" for q
    by (simp_all add: set_priority_def)
  then show ?thesis using assms unfolding states_ok_def by auto
qed

lemma move_ok:
  assumes t: "table_ok F R t" and p: "p < NPROC" "p_state (procs t p) = RUNNABLE"
    and i: "p_priority (procs t p) = int i" "i < SIZE" and j: "j < SIZE" "i \<noteq> j"
    and R: "R i = xs @ p # ys" and ends: "xs = [] \<or> ys \<noteq> []"
  shows "\<exists>t'. bindR (removeFromReadyList p (int i) (set_priority p (int j) t)) (putOnReadyList p (int j)) = Inr t' \<and>
        table_ok F (R(i := xs @ ys, j := R j @ [p])) t' \<and> strip t' = strip (set_priority p (int j) t)"
proof -
  let ?t = "set_priority p (int j) t"
  have rep: "lists_rep ?t F R" using t by (simp add: table_ok_def)
  have "states_ok F R t" "lists_rep t F R" using t by (simp_all add: table_ok_def)
  note st = states_ok_move [OF this p i(1,2) j, of xs ys, OF R]
  obtain t1 where t1: "removeFromReadyList p (int i) ?t = Inr t1" "lists_rep t1 F (R(i := xs @ ys))"
    "strip t1 = strip ?t" using removeFromReadyList_rep [OF rep i(2) R ends] by blast
  obtain t2 where t2: "putOnReadyList p (int j) t1 = Inr t2"
    "lists_rep t2 F (R(i := xs @ ys, j := R j @ [p]))" "strip t2 = strip t1"
    using putOnReadyList_rep [OF t1(2) j(1), of p] st(2) j(2) by auto
  have "states_ok F (R(i := xs @ ys, j := R j @ [p])) t2"
    using st(1) t1(3) t2(3) by (metis states_ok_strip)
  then show ?thesis using t1 t2 by (auto simp: table_ok_def)
qed

lemma move_error:
  assumes "table_ok F R t" and "i < SIZE" and "R i = xs @ [p]" and "xs \<noteq> []"
  shows "bindR (removeFromReadyList p (int i) (set_priority p v t)) f = Inl NullDeref"
  using removeFromReadyList_last [of "set_priority p v t" F R i xs p] assms by (simp add: table_ok_def)

lemma setPriority_slot_core:
  assumes "core_ok kt mk t" and p: "p < NPROC" and v: "0 \<le> v" "v < int SIZE"
    and ne: "p_priority (procs t p) \<noteq> v"
    and res: "(if p_state (procs (set_priority p v t) p) = RUNNABLE
          then bindR (removeFromReadyList p (p_priority (procs t p)) (set_priority p v t)) (putOnReadyList p v)
          else Inr (set_priority p v t)) = Inr t'"
  shows "core_ok kt mk t' \<and> same_shape t t'"
proof -
  obtain F R where t: "table_ok F R t" "making_ok F mk t" "cpus_ok t" "konts_ok kt t"
    using assms(1) by (rule core_okE)
  show ?thesis
  proof (cases "p_state (procs t p) = RUNNABLE")
    case False
    then have "table_ok F R (set_priority p v t)"
      using states_ok_set_priority [of F R t p v] t(1) v by (simp add: table_ok_def)
    then show ?thesis using core_okI [OF _ t(2,3,4)] res False by fastforce
  next
    case True
    obtain i where i: "p_priority (procs t p) = int i" "i < SIZE"
      using states_okD(3) [of F R t p] t(1) p
      by (metis table_ok_def nat_0_le nat_less_iff)
    then have "p \<in> set (R i)" using states_okD(1) [of F R t i p] t(1) p True by (simp add: table_ok_def)
    then obtain xs ys where R: "R i = xs @ p # ys" by (meson split_list)
    have j: "nat v < SIZE" "i \<noteq> nat v" "v = int (nat v)" using v ne i by auto
    have ends: "xs = [] \<or> ys \<noteq> []"
      using move_error [OF t(1) i(2), of xs p v "putOnReadyList p v"] R res True i by auto
    obtain t'' where t'': "bindR (removeFromReadyList p (int i) (set_priority p v t)) (putOnReadyList p v) = Inr t''"
      "table_ok F (R(i := xs @ ys, nat v := R (nat v) @ [p])) t''" "strip t'' = strip (set_priority p v t)"
      using move_ok [OF t(1) p True i j(1,2) R ends] j(3) by auto
    have "same_shape t t''"
      using set_priority_same_shape [of t p v] t''(3) by (metis same_shape_strip)
    moreover have "t' = t''" using res t''(1) True i by simp
    ultimately show ?thesis using core_okI [OF t''(2) t(2,3,4)] by simp
  qed
qed

lemma setPriority_table_core:
  assumes "core_ok kt mk t" and "0 \<le> v" "v < int SIZE" and "setPriority_table pid v t = Inr (r, t')"
  shows "core_ok kt mk t' \<and> same_shape t t'"
proof -
  have "core_ok kt mk t' \<and> same_shape t t'"
    if "setPriority_loop pid v ps t = Inr (r, t')" "set ps \<subseteq> {..<NPROC}" for ps
    using that
  proof (induction ps)
    case Nil
    then show ?case using assms(1) by (simp add: same_shape_def)
  next
    case (Cons p ps)
    then show ?case
      using setPriority_slot_core [OF assms(1) _ assms(2,3), of p] assms(1)
      by (auto simp: Let_def split: if_splits)
  qed
  from this [of "[0..<NPROC]"] show ?thesis
    using assms(4) by (simp add: setPriority_table_def atLeast0LessThan)
qed

subsection \<open>Allocation, exit and reaping\<close>

lemma states_ok_slot:
  assumes "states_ok F R t" and "p_state (procs t p) \<noteq> RUNNABLE" and "st \<noteq> RUNNABLE"
    and "set F' \<subseteq> set F - {p} \<or> st = UNUSED \<and> p < NPROC \<and> set F' \<subseteq> set F \<union> {p}"
    and "\<And>r. p_state (f r) = st \<and> p_priority (f r) = p_priority r \<and> p_pgdir (f r) = p_pgdir r"
    and "alive st \<Longrightarrow> alive (p_state (procs t p))"
  shows "states_ok F' R (updp p f t)"
  using assms unfolding states_ok_def by auto

lemma making_slot_simps [simp]:
  "making_slot NoChild = None" "making_slot (Making n) = Some n" "making_slot (Aborting n) = Some n"
  by (simp_all add: making_slot_def)

lemma making_okI:
  assumes "\<And>p n. mk p = Making n \<Longrightarrow> n < NPROC \<and> p_state (procs t n) = EMBRYO"
    and "\<And>p n. mk p = Aborting n \<Longrightarrow> n < NPROC \<and> p_state (procs t n) = UNUSED \<and> n \<notin> set F"
    and "\<And>p q n. making_slot (mk p) = Some n \<Longrightarrow> making_slot (mk q) = Some n \<Longrightarrow> p = q"
  shows "making_ok F mk t"
  unfolding making_ok_def using assms by blast

lemma making_okD:
  assumes "making_ok F mk t"
  shows "mk p = Making n \<Longrightarrow> n < NPROC \<and> p_state (procs t n) = EMBRYO"
    and "mk p = Aborting n \<Longrightarrow> n < NPROC \<and> p_state (procs t n) = UNUSED \<and> n \<notin> set F"
    and "making_slot (mk p) = Some n \<Longrightarrow> making_slot (mk q) = Some n \<Longrightarrow> p = q"
  using assms unfolding making_ok_def by blast+

lemma making_unique:
  assumes "making_ok F mk t" and "making_slot (mk p) = Some n" and "q \<noteq> p"
  shows "making_slot (mk q) \<noteq> Some n"
  using assms unfolding making_ok_def by blast

lemma making_fresh:
  assumes "making_ok F mk t" and "n \<in> set F" and "p_state (procs t n) = UNUSED"
  shows "making_slot (mk q) \<noteq> Some n"
  using assms unfolding making_ok_def making_slot_def by (cases "mk q") auto

lemma making_ok_alloc:
  assumes mk: "making_ok (n # F) mk t" and n: "p_state (procs t n) = UNUSED" "n < NPROC" "n \<notin> set F"
    and st: "\<And>q. p_state (procs t' q) = (if q = n then EMBRYO else p_state (procs t q))"
  shows "making_ok F (mk(p := Making n)) t'"
proof -
  have fresh: "making_slot (mk q) \<noteq> Some n" for q by (rule making_fresh [OF mk _ n(1)]) simp
  have *: "mk q \<noteq> Making n" "mk q \<noteq> Aborting n" for q
    using fresh [of q] by (auto simp: making_slot_def)
  have "making_slot ((mk(p := Making n)) q) = Some m \<Longrightarrow> making_slot ((mk(p := Making n)) r) = Some m \<Longrightarrow> q = r"
    for q r m
    using mk fresh [of q] fresh [of r] unfolding making_ok_def
    by (cases "q = p"; cases "r = p") (auto simp: making_slot_def)
  moreover have "(mk(p := Making n)) q = Making m \<longrightarrow> m < NPROC \<and> p_state (procs t' m) = EMBRYO" for q m
    using mk n(2) by (auto simp: st making_ok_def)
  moreover have "(mk(p := Making n)) q = Aborting m \<longrightarrow>
      m < NPROC \<and> p_state (procs t' m) = UNUSED \<and> m \<notin> set F" for q m
    using mk * [of q] by (auto simp: st making_ok_def)
  ultimately show ?thesis unfolding making_ok_def by blast
qed

lemma alloc_slot_core:
  assumes "core_ok kt mk t" and "alloc_slot t = (Some n, t')" and "mk p = NoChild"
  shows "core_ok (kt(n := KForkret)) (mk(p := Making n)) t' \<and> cpus t' = cpus t"
proof -
  obtain F R where t: "table_ok F R t" "making_ok F mk t" "cpus_ok t" "konts_ok kt t"
    using assms(1) by (rule core_okE)
  let ?f = "\<lambda>r. r\<lparr>p_state := EMBRYO, p_pid := nextpid t\<rparr>"
  from assms(2) have n: "freeList t = Some n"
    and t': "t' = (updp n ?f (takeFromFreeList n t))\<lparr>nextpid := nextpid t + 1\<rparr>"
    by (auto simp: alloc_slot_def Let_def takeFromFreeList_def set_next_def split: option.splits)
  obtain F' where F: "F = n # F'"
    using lists_rep_free_hd [of t F R] t(1) n by (cases F) (auto simp: table_ok_def)
  have n': "n < NPROC" "p_state (procs t n) = UNUSED" "n \<notin> set F'"
    using t(1) F by (auto simp: table_ok_def states_ok_def lists_rep_def free_rep_def plist_def)
  have st: "p_state (procs t' q) = (if q = n then EMBRYO else p_state (procs t q))" for q
    by (simp add: t' takeFromFreeList_def set_next_def)
  have "lists_rep t' F' R"
    using takeFromFreeList_rep [of t n F' R] t(1) F
    by (simp add: table_ok_def t' lists_rep_updp)
  moreover have "states_ok F' R (updp n ?f t)"
    by (rule states_ok_slot [of F R t n EMBRYO]) (use t(1) n' F in \<open>auto simp: table_ok_def alive_def\<close>)
  then have "states_ok F' R t'"
    by (subst states_ok_cong [of t' "updp n ?f t"]) (simp_all add: t' takeFromFreeList_def set_next_def)
  moreover have "making_ok F' (mk(p := Making n)) t'"
    using making_ok_alloc [OF _ n'(2,1,3) st] t(2) F by simp
  moreover have "cpus_ok t'"
    using t(3) n' by (subst cpus_ok_cong [of t' t]) (simp_all add: st, simp add: t' takeFromFreeList_def set_next_def)
  moreover have "konts_ok (kt(n := KForkret)) t'"
    using t(4) by (simp add: konts_ok_def st)
  ultimately show ?thesis
    by (auto simp: core_ok_def table_ok_def) (simp add: t' takeFromFreeList_def set_next_def)
qed

lemma set_cpu_simps [simp]:
  "procs (set_cpu c g t) = procs t" "timeToReset (set_cpu c g t) = timeToReset t"
  "kpgdir (set_cpu c g t) = kpgdir t" "readyList (set_cpu c g t) = readyList t"
  "initproc (set_cpu c g t) = initproc t"
  "curproc d (set_cpu c g t) = (if d = c then c_proc (g (cpus t c)) else curproc d t)"
  by (simp_all add: set_cpu_def curproc_def)

lemma states_ok_set_cpu [simp]: "states_ok F R (set_cpu c g t) \<longleftrightarrow> states_ok F R t"
  by (simp add: states_ok_def)

lemma making_ok_set_cpu [simp]: "making_ok F mk (set_cpu c g t) \<longleftrightarrow> making_ok F mk t"
  by (simp add: making_ok_def)

text \<open>A process leaves its CPU: whatever state it takes but \<open>RUNNING\<close>, the table is in
  order again once the CPU has no process.\<close>

lemma leave_core:
  assumes "making_ok F mk t" "cpus_ok t" "konts_ok kt t" and "table_ok F R t'"
    and p: "curproc c t = Some p" and "c_proc (g (cpus t' c)) = None"
    and st: "\<And>q. p_state (procs t' q) = (if q = p then st else p_state (procs t q))"
    and "cpus t' = cpus t" and "st \<in> {SLEEPING, RUNNABLE, ZOMBIE}" and "st = ZOMBIE \<or> k \<noteq> KExit"
  shows "core_ok (kt(p := k)) mk (set_cpu c g t')"
proof -
  have run: "p < NPROC" "p_state (procs t p) = RUNNING" using assms(2) p by (auto simp: cpus_ok_def)
  have cur: "curproc d (set_cpu c g t') = (if d = c then None else curproc d t)" for d
  proof -
    have "curproc d t' = curproc d t" by (simp add: curproc_def assms(8))
    then show ?thesis using assms(6) by simp
  qed
  have "cpus_ok (set_cpu c g t')"
  proof -
    have "q \<noteq> p" if "curproc d t = Some q" "d \<noteq> c" for d q
      using that p assms(2) unfolding cpus_ok_def by blast
    moreover have "st \<noteq> RUNNING" using assms(9) by auto
    ultimately show ?thesis
      using assms(2) p unfolding cpus_ok_def cur by (simp add: st) (metis option.inject)
  qed
  moreover have "making_ok F mk (set_cpu c g t')"
    using assms(1,9) run by (auto simp: making_ok_def st)
  moreover have "table_ok F R (set_cpu c g t')"
    using assms(4) by (simp add: table_ok_def)
  moreover have "konts_ok (kt(p := k)) (set_cpu c g t')"
    using assms(3,10) by (auto simp: konts_ok_def st)
  ultimately show ?thesis unfolding core_ok_def by blast
qed

lemma park_core:
  assumes "core_ok kt mk t" and p: "curproc c t = Some p" and "c_proc (g (cpus t c)) = None"
    and f: "\<And>r. p_state (f r) = st \<and> p_priority (f r) = p_priority r \<and> p_pgdir (f r) = p_pgdir r \<and> p_next (f r) = p_next r"
    and "st \<in> {SLEEPING, ZOMBIE}" and "st = ZOMBIE \<or> k \<noteq> KExit"
  shows "core_ok (kt(p := k)) mk (set_cpu c g (updp p f t))"
proof -
  obtain F R where t: "table_ok F R t" "making_ok F mk t" "cpus_ok t" "konts_ok kt t"
    using assms(1) by (rule core_okE)
  have run: "p < NPROC" "p_state (procs t p) = RUNNING" using t(3) p by (auto simp: cpus_ok_def)
  have "p \<notin> set F" using states_okD(2) [of F R t p] t(1) run by (auto simp: table_ok_def)
  then have "states_ok F R (updp p f t)"
    using assms(5) run t(1) f
    by (intro states_ok_slot [of F R t p st]) (auto simp: table_ok_def alive_def)
  then have "table_ok F R (updp p f t)" using t(1) f by (simp add: table_ok_def lists_rep_updp)
  then show ?thesis
    using leave_core [OF t(2,3,4) _ p, of R "updp p f t" g st k] assms(3,5,6) f by auto
qed

lemma yield_core:
  assumes "core_ok kt mk t" and p: "curproc c t = Some p" and "c_proc (g (cpus t c)) = None" and "k \<noteq> KExit"
  shows "\<exists>t'. make_runnable p t = Inr t' \<and> core_ok (kt(p := k)) mk (set_cpu c g t') \<and>
    strip t' = set_state p RUNNABLE (strip t)"
proof -
  obtain F R where t: "table_ok F R t" "making_ok F mk t" "cpus_ok t" "konts_ok kt t"
    using assms(1) by (rule core_okE)
  have run: "p < NPROC" "p_state (procs t p) = RUNNING" using t(3) p by (auto simp: cpus_ok_def)
  have "p \<notin> set F" "p_pgdir (procs t p) \<noteq> 0"
    using states_okD(2,4) [of F R t p] t(1) run by (auto simp: table_ok_def alive_def)
  then obtain t' R' where t': "make_runnable p t = Inr t'" "table_ok F R' t'"
    "strip t' = set_state p RUNNABLE (strip t)"
    using make_runnable_ok [OF t(1) run(1)] run(2) by auto
  have "p_state (procs t' q) = (if q = p then RUNNABLE else p_state (procs t q))" for q
    using arg_cong [OF t'(3), of "\<lambda>t. p_state (procs t q)"] by simp
  moreover have "cpus t' = cpus t"
    using arg_cong [OF t'(3), of cpus] by (simp add: set_state_def)
  ultimately show ?thesis
    using leave_core [OF t(2,3,4) t'(2) p, of g RUNNABLE k] assms(3,4) t'(1,3) by auto
qed

lemma exit_reparent_core:
  assumes "core_ok kt mk t"
  shows "\<exists>t'. exit_reparent me p t = Inr t' \<and> core_ok kt mk t' \<and> cpus t' = cpus t"
proof -
  let ?t = "updp p (\<lambda>r. r\<lparr>p_parent := initproc t\<rparr>) t"
  obtain F R where t: "table_ok F R t" "making_ok F mk t" "cpus_ok t" "konts_ok kt t"
    using assms by (rule core_okE)
  have "table_ok F R ?t" using t(1) by (simp add: table_ok_def states_ok_updp lists_rep_updp)
  then have ok: "core_ok kt mk ?t" using core_okI [OF _ t(2,3,4)] by (simp add: same_shape_def)
  obtain t' where t': "wakeup1 (chan_of (initproc t)) ?t = Inr t'" "core_ok kt mk t'"
      "strip t' = wake_on {..<NPROC} (chan_of (initproc t)) (strip ?t)"
    using wakeup1_core [OF ok] by blast
  have "cpus t' = cpus t" using arg_cong [OF t'(3), of cpus] by simp
  then show ?thesis using ok assms t'(1,2) by (auto simp: exit_reparent_def Let_def)
qed

lemma exit_table_core:
  assumes "core_ok kt mk t" and p: "curproc c t = Some p" and "c_proc (g (cpus t c)) = None"
  shows "\<exists>t'. exit_table p t = Inr t' \<and> core_ok (kt(p := KExit)) mk (set_cpu c g t') \<and>
    cpus t' = cpus t \<and> p_state (procs t' p) = ZOMBIE"
proof -
  let ?ch = "chan_of (p_parent (procs t p))"
  obtain t1 where t1: "wakeup1 ?ch t = Inr t1" "core_ok kt mk t1" "strip t1 = wake_on {..<NPROC} ?ch (strip t)"
    using wakeup1_core [OF assms(1)] by blast
  have c1: "cpus t1 = cpus t" using arg_cong [OF t1(3), of cpus] by simp
  have step: "\<exists>t'. exit_reparent p x u = Inr t' \<and> (core_ok kt mk t' \<and> cpus t' = cpus t1)"
    if "core_ok kt mk u \<and> cpus u = cpus t1" for x u
    using exit_reparent_core [of kt mk u p x] that by auto
  have "\<exists>t2. foldR (exit_reparent p) [0..<NPROC] t1 = Inr t2 \<and> (core_ok kt mk t2 \<and> cpus t2 = cpus t1)"
    by (rule foldR_invariant [where P = "\<lambda>u. core_ok kt mk u \<and> cpus u = cpus t1"])
      (use t1(2) step in \<open>blast+\<close>)
  then obtain t2 where t2: "foldR (exit_reparent p) [0..<NPROC] t1 = Inr t2" "core_ok kt mk t2"
    "cpus t2 = cpus t1" by blast
  have cur2: "curproc c t2 = Some p" using p c1 t2(3) by (simp add: curproc_def)
  have g2: "c_proc (g (cpus t2 c)) = None" using assms(3) c1 t2(3) by simp
  have "core_ok (kt(p := KExit)) mk (set_cpu c g (set_state p ZOMBIE t2))"
    unfolding set_state_def by (rule park_core [OF t2(2) cur2, where st = ZOMBIE and g = g, OF g2]) simp_all
  moreover have "exit_table p t = Inr (set_state p ZOMBIE t2)"
    by (simp add: exit_table_def t1(1) t2(1))
  moreover have "cpus (set_state p ZOMBIE t2) = cpus t" using t2(3) c1 by (simp add: set_state_def)
  ultimately show ?thesis by simp
qed

lemma wait_scan_zombie:
  "wait_scan me ps hk t = (Some p, hk') \<Longrightarrow>
     p \<in> set ps \<and> p_parent (procs t p) = Some me \<and> p_state (procs t p) = ZOMBIE"
  by (induction ps arbitrary: hk) (auto split: if_splits)

lemma wait_reap_core:
  assumes "core_ok kt mk t" and "p < NPROC" and "p_state (procs t p) = ZOMBIE"
    and "wait_reap p t = (pid, t')"
  shows "core_ok kt mk t' \<and> cpus t' = cpus t \<and> readyList t' = readyList t"
proof -
  obtain F R where t: "table_ok F R t" "making_ok F mk t" "cpus_ok t" "konts_ok kt t"
    using assms(1) by (rule core_okE)
  let ?f = "\<lambda>r. r\<lparr>p_kstack := 0, p_state := UNUSED, p_pid := 0, p_parent := None,
                     p_name := (p_name r)[0 := 0], p_killed := False\<rparr>"
  have t': "t' = updp p ?f t" using assms(4) by (simp add: wait_reap_def)
  have "p \<notin> set F" using states_okD(2) [of F R t p] t(1) assms(3) by (auto simp: table_ok_def)
  then have "states_ok F R t'"
    unfolding t' by (intro states_ok_slot [of F R t p UNUSED])
      (use t(1) assms(2,3) in \<open>auto simp: table_ok_def alive_def\<close>)
  then have "table_ok F R t'" using t(1) by (simp add: table_ok_def t' lists_rep_updp)
  moreover have "making_ok F mk t'"
    using t(2) assms(3) by (intro making_okI) (auto simp: t' dest: making_okD)
  moreover have "cpus_ok t'" using t(3) assms(3) by (subst cpus_ok_cong [of t' t]) (auto simp: t')
  moreover have "konts_ok kt t'" using t(4) by (simp add: konts_ok_def t')
  ultimately show ?thesis unfolding core_ok_def by (auto simp: t')
qed

lemma making_ok_drop: "making_ok F mk t \<Longrightarrow> making_ok F (mk(p := NoChild)) t"
  by (rule making_okI) (auto split: if_splits dest: making_okD)

lemma give_back_core:
  assumes "core_ok kt mk t" and "mk p = Aborting n"
  shows "\<exists>t'. putOnFreeList n t = Inr t' \<and> core_ok kt (mk(p := NoChild)) t' \<and> cpus t' = cpus t"
proof -
  obtain F R where t: "table_ok F R t" "making_ok F mk t" "cpus_ok t" "konts_ok kt t"
    using assms(1) by (rule core_okE)
  have n: "n < NPROC" "p_state (procs t n) = UNUSED" "n \<notin> set F"
    using t(2) assms(2) by (auto dest: making_okD)
  obtain t' where t': "putOnFreeList n t = Inr t'" "lists_rep t' (F @ [n]) R" "strip t' = strip t"
    using putOnFreeList_rep [of t F R n] table_ok_unlisted [OF t(1) n(3)] n(2) t(1) by (auto simp: table_ok_def)
  have "states_ok (F @ [n]) R t" using t(1) n by (auto simp: table_ok_def states_ok_def)
  then have "table_ok (F @ [n]) R t'"
    using t'(2,3) by (metis table_ok_def states_ok_strip)
  moreover have "mk q \<noteq> Aborting n" if "q \<noteq> p" for q
    using making_unique [OF t(2), of p n q] assms(2) that by auto
  then have "making_ok (F @ [n]) (mk(p := NoChild)) t"
    using making_ok_drop [OF t(2), of p] by (intro making_okI) (auto dest: making_okD split: if_splits)
  then have "making_ok (F @ [n]) (mk(p := NoChild)) t'" using t'(3) by (metis making_ok_strip)
  moreover have "cpus_ok t'" using t(3) t'(3) by (metis cpus_ok_strip)
  moreover have "konts_ok kt t'" "cpus t' = cpus t"
    using t(4) stripD(1,11) [OF t'(3)] by (simp_all add: konts_ok_def)
  ultimately show ?thesis using t'(1) unfolding core_ok_def by blast
qed

lemma ready_core:
  assumes "core_ok kt mk t" and "mk p = Making n" and "p_pgdir (procs t n) \<noteq> 0"
  shows "\<exists>t'. make_runnable n t = Inr t' \<and> core_ok kt (mk(p := NoChild)) t' \<and> cpus t' = cpus t"
proof -
  obtain F R where t: "table_ok F R t" "making_ok F mk t" "cpus_ok t" "konts_ok kt t"
    using assms(1) by (rule core_okE)
  have n: "n < NPROC" "p_state (procs t n) = EMBRYO"
    using t(2) assms(2) by (auto dest: making_okD)
  have "n \<notin> set F" using states_okD(2) [of F R t n] t(1) n(2) by (auto simp: table_ok_def)
  then obtain t' R' where t': "make_runnable n t = Inr t'" "table_ok F R' t'"
    "strip t' = set_state n RUNNABLE (strip t)"
    using make_runnable_ok [OF t(1) n(1) _ _ assms(3)] n(2) by auto
  have st: "p_state (procs t' q) = (if q = n then RUNNABLE else p_state (procs t q))" for q
    using arg_cong [OF t'(3), of "\<lambda>t. p_state (procs t q)"] by simp
  have c: "cpus t' = cpus t" using arg_cong [OF t'(3), of cpus] by (simp add: set_state_def)
  have other: "mk q \<noteq> Making n" if "q \<noteq> p" for q
    using making_unique [OF t(2), of p n q] assms(2) that by auto
  then have "making_ok F (mk(p := NoChild)) t'"
    using making_ok_drop [OF t(2), of p] n(2)
    by (intro making_okI) (auto simp: st dest: making_okD split: if_splits)
  moreover have "cpus_ok t'" using t(3) c n(2) by (subst cpus_ok_cong [of t' t]) (auto simp: st)
  moreover have "konts_ok kt t'" using t(4) n by (auto simp: konts_ok_def st)
  ultimately show ?thesis using t'(1,2) c unfolding core_ok_def by blast
qed

lemma private_core:
  assumes "core_ok kt mk t" and "private_update f"
    and "p_priority (f (procs t p)) = p_priority (procs t p) \<or>
         p_state (procs t p) = EMBRYO \<and> p_priority (f (procs t p)) = DEFAULTPRIO"
    and "alive (p_state (procs t p)) \<Longrightarrow> p_pgdir (f (procs t p)) \<noteq> 0"
  shows "core_ok kt mk (updp p f t)"
proof -
  obtain F R where t: "table_ok F R t" "making_ok F mk t" "cpus_ok t" "konts_ok kt t"
    using assms(1) by (rule core_okE)
  have st: "p_state (procs (updp p f t) q) = p_state (procs t q)" for q
    using assms(2) by (simp add: private_update_def)
  have prio: "p_priority (procs (updp p f t) q) = p_priority (procs t q) \<or>
      q = p \<and> p_state (procs t q) = EMBRYO \<and> p_priority (procs (updp p f t) q) = DEFAULTPRIO" for q
    using assms(3) by auto
  have pg: "alive (p_state (procs t q)) \<Longrightarrow> p_pgdir (procs t q) \<noteq> 0 \<Longrightarrow> p_pgdir (procs (updp p f t) q) \<noteq> 0" for q
    using assms(4) by auto
  have ok: "states_ok F R t" using t(1) by (simp add: table_ok_def)
  have "states_ok F R (updp p f t)"
    unfolding states_ok_def st
  proof (intro conjI allI impI ballI)
    fix i q assume i: "i < SIZE"
    show "(q \<in> set (R i)) = (q < NPROC \<and> p_state (procs t q) = RUNNABLE \<and>
        p_priority (procs (updp p f t) q) = int i)"
      using prio [of q] states_okD(1) [OF ok i, of q] by auto
  next
    fix q assume "q < NPROC"
    then show "0 \<le> p_priority (procs (updp p f t) q)" "p_priority (procs (updp p f t) q) < int SIZE"
      using prio [of q] states_okD(3) [OF ok, of q] by (auto simp: DEFAULTPRIO_def SIZE_def)
  qed (use states_okD(2,4,5,6) [OF ok] pg in auto)
  moreover have "lists_rep (updp p f t) F R"
    using t(1) assms(2) by (simp add: table_ok_def lists_rep_updp private_update_def)
  moreover have "same_shape t (updp p f t)" unfolding same_shape_def st by simp
  ultimately show ?thesis using core_okI [OF _ t(2,3,4)] by (simp add: table_ok_def)
qed

subsection \<open>Dispatch\<close>

lemma states_ok_take:
  assumes "states_ok F R t" and "distinct (R j)" and "R j = p # xs" and "j < SIZE"
  shows "states_ok F (R(j := xs)) (set_state p RUNNING t)"
proof -
  have p: "p < NPROC" "p_state (procs t p) = RUNNABLE" "p_priority (procs t p) = int j"
    using states_okD(1) [OF assms(1,4), of p] assms(3) by auto
  have xs: "q \<in> set xs \<longleftrightarrow> q \<noteq> p \<and> q \<in> set (R j)" for q using assms(2,3) by auto
  have pg: "p_pgdir (procs (set_state p RUNNING t) q) = p_pgdir (procs t q)"
    "timeToReset (set_state p RUNNING t) = timeToReset t" for q by (simp_all add: set_state_def)
  have "p_pgdir (procs t p) \<noteq> 0" using states_okD(4) [OF assms(1) p(1)] p(2) by (simp add: alive_def)
  moreover have "(q \<in> set ((R(j := xs)) i)) = (q < NPROC \<and>
      p_state (procs (set_state p RUNNING t) q) = RUNNABLE \<and>
      p_priority (procs (set_state p RUNNING t) q) = int i)" if "i < SIZE" for i q
    using states_okD(1) [OF assms(1) that, of q] xs [of q] p by auto
  ultimately show ?thesis
    using assms(1) p(2) unfolding states_ok_def pg by auto
qed

lemma SIZE_cases: "i < SIZE \<longleftrightarrow> i = 0 \<or> i = 1 \<or> i = 2"
  by (auto simp: SIZE_def)

lemma states_ok_reset:
  assumes ok: "states_ok F R (set_state p RUNNING t)" and pp: "p_state (procs t p) = RUNNABLE"
    and s: "\<And>q. p_state (procs t' q) = p_state (procs t q)"
      "\<And>q. p_pgdir (procs t' q) = p_pgdir (procs t q)"
      "\<And>q. p_priority (procs t' q) = (if q \<in> set (R 0) \<union> set (R 2) \<or>
         q < NPROC \<and> (p_state (procs t q) = RUNNING \<or> p_state (procs t q) = SLEEPING)
         then DEFAULTPRIO else p_priority (procs t q))"
  shows "states_ok F (\<lambda>i. if i = 1 then R 1 @ R 0 @ R 2 else []) (set_state p RUNNING (t'\<lparr>timeToReset := COUNT\<rparr>))"
proof -
  let ?t = "set_state p RUNNING (t'\<lparr>timeToReset := COUNT\<rparr>)"
  have R: "q \<in> set (R i) \<longleftrightarrow> q < NPROC \<and> q \<noteq> p \<and> p_state (procs t q) = RUNNABLE \<and> p_priority (procs t q) = int i"
    if "i < SIZE" for i q
    using states_okD(1) [OF ok that, of q] by auto
  have range: "0 \<le> p_priority (procs t q) \<and> p_priority (procs t q) < int SIZE" if "q < NPROC" for q
    using states_okD(3) [OF ok that] by simp
  have R012: "q \<in> set (R 0) \<longleftrightarrow> q < NPROC \<and> q \<noteq> p \<and> p_state (procs t q) = RUNNABLE \<and> p_priority (procs t q) = 0"
    "q \<in> set (R 1) \<longleftrightarrow> q < NPROC \<and> q \<noteq> p \<and> p_state (procs t q) = RUNNABLE \<and> p_priority (procs t q) = 1"
    "q \<in> set (R 2) \<longleftrightarrow> q < NPROC \<and> q \<noteq> p \<and> p_state (procs t q) = RUNNABLE \<and> p_priority (procs t q) = 2" for q
    using R [of 0 q] R [of 1 q] R [of 2 q] by simp_all
  have pg: "p_pgdir (procs ?t q) = p_pgdir (procs t q)" for q
    using s(2) by (simp add: set_state_def)
  have st: "p_state (procs ?t q) = p_state (procs (set_state p RUNNING t) q)" for q
    by (simp add: s(1))
  have pr: "p_priority (procs ?t q) = p_priority (procs t' q)" for q
    by (simp add: set_state_def)
  have prio3: "p_priority (procs t q) = 0 \<or> p_priority (procs t q) = 1 \<or> p_priority (procs t q) = 2"
    if "q < NPROC" for q using range [OF that] by (auto simp: SIZE_def)
  have listed_q: "q \<in> set (R 1 @ R 0 @ R 2) \<longleftrightarrow> q < NPROC \<and> q \<noteq> p \<and> p_state (procs t q) = RUNNABLE" for q
    using R012 [of q] prio3 [of q] by (simp only: set_append Un_iff) blast
  have one: "p_priority (procs t' q) = 1" if "q < NPROC" "q \<noteq> p" "p_state (procs t q) = RUNNABLE" for q
    using R012 [of q] prio3 [of q] that unfolding s(3) DEFAULTPRIO_def by auto
  show ?thesis
  proof (rule states_okI)
    fix i q assume i: "i < SIZE"
    show "(q \<in> set (if i = 1 then R 1 @ R 0 @ R 2 else [])) = (q < NPROC \<and>
      p_state (procs ?t q) = RUNNABLE \<and> p_priority (procs ?t q) = int i)"
      using listed_q [of q] one [of q] unfolding st pr by auto
  next
    fix q assume "q \<in> set F"
    then show "q < NPROC \<and> p_state (procs ?t q) = UNUSED" using states_okD(2) [OF ok] unfolding st by blast
  next
    fix q assume "q < NPROC"
    then show "0 \<le> p_priority (procs ?t q) \<and> p_priority (procs ?t q) < int SIZE"
      using range unfolding pr s(3) by (simp add: DEFAULTPRIO_def SIZE_def)
  next
    fix q assume q: "q < NPROC" "alive (p_state (procs ?t q))"
    show "p_pgdir (procs ?t q) \<noteq> 0"
      using states_okD(4) [OF ok q(1)] q(2) unfolding st pg by (simp add: set_state_def split: if_splits)
  qed (simp_all add: set_state_def COUNT_def)
qed

lemma count_down_ok:
  assumes rep: "lists_rep t F R" and ok: "states_ok F R (set_state p RUNNING t)"
    and pp: "p_state (procs t p) = RUNNABLE"
  shows "\<exists>t' R'. count_down t = Inr t' \<and> lists_rep t' F R' \<and> states_ok F R' (set_state p RUNNING t') \<and>
    (\<forall>q. p_state (procs t' q) = p_state (procs t q) \<and> p_pgdir (procs t' q) = p_pgdir (procs t q)) \<and>
    cpus t' = cpus t"
proof (cases "timeToReset t - 1 = 0")
  case False
  let ?t = "t\<lparr>timeToReset := timeToReset t - 1\<rparr>"
  have "0 < timeToReset t" "timeToReset t \<le> COUNT" using states_okD(5,6) [OF ok] by (simp_all add: set_state_def)
  then have "0 < timeToReset t - 1" "timeToReset t - 1 \<le> COUNT"
    using word_pred_bounds [of "timeToReset t" COUNT] False by auto
  then have "states_ok F R (set_state p RUNNING ?t)"
    using ok by (simp add: states_ok_def set_state_def)
  then show ?thesis using False rep by (auto simp: count_down_def)
next
  case True
  let ?t = "t\<lparr>timeToReset := timeToReset t - 1\<rparr>"
  have prio: "\<forall>i<SIZE. \<forall>q\<in>set (R i). p_priority (procs ?t q) = int i"
    using states_okD(1) [OF ok] by simp
  obtain t' where t': "resetReadyList ?t = Inr t'"
    "lists_rep t' F (\<lambda>i. if i = 1 then R 1 @ R 0 @ R 2 else [])"
    "strip t' = prio_map (\<lambda>q. q \<in> set (R 0) \<union> set (R 2) \<or>
      q < NPROC \<and> (p_state (procs ?t q) = RUNNING \<or> p_state (procs ?t q) = SLEEPING)) (strip ?t)"
    using resetReadyList_rep [OF _ prio] rep by auto
  have s: "p_state (procs t' q) = p_state (procs t q)" "p_pgdir (procs t' q) = p_pgdir (procs t q)"
    "cpus t' = cpus t" for q
    using arg_cong [OF t'(3), of "\<lambda>s. p_state (procs s q)"] arg_cong [OF t'(3), of "\<lambda>s. p_pgdir (procs s q)"]
      arg_cong [OF t'(3), of cpus] by simp_all
  moreover have "p_priority (procs t' q) = (if q \<in> set (R 0) \<union> set (R 2) \<or>
         q < NPROC \<and> (p_state (procs t q) = RUNNING \<or> p_state (procs t q) = SLEEPING)
         then DEFAULTPRIO else p_priority (procs t q))" for q
    using arg_cong [OF t'(3), of "\<lambda>s. p_priority (procs s q)"] by auto
  then have "states_ok F (\<lambda>i. if i = 1 then R 1 @ R 0 @ R 2 else []) (set_state p RUNNING (t'\<lparr>timeToReset := COUNT\<rparr>))"
    by (intro states_ok_reset [where t = t]) (use ok pp s in blast)+
  moreover have "count_down t = Inr (t'\<lparr>timeToReset := COUNT\<rparr>)" using True t'(1) by (simp add: count_down_def)
  ultimately show ?thesis using t'(2)
    by (intro exI [of _ "t'\<lparr>timeToReset := COUNT\<rparr>"] exI [of _ "\<lambda>i. if i = 1 then R 1 @ R 0 @ R 2 else []"]) auto
qed

lemma scheduler_pick_core:
  assumes "core_ok kt mk t" and "curproc c t = None" and "j < SIZE" and "readyList t j = Some p"
  shows "\<exists>t'. scheduler_pick c p t = Inr t' \<and> core_ok kt mk t' \<and> curproc c t' = Some p \<and>
    (\<forall>d. d \<noteq> c \<longrightarrow> curproc d t' = curproc d t) \<and> p_state (procs t' p) = RUNNING \<and> p < NPROC \<and>
    (\<forall>q. q \<noteq> p \<longrightarrow> p_state (procs t' q) = p_state (procs t q)) \<and> p_priority (procs t p) = int j"
proof -
  obtain F R where t: "table_ok F R t" "making_ok F mk t" "cpus_ok t" "konts_ok kt t"
    using assms(1) by (rule core_okE)
  have rep: "lists_rep t F R" and ok: "states_ok F R t" using t(1) by (simp_all add: table_ok_def)
  obtain xs where R: "R j = p # xs"
    using lists_rep_hd [OF rep assms(3)] assms(4) by (cases "R j") auto
  have p: "p < NPROC" "p_state (procs t p) = RUNNABLE" "p_priority (procs t p) = int j"
    using states_okD(1) [OF ok assms(3), of p] R by auto
  have pg: "p_pgdir (procs t p) \<noteq> 0" using states_okD(4) [OF ok p(1)] p(2) by (simp add: alive_def)
  obtain t1 where t1: "removeFromReadyList p (int j) t = Inr t1" "lists_rep t1 F (R(j := xs))" "strip t1 = strip t"
    using remove_first_rep [OF rep assms(3) R] by blast
  have "states_ok F (R(j := xs)) (set_state p RUNNING t)"
    using states_ok_take [OF ok lists_rep_distinct [OF rep assms(3)] R assms(3)] .
  then have ok1: "states_ok F (R(j := xs)) (set_state p RUNNING t1)"
    using t1(3) by (metis states_ok_strip strip_set_state)
  obtain t2 R2 where t2: "count_down t1 = Inr t2" "lists_rep t2 F R2" "states_ok F R2 (set_state p RUNNING t2)"
    "\<And>q. p_state (procs t2 q) = p_state (procs t1 q) \<and> p_pgdir (procs t2 q) = p_pgdir (procs t1 q)"
    "cpus t2 = cpus t1"
    using count_down_ok [OF t1(2) ok1] stripD(1) [OF t1(3), of p] p(2) by auto
  have st: "p_state (procs t2 q) = p_state (procs t q)" for q
    using t2(4) [of q] stripD(1) [OF t1(3), of q] by simp
  have pg2: "p_pgdir (procs t2 p) = p_pgdir (procs t p)"
    using t2(4) [of p] arg_cong [OF t1(3), of "\<lambda>t. p_pgdir (procs t p)"] by simp
  have cp: "cpus t2 = cpus t" using t2(5) stripD(11) [OF t1(3)] by simp
  obtain g where g: "switchuvm c p (set_cpu c (\<lambda>r. r\<lparr>c_proc := Some p\<rparr>) t2) = Inr (set_cpu c g t2)"
    "\<And>r. c_proc (g r) = Some p"
    using pg pg2 by (force simp: switchuvm_def set_cpu_def curproc_def Let_def)
  let ?t = "set_state p RUNNING (set_cpu c g t2)"
  have cur: "curproc d ?t = (if d = c then Some p else curproc d t)" for d
    using g(2) cp by (simp add: curproc_def set_state_def set_cpu_def)
  have fin: "scheduler_pick c p t = Inr ?t"
    using t1(1) t2(1) g(1) p(3) by (simp add: scheduler_pick_def)
  have "states_ok F R2 ?t" using t2(3) by (simp add: states_ok_def set_state_def)
  then have "table_ok F R2 ?t" using t2(2) by (simp add: table_ok_def)
  moreover have "making_ok F mk ?t"
    using t(2) p(2) by (subst making_ok_cong [of ?t t]) (auto simp: st)
  moreover have "konts_ok kt ?t" using t(4) p by (auto simp: konts_ok_def st)
  moreover have "cpus_ok ?t"
  proof -
    have np: "curproc d t \<noteq> Some p" for d using cpus_okD(1) [OF t(3), of d p] p(2) by auto
    have st': "p_state (procs ?t q) = (if q = p then RUNNING else p_state (procs t q))" for q
      by (simp add: st)
    show ?thesis
    proof (rule cpus_okI)
      show "q < NPROC \<and> p_state (procs ?t q) = RUNNING" if "curproc d ?t = Some q" for d q
        using that cpus_okD(1) [OF t(3), of d q] p(1) unfolding cur st' by (auto split: if_splits)
      show "\<exists>d. curproc d ?t = Some q" if "q < NPROC" "p_state (procs ?t q) = RUNNING" for q
        using that cpus_okD(2) [OF t(3), of q] assms(2) unfolding cur st' by (cases "q = p") force+
      show "d = e" if "curproc d ?t = Some q" "curproc e ?t = Some q" for d e q
        using that cpus_okD(3) [OF t(3), of d q e] np unfolding cur by (auto split: if_splits)
    qed
  qed
  ultimately have "core_ok kt mk ?t" unfolding core_ok_def by blast
  then show ?thesis using fin cur p st by auto
qed

end
