(* ===== verification/Sched_Inv.thy ===== *)
theory Sched_Inv
  imports Sched
begin

section \<open>The scheduler's invariant (proc.c)\<close>

text \<open>
  Every step of every CPU keeps \<open>sched_inv\<close>. The proofs are in two parts: the lock
  (\<open>lock_held\<close> is the state between \<open>acquire\<close> and \<open>release\<close>, when no other CPU
  can be inside) and the table, for which \<open>Sched\<close> has one lemma per operation. The
  properties of the scheduler follow.
\<close>

definition lock_held :: "nat \<Rightarrow> sched_sys \<Rightarrow> bool" where
  "lock_held c s \<longleftrightarrow> holding c (ptlock s) \<and> cpu_ncli (cpuv s c) = 1 \<and> \<not> cpu_if (cpuv s c) \<and>
     (\<forall>d. d \<noteq> c \<longrightarrow> \<not> lock_mode (mode s d) \<and> cpu_ncli (cpuv s d) = 0)"

text \<open>Two states that differ in the lock and the CPUs' interrupt state only.\<close>

definition same_sys :: "sched_sys \<Rightarrow> sched_sys \<Rightarrow> bool" where
  "same_sys s s' \<longleftrightarrow> pt s' = pt s \<and> mode s' = mode s \<and> loopi s' = loopi s \<and> kont s' = kont s \<and> making s' = making s"

text \<open>The condition on one CPU's mode, the variable \<open>proc\<close> and the loop variable.\<close>

definition mode_ok :: "nat \<Rightarrow> mode \<Rightarrow> int \<Rightarrow> ptable \<Rightarrow> bool" where
  "mode_ok c m i t \<longleftrightarrow>
     (m \<in> {MRun, MResume, MWait} \<longleftrightarrow> curproc c t \<noteq> None) \<and>
     (m = MLoop \<longrightarrow> 0 \<le> i \<and> (i < int SIZE \<longrightarrow> (\<forall>j. int j < i \<longrightarrow> readyList t j = None))) \<and>
     (m \<in> {MRun, MResume, MWait} \<longrightarrow> i = -1 \<or> i = 2)"

text \<open>Concrete tables: the first process, a parent with a zombie child, two runnable processes.\<close>

definition init_fill :: "proc \<Rightarrow> proc" where
  "init_fill r = r\<lparr>p_pgdir := 0x80400000, p_sz := 4096\<rparr>"

definition zombie_child :: ptable where
  "zombie_child = (boot_table 0)\<lparr>procs := (\<lambda>_. zero_proc)
     (0 := zero_proc\<lparr>p_state := RUNNING, p_pid := 1\<rparr>,
      1 := zero_proc\<lparr>p_state := ZOMBIE, p_pid := 2, p_parent := Some 0\<rparr>),
     cpus := (\<lambda>_. \<lparr>c_proc = Some 0, c_esp0 = 0, c_cr3 = 0\<rparr>)\<rparr>"

definition two_ready :: ptable where
  "two_ready = (boot_table 0)\<lparr>procs := (\<lambda>_. zero_proc)
     (0 := zero_proc\<lparr>p_state := RUNNABLE, p_pid := 1, p_priority := 1, p_next := Some 1\<rparr>,
      1 := zero_proc\<lparr>p_state := RUNNABLE, p_pid := 2, p_priority := 1\<rparr>),
     readyList := (\<lambda>_. None)(1 := Some 0)\<rparr>"

section \<open>Lemmas\<close>

lemma modes_ok_iff: "modes_ok s \<longleftrightarrow> (\<forall>c. mode_ok c (mode s c) (loopi s c) (pt s))"
  unfolding modes_ok_def mode_ok_def by blast

lemma mode_ok_cong:
  assumes "curproc c t' = curproc c t" and "m = MLoop \<Longrightarrow> readyList t' = readyList t"
  shows "mode_ok c m i t' \<longleftrightarrow> mode_ok c m i t"
  using assms unfolding mode_ok_def by auto

lemma lock_mode_simps [simp]:
  "lock_mode MLoop" "lock_mode MResume" "lock_mode MWait" "\<not> lock_mode MRun" "\<not> lock_mode MSched"
  by (simp_all add: lock_mode_def)

subsection \<open>The lock\<close>

lemma locks_ok_held:
  assumes "locks_ok s" and "lock_mode (mode s c)"
  shows "lock_held c s"
proof -
  have h: "holding d (ptlock s) \<longleftrightarrow> lock_mode (mode s d)" for d using assms(1) by (simp add: locks_ok_def)
  have "\<not> lock_mode (mode s d)" if "d \<noteq> c" for d
    using assms(2) that h [of c] h [of d] unfolding holding_def by (metis option.inject)
  then show ?thesis using assms h by (auto simp: locks_ok_def lock_held_def)
qed

lemma lock_pt_held:
  assumes "locks_ok s" and "\<not> lock_mode (mode s c)" and "lock_pt c pcs s = Inr s1"
  shows "lock_held c s1" and "same_sys s s1"
proof -
  obtain lk k where a: "acquire c pcs (ptlock s, cpuv s c) = Inr (Some (lk, k))"
    and s1: "s1 = s\<lparr>ptlock := lk, cpuv := (cpuv s)(c := k)\<rparr>"
    using assms(3) by (auto simp: lock_pt_def split: option.splits)
  from a have lk: "lk_locked (ptlock s) = 0" "holding c lk" "k = pushcli (cpuv s c)"
    by (auto simp: acquire_def Let_def holding_def split: if_splits)
  have un: "\<not> lock_mode (mode s d)" for d
    using assms(1) lk(1) unfolding locks_ok_def holding_def by blast
  have "cpu_ncli (cpuv s d) = 0" for d using assms(1) un [of d] by (simp add: locks_ok_def)
  then show "lock_held c s1" using un lk by (simp add: lock_held_def s1)
  show "same_sys s s1" by (simp add: s1 same_sys_def)
qed

lemma unlock_pt_held:
  assumes "lock_held c s" and "\<not> lock_mode m"
  shows "\<exists>s1. unlock_pt c s = Inr s1 \<and> same_sys s s1 \<and> locks_ok (set_mode c m s1)"
proof -
  let ?k = "(cpuv s c)\<lparr>cpu_ncli := 0, cpu_if := cpu_intena (cpuv s c)\<rparr>"
  let ?lk = "(ptlock s)\<lparr>lk_pcs := (lk_pcs (ptlock s))[0 := 0], lk_cpu := None, lk_locked := 0\<rparr>"
  have "popcli (cpuv s c) = Inr ?k"
    using assms(1) popcli_ok [of "cpuv s c"] by (simp add: lock_held_def)
  then have "unlock_pt c s = Inr (s\<lparr>ptlock := ?lk, cpuv := (cpuv s)(c := ?k)\<rparr>)"
    using assms(1) by (simp add: unlock_pt_def release_def lock_held_def Let_def)
  moreover have "locks_ok (set_mode c m (s\<lparr>ptlock := ?lk, cpuv := (cpuv s)(c := ?k)\<rparr>))"
    using assms by (auto simp: locks_ok_def lock_held_def set_mode_def holding_def)
  ultimately show ?thesis by (simp add: same_sys_def)
qed

lemma held_locks_ok: "lock_held c s \<Longrightarrow> lock_mode m \<Longrightarrow> locks_ok (set_mode c m s)"
  by (auto simp: locks_ok_def lock_held_def set_mode_def holding_def)

lemma lock_held_cong:
  assumes "ptlock s' = ptlock s" and "cpuv s' = cpuv s" and "mode s' = mode s"
  shows "lock_held c s' \<longleftrightarrow> lock_held c s"
  using assms by (simp add: lock_held_def)

lemma locks_ok_cong:
  assumes "ptlock s' = ptlock s" and "cpuv s' = cpuv s" and "mode s' = mode s"
  shows "locks_ok s' \<longleftrightarrow> locks_ok s"
  using assms by (simp add: locks_ok_def)

lemma set_mode_simps [simp]:
  "pt (set_mode c m s) = pt s" "loopi (set_mode c m s) = loopi s" "kont (set_mode c m s) = kont s"
  "making (set_mode c m s) = making s" "mode (set_mode c m s) = (mode s)(c := m)"
  "ptlock (set_mode c m s) = ptlock s" "cpuv (set_mode c m s) = cpuv s"
  by (simp_all add: set_mode_def)

text \<open>While one CPU is inside, the other CPUs' modes do not depend on the ready lists.\<close>

lemma held_modes_ok:
  assumes "lock_held c s" and "modes_ok s0" and "mode s' = (mode s)(c := m)" and "mode s = mode s0"
    and "\<And>d. d \<noteq> c \<Longrightarrow> loopi s' d = loopi s0 d" and "\<And>d. d \<noteq> c \<Longrightarrow> curproc d (pt s') = curproc d (pt s0)"
    and "mode_ok c m (loopi s' c) (pt s')"
  shows "modes_ok s'"
  unfolding modes_ok_iff
proof
  fix d
  show "mode_ok d (mode s' d) (loopi s' d) (pt s')"
  proof (cases "d = c")
    case True
    then show ?thesis using assms(3,7) by simp
  next
    case False
    then have "mode s0 d \<noteq> MLoop" using assms(1,4) by (auto simp: lock_held_def)
    then show ?thesis
      using False assms(2,3,4,5,6) mode_ok_cong [of d "pt s'" "pt s0" "mode s0 d" "loopi s0 d"]
      by (simp add: modes_ok_iff)
  qed
qed

lemma sched_invD:
  assumes "sched_inv s"
  shows "core_ok (kont s) (making s) (pt s)" and "locks_ok s" and "modes_ok s"
    and "mode_ok c (mode s c) (loopi s c) (pt s)"
  using assms by (simp_all add: sched_inv_def modes_ok_iff)

lemma curproc_run:
  assumes "sched_inv s" and "mode s c \<in> {MRun, MResume, MWait}"
  obtains p where "curproc c (pt s) = Some p"
  using sched_invD(4) [OF assms(1), of c] assms(2) by (auto simp: mode_ok_def)

lemma running_proc:
  assumes "core_ok kt mk t" and "curproc c t = Some p"
  shows "p < NPROC" and "p_state (procs t p) = RUNNING" and "p_pgdir (procs t p) \<noteq> 0"
proof -
  obtain F R where t: "table_ok F R t" "cpus_ok t" using assms(1) by (rule core_okE)
  show "p < NPROC" "p_state (procs t p) = RUNNING" using cpus_okD(1) [OF t(2) assms(2)] by auto
  then show "p_pgdir (procs t p) \<noteq> 0"
    using t(1) by (simp add: table_ok_def alive_def states_okD(4) [of F R t p])
qed

lemma curproc_cpus: "cpus t' = cpus t \<Longrightarrow> curproc c t' = curproc c t"
  by (simp add: curproc_def)

subsection \<open>Operations that take and release the lock\<close>

lemma locked_inv:
  assumes inv: "sched_inv s" and m: "\<not> lock_mode (mode s c)" and res: "locked c pcs f s = Inr (r, s')"
    and f: "\<And>t'. f (pt s) = Inr (r, t') \<Longrightarrow> core_ok kt mk t' \<and> cpus t' = cpus (pt s)"
  shows "sched_inv (s'\<lparr>kont := kt, making := mk\<rparr>)" and "kont s' = kont s" and "making s' = making s"
proof -
  obtain s1 t' s2 where s1: "lock_pt c pcs s = Inr s1" and t': "f (pt s1) = Inr (r, t')"
    and s2: "unlock_pt c (s1\<lparr>pt := t'\<rparr>) = Inr s'"
    using res by (auto simp: locked_def)
  have held1: "lock_held c s1" and same: "same_sys s s1"
    using lock_pt_held [OF sched_invD(2) [OF inv] m s1] by auto
  note same = same [unfolded same_sys_def]
  have held: "lock_held c (s1\<lparr>pt := t'\<rparr>)" using held1 by (simp add: lock_held_def)
  have s': "same_sys (s1\<lparr>pt := t'\<rparr>) s'" and lo: "locks_ok (set_mode c (mode s c) s')"
    using unlock_pt_held [OF held m] s2 by auto
  have fields: "pt s' = t'" "mode s' = mode s" "loopi s' = loopi s" "kont s' = kont s" "making s' = making s"
    using s' same by (simp_all add: same_sys_def)
  show "kont s' = kont s" "making s' = making s" by (rule fields)+
  have core: "core_ok kt mk t'" "cpus t' = cpus (pt s)" using f t' same by auto
  have cur: "curproc d t' = curproc d (pt s)" for d by (rule curproc_cpus [OF core(2)])
  have "locks_ok (s'\<lparr>kont := kt, making := mk\<rparr>)"
    using lo fields(2) by (subst locks_ok_cong [of _ "set_mode c (mode s c) s'"]) simp_all
  moreover have "modes_ok (s'\<lparr>kont := kt, making := mk\<rparr>)"
  proof (rule held_modes_ok [OF held1 sched_invD(3) [OF inv], of _ "mode s c"])
    have "mode s c \<noteq> MLoop" using m by auto
    then show "mode_ok c (mode s c) (loopi (s'\<lparr>kont := kt, making := mk\<rparr>) c) (pt (s'\<lparr>kont := kt, making := mk\<rparr>))"
      using sched_invD(4) [OF inv, of c] mode_ok_cong [of c t' "pt s" "mode s c"] cur fields by simp
  qed (simp_all add: fields same cur)
  ultimately show "sched_inv (s'\<lparr>kont := kt, making := mk\<rparr>)"
    using core(1) fields(1) by (simp add: sched_inv_def)
qed

lemma locked_inv_same:
  assumes "sched_inv s" and "\<not> lock_mode (mode s c)" and "locked c pcs f s = Inr (r, s')"
    and "\<And>t'. f (pt s) = Inr (r, t') \<Longrightarrow> core_ok (kont s) (making s) t' \<and> cpus t' = cpus (pt s)"
  shows "sched_inv s'"
proof -
  note l = locked_inv [OF assms]
  have "s'\<lparr>kont := kont s, making := making s\<rparr> = s'" using l(2,3) [symmetric] by simp
  then show ?thesis using l(1) by simp
qed

lemma locked_inv_making:
  assumes "sched_inv s" and "\<not> lock_mode (mode s c)" and "locked c pcs f s = Inr (r, s')"
    and "\<And>t'. f (pt s) = Inr (r, t') \<Longrightarrow> core_ok (kont s) ((making s)(p := m)) t' \<and> cpus t' = cpus (pt s)"
  shows "sched_inv (s'\<lparr>making := (making s')(p := m)\<rparr>)"
proof -
  note l = locked_inv [OF assms]
  have "s'\<lparr>kont := kont s\<rparr> = s'" using l(2) [symmetric] by simp
  then show ?thesis using l(1,3) by simp
qed

lemma wakeup_locked:
  "wakeup c pcs chan s = bindR (locked c pcs (\<lambda>t. bindR (wakeup1 chan t) (\<lambda>t. Inr ((), t))) s) (\<lambda>(u, s). Inr s)"
proof (cases "lock_pt c pcs s")
  case (Inr s1)
  show ?thesis
  proof (cases "wakeup1 chan (pt s1)")
    case (Inr t)
    then show ?thesis using \<open>lock_pt c pcs s = Inr s1\<close>
      by (cases "unlock_pt c (s1\<lparr>pt := t\<rparr>)") (simp_all add: wakeup_def locked_def on_pt_def)
  qed (simp add: wakeup_def locked_def on_pt_def Inr)
qed (simp add: wakeup_def locked_def)

subsection \<open>Operations that switch to the scheduler\<close>

lemma run_loopi:
  assumes "sched_inv s" and "mode s c \<in> {MRun, MResume, MWait}"
  shows "loopi s c = -1 \<or> loopi s c = 2"
  using sched_invD(4) [OF assms(1), of c] assms(2) by (auto simp: mode_ok_def)

lemma scheduler_back_pt:
  "pt (scheduler_back c s) = set_cpu c (\<lambda>r. r\<lparr>c_cr3 := v2p (kpgdir (pt s)), c_proc := None\<rparr>) (pt s)"
  by (simp add: scheduler_back_def switchkvm_def set_cpu_def)

lemma scheduler_back_inv:
  assumes inv: "sched_inv s0" and held: "lock_held c s" and "mode s = mode s0" and "loopi s = loopi s0"
    and i: "loopi s0 c = -1 \<or> loopi s0 c = 2"
    and cur: "\<And>d. d \<noteq> c \<Longrightarrow> curproc d (pt s) = curproc d (pt s0)"
    and core: "\<And>g. (\<And>r. c_proc (g r) = None) \<Longrightarrow> core_ok (kont s) (making s) (set_cpu c g (pt s))"
  shows "sched_inv (scheduler_back c s)"
proof -
  have fields: "mode (scheduler_back c s) = (mode s)(c := MLoop)" "kont (scheduler_back c s) = kont s"
    "making (scheduler_back c s) = making s" "loopi (scheduler_back c s) = (loopi s)(c := loopi s c + 1)"
    "ptlock (scheduler_back c s) = ptlock s" "cpuv (scheduler_back c s) = cpuv s"
    by (simp_all add: scheduler_back_def)
  have "core_ok (kont s) (making s) (pt (scheduler_back c s))"
    unfolding scheduler_back_pt by (rule core) simp
  moreover have "locks_ok (scheduler_back c s)"
    using held_locks_ok [OF held, of MLoop] fields
    by (subst locks_ok_cong [of _ "set_mode c MLoop s"]) simp_all
  moreover have "modes_ok (scheduler_back c s)"
  proof (rule held_modes_ok [OF held sched_invD(3) [OF inv], of _ MLoop])
    have "loopi s c + 1 = 0 \<or> loopi s c + 1 = 3" using i assms(4) by auto
    then show "mode_ok c MLoop (loopi (scheduler_back c s) c) (pt (scheduler_back c s))"
      by (auto simp: mode_ok_def fields scheduler_back_pt SIZE_def)
  qed (simp_all add: fields assms scheduler_back_pt)
  ultimately show ?thesis by (simp add: sched_inv_def fields)
qed

lemma sched_back:
  assumes "lock_held c s" and "curproc c (pt s) = Some p" and "p_state (procs (pt s) p) \<noteq> RUNNING"
  shows "sched c k s = Inr (scheduler_back c (s\<lparr>kont := (kont s)(p := k (cpu_intena (cpuv s c)))\<rparr>))"
  using assms by (simp add: sched_def lock_held_def)

lemma sched_ok:
  assumes inv: "sched_inv s0" and m: "mode s0 c \<in> {MRun, MResume, MWait}"
    and held: "lock_held c s" and same: "mode s = mode s0" "loopi s = loopi s0"
    and cur: "cpus (pt s) = cpus (pt s0)" and p: "curproc c (pt s0) = Some p"
    and st: "p_state (procs (pt s) p) \<noteq> RUNNING"
    and core: "\<And>g ie. (\<And>r. c_proc (g r) = None) \<Longrightarrow>
      core_ok ((kont s)(p := k ie)) (making s) (set_cpu c g (pt s))"
  shows "\<exists>t. sched c k s = Inr t \<and> sched_inv t"
proof -
  have p': "curproc c (pt s) = Some p" using p curproc_cpus [OF cur] by simp
  let ?s = "s\<lparr>kont := (kont s)(p := k (cpu_intena (cpuv s c)))\<rparr>"
  have "sched_inv (scheduler_back c ?s)"
  proof (rule scheduler_back_inv [OF inv _ _ _ run_loopi [OF inv m]])
    show "lock_held c ?s" using held by (simp add: lock_held_def)
    show "core_ok (kont ?s) (making ?s) (set_cpu c g (pt ?s))" if "\<And>r. c_proc (g r) = None" for g
      using core [OF that] by simp
  qed (simp_all add: same curproc_cpus [OF cur])
  then show ?thesis using sched_back [OF held p' st] by simp
qed

lemma yield_ok:
  assumes inv: "sched_inv s" and m: "mode s c = MRun" and s1: "lock_pt c pcs s = Inr s1"
  shows "\<exists>t. yield c pcs s = Inr t \<and> sched_inv t"
proof -
  have "\<not> lock_mode (mode s c)" by (simp add: m)
  note l = lock_pt_held [OF sched_invD(2) [OF inv] this s1]
  note same = l(2) [unfolded same_sys_def]
  obtain p where p: "curproc c (pt s) = Some p" using curproc_run [OF inv] m by auto
  note core = yield_core [OF sched_invD(1) [OF inv] p]
  obtain t1 where t1: "make_runnable p (pt s) = Inr t1" "strip t1 = set_state p RUNNABLE (strip (pt s))"
    using core [of "\<lambda>r. r\<lparr>c_proc := None\<rparr>" KForkret] by auto
  have "\<exists>t. sched c KYield (s1\<lparr>pt := t1\<rparr>) = Inr t \<and> sched_inv t"
  proof (rule sched_ok [OF inv, where p = p])
    show "lock_held c (s1\<lparr>pt := t1\<rparr>)" using l(1) by (simp add: lock_held_def)
    show "cpus (pt (s1\<lparr>pt := t1\<rparr>)) = cpus (pt s)"
      using arg_cong [OF t1(2), of cpus] by (simp add: set_state_def)
    show "p_state (procs (pt (s1\<lparr>pt := t1\<rparr>)) p) \<noteq> RUNNING"
      using arg_cong [OF t1(2), of "\<lambda>t. p_state (procs t p)"] by simp
    show "core_ok ((kont (s1\<lparr>pt := t1\<rparr>))(p := KYield ie)) (making (s1\<lparr>pt := t1\<rparr>)) (set_cpu c g (pt (s1\<lparr>pt := t1\<rparr>)))"
      if "\<And>r. c_proc (g r) = None" for g ie
      using core [of g "KYield ie"] that same t1(1) by simp
  qed (use m p same in auto)
  then show ?thesis
    using s1 t1(1) p same by (simp add: yield_def on_pt_def with_proc_def)
qed

lemma sleep_on_ok:
  assumes inv: "sched_inv s" and m: "mode s c \<in> {MRun, MResume, MWait}" and held: "lock_held c s1"
    and same: "same_sys s s1" and p: "curproc c (pt s) = Some p"
  shows "\<exists>t. sleep_on c p chan own s1 = Inr t \<and> sched_inv t"
proof -
  let ?f = "\<lambda>r. r\<lparr>p_chan := chan, p_state := SLEEPING\<rparr>"
  note same = same [unfolded same_sys_def]
  have "\<exists>t. sched c (\<lambda>ie. KSleep ie own) (s1\<lparr>pt := updp p ?f (pt s1)\<rparr>) = Inr t \<and> sched_inv t"
  proof (rule sched_ok [OF inv m])
    show "lock_held c (s1\<lparr>pt := updp p ?f (pt s1)\<rparr>)" using held by (simp add: lock_held_def)
    show "core_ok ((kont (s1\<lparr>pt := updp p ?f (pt s1)\<rparr>))(p := KSleep ie own)) (making (s1\<lparr>pt := updp p ?f (pt s1)\<rparr>))
        (set_cpu c g (pt (s1\<lparr>pt := updp p ?f (pt s1)\<rparr>)))"
      if "\<And>r. c_proc (g r) = None" for g ie
      using park_core [OF sched_invD(1) [OF inv] p, of g ?f SLEEPING "KSleep ie own"] that same by simp
  qed (use p same in auto)
  then show ?thesis by (simp add: sleep_on_def)
qed

lemma sleep_ok:
  assumes inv: "sched_inv s" and m: "mode s c = MRun" and lk: "acquire c pcs' (lk, cpuv s c) = Inr (Some (lk', k))"
    and s1: "lock_pt c pcs (s\<lparr>cpuv := (cpuv s)(c := k)\<rparr>) = Inr s1"
  shows "\<exists>r t. sleep c pcs chan (LkOther lk') (s\<lparr>cpuv := (cpuv s)(c := k)\<rparr>) = Inr (r, t) \<and> sched_inv t"
proof -
  obtain p where p: "curproc c (pt s) = Some p" using curproc_run [OF inv] m by auto
  have k: "k = pushcli (cpuv s c)" "holding c lk'" "cpu_ncli (cpuv s c) = 0"
    using lk sched_invD(2) [OF inv] m by (auto simp: acquire_def Let_def holding_def locks_ok_def split: if_splits)
  define l1 where "l1 = (ptlock s)\<lparr>lk_locked := 1, lk_cpu := Some c, lk_pcs := pcs\<rparr>"
  have free: "lk_locked (ptlock s) = 0" and l1: "holding c l1"
    and s1': "s1 = s\<lparr>ptlock := l1, cpuv := (cpuv s)(c := pushcli k)\<rparr>"
    using s1 by (auto simp: l1_def lock_pt_def acquire_def Let_def holding_def split: if_splits)
  let ?k = "(pushcli k)\<lparr>cpu_ncli := 1, cpu_if := False\<rparr>"
  have rel: "\<exists>l. release c (lk', cpuv s1 c) = Inr (l, ?k)"
    using k popcli_ok [of "pushcli k"] by (simp add: release_def s1' Let_def)
  have un: "\<not> lock_mode (mode s d)" for d
    using sched_invD(2) [OF inv] free unfolding locks_ok_def holding_def by blast
  then have "cpu_ncli (cpuv s d) = 0" for d
    using sched_invD(2) [OF inv] by (auto simp: locks_ok_def)
  then have held: "lock_held c (s1\<lparr>cpuv := (cpuv s1)(c := ?k)\<rparr>)"
    using l1 un by (simp add: lock_held_def s1')
  have same: "same_sys s (s1\<lparr>cpuv := (cpuv s1)(c := ?k)\<rparr>)" by (simp add: same_sys_def s1')
  obtain t where "sleep_on c p chan False (s1\<lparr>cpuv := (cpuv s1)(c := ?k)\<rparr>) = Inr t" "sched_inv t"
    using sleep_on_ok [OF inv _ held same p] m by auto
  with rel show ?thesis using p s1 by (auto simp: sleep_def)
qed

lemma exit_ok:
  assumes inv: "sched_inv s" and m: "mode s c = MRun" and s1: "lock_pt c pcs s = Inr s1"
  shows "\<exists>t. exit_sched c pcs s = Inr t \<and> sched_inv t"
proof -
  have "\<not> lock_mode (mode s c)" by (simp add: m)
  note l = lock_pt_held [OF sched_invD(2) [OF inv] this s1]
  note same = l(2) [unfolded same_sys_def]
  obtain p where p: "curproc c (pt s) = Some p" using curproc_run [OF inv] m by auto
  note core = exit_table_core [OF sched_invD(1) [OF inv] p]
  obtain t1 where t1: "exit_table p (pt s) = Inr t1" "cpus t1 = cpus (pt s)" "p_state (procs t1 p) = ZOMBIE"
    using core [of "\<lambda>r. r\<lparr>c_proc := None\<rparr>"] by auto
  have "\<exists>t. sched c (\<lambda>_. KExit) (s1\<lparr>pt := t1\<rparr>) = Inr t \<and> sched_inv t"
  proof (rule sched_ok [OF inv, where p = p])
    show "lock_held c (s1\<lparr>pt := t1\<rparr>)" using l(1) by (simp add: lock_held_def)
    show "core_ok ((kont (s1\<lparr>pt := t1\<rparr>))(p := KExit)) (making (s1\<lparr>pt := t1\<rparr>)) (set_cpu c g (pt (s1\<lparr>pt := t1\<rparr>)))"
      if "\<And>r. c_proc (g r) = None" for g and ie :: bool
      using core [of g] that same t1(1) by simp
  qed (use m p same t1 in auto)
  then show ?thesis
    using s1 t1(1) p same by (simp add: exit_sched_def on_pt_def with_proc_def)
qed

subsection \<open>Waiting\<close>

lemma set_mode_inv:
  assumes inv: "sched_inv s0" and held: "lock_held c s" and "mode s = mode s0" and "lock_mode m"
    and "\<And>d. d \<noteq> c \<Longrightarrow> loopi s d = loopi s0 d" and "\<And>d. d \<noteq> c \<Longrightarrow> curproc d (pt s) = curproc d (pt s0)"
    and "mode_ok c m (loopi s c) (pt s)" and "core_ok (kont s) (making s) (pt s)"
  shows "sched_inv (set_mode c m s)"
  using held_locks_ok [OF held assms(4)] assms(8)
    held_modes_ok [OF held sched_invD(3) [OF inv], of "set_mode c m s" m] assms(3,5,6,7)
  by (simp add: sched_inv_def)

lemma release_inv:
  assumes inv: "sched_inv s0" and held: "lock_held c s" and "mode s = mode s0" and "\<not> lock_mode m"
    and "\<And>d. d \<noteq> c \<Longrightarrow> loopi s d = loopi s0 d" and "\<And>d. d \<noteq> c \<Longrightarrow> curproc d (pt s) = curproc d (pt s0)"
    and "mode_ok c m (loopi s c) (pt s)" and "core_ok (kont s) (making s) (pt s)"
  shows "\<exists>s'. unlock_pt c s = Inr s' \<and> sched_inv (set_mode c m s')"
proof -
  obtain s' where s': "unlock_pt c s = Inr s'" "same_sys s s'" "locks_ok (set_mode c m s')"
    using unlock_pt_held [OF held assms(4)] by blast
  then have "modes_ok (set_mode c m s')"
    using held_modes_ok [OF held sched_invD(3) [OF inv], of "set_mode c m s'" m] assms(3,5,6,7)
    by (simp add: same_sys_def)
  then show ?thesis using s' assms(8) by (auto simp: sched_inv_def same_sys_def)
qed

lemma wait_enter_ok:
  assumes inv: "sched_inv s" and m: "mode s c = MRun" and s1: "lock_pt c pcs s = Inr s1"
  shows "\<exists>t. wait_enter c pcs s = Inr t \<and> sched_inv t"
proof -
  have "\<not> lock_mode (mode s c)" by (simp add: m)
  note l = lock_pt_held [OF sched_invD(2) [OF inv] this s1]
  have "mode_ok c MWait (loopi s c) (pt s)" using sched_invD(4) [OF inv, of c] m by (simp add: mode_ok_def)
  then have "sched_inv (set_mode c MWait s1)"
    using set_mode_inv [OF inv l(1), of MWait] l(2) sched_invD(1) [OF inv] by (simp add: same_sys_def)
  then show ?thesis using s1 by (simp add: wait_enter_def)
qed

lemma wait_iter_ok:
  assumes inv: "sched_inv s" and m: "mode s c = MWait"
  shows "\<exists>r t. wait_iter c s = Inr (r, t) \<and> sched_inv t"
proof -
  obtain me where me: "curproc c (pt s) = Some me" using curproc_run [OF inv] m by auto
  have held: "lock_held c s" using locks_ok_held [OF sched_invD(2) [OF inv]] m by simp
  have run: "mode_ok c MRun (loopi s c) (pt s)" using sched_invD(4) [OF inv, of c] m by (simp add: mode_ok_def)
  note core = sched_invD(1) [OF inv]
  obtain z hk where w: "wait_scan me [0..<NPROC] False (pt s) = (z, hk)" by fastforce
  show ?thesis
  proof (cases z)
    case (Some p)
    obtain pid t' where r: "wait_reap p (pt s) = (pid, t')" by fastforce
    have p: "p < NPROC" "p_state (procs (pt s) p) = ZOMBIE"
      using wait_scan_zombie w Some by fastforce+
    note t' = wait_reap_core [OF core p r]
    have "\<exists>s'. unlock_pt c (s\<lparr>pt := t'\<rparr>) = Inr s' \<and> sched_inv (set_mode c MRun s')"
    proof (rule release_inv [OF inv])
      show "lock_held c (s\<lparr>pt := t'\<rparr>)" using held by (simp add: lock_held_def)
      show "mode_ok c MRun (loopi (s\<lparr>pt := t'\<rparr>) c) (pt (s\<lparr>pt := t'\<rparr>))"
        using run t' by (simp add: mode_ok_def curproc_def)
    qed (use t' in \<open>simp_all add: curproc_def\<close>)
    then show ?thesis using w Some r me by (auto simp: wait_iter_def with_proc_def)
  next
    case None
    show ?thesis
    proof (cases "\<not> hk \<or> p_killed (procs (pt s) me)")
      case True
      have "\<exists>s'. unlock_pt c s = Inr s' \<and> sched_inv (set_mode c MRun s')"
        by (rule release_inv [OF inv held]) (use run core in simp_all)
      then show ?thesis using w None True me by (auto simp: wait_iter_def with_proc_def)
    next
      case False
      obtain t where "sleep_on c me (ChProc me) True s = Inr t" "sched_inv t"
        using sleep_on_ok [OF inv _ held _ me] m by (auto simp: same_sys_def)
      then show ?thesis using w None False me by (auto simp: wait_iter_def with_proc_def sleep_def)
    qed
  qed
qed

subsection \<open>The scheduler's own loop\<close>

lemma scheduler_start_ok:
  assumes inv: "sched_inv s" and m: "mode s c = MSched"
    and s1: "lock_pt c pcs (s\<lparr>cpuv := (cpuv s)(c := (cpuv s c)\<lparr>cpu_if := True\<rparr>)\<rparr>) = Inr s1"
  shows "\<exists>t. scheduler_start c pcs s = Inr t \<and> sched_inv t"
proof -
  let ?s = "s\<lparr>cpuv := (cpuv s)(c := (cpuv s c)\<lparr>cpu_if := True\<rparr>)\<rparr>"
  have lo: "locks_ok ?s" using sched_invD(2) [OF inv] m by (auto simp: locks_ok_def)
  have "\<not> lock_mode (mode ?s c)" by (simp add: m)
  note l = lock_pt_held [OF lo this s1]
  let ?s1 = "s1\<lparr>loopi := (loopi s1)(c := 0)\<rparr>"
  have "sched_inv (set_mode c MLoop ?s1)"
  proof (rule set_mode_inv [OF inv])
    show "lock_held c ?s1" using l(1) by (simp add: lock_held_def)
    show "mode_ok c MLoop (loopi ?s1 c) (pt ?s1)"
      using sched_invD(4) [OF inv, of c] m l(2) by (simp add: mode_ok_def same_sys_def)
  qed (use l(2) sched_invD(1) [OF inv] in \<open>simp_all add: same_sys_def\<close>)
  then show ?thesis using s1 by (simp add: scheduler_start_def)
qed

lemma scheduler_loop_ok:
  assumes inv: "sched_inv s" and m: "mode s c = MLoop"
  shows "\<exists>t. scheduler_loop c s = Inr t \<and> sched_inv t"
proof -
  note core = sched_invD(1) [OF inv]
  have held: "lock_held c s" using locks_ok_held [OF sched_invD(2) [OF inv]] m by simp
  have mo: "mode_ok c MLoop (loopi s c) (pt s)" using sched_invD(4) [OF inv, of c] m by simp
  then have cur: "curproc c (pt s) = None" and i0: "0 \<le> loopi s c"
    and empty: "loopi s c < int SIZE \<Longrightarrow> int j < loopi s c \<Longrightarrow> readyList (pt s) j = None" for j
    by (auto simp: mode_ok_def)
  show ?thesis
  proof (cases "loopi s c < int SIZE")
    case False
    have "\<exists>s'. unlock_pt c s = Inr s' \<and> sched_inv (set_mode c MSched s')"
      by (rule release_inv [OF inv held]) (use core cur in \<open>simp_all add: mode_ok_def\<close>)
    then show ?thesis using False by (auto simp: scheduler_loop_def)
  next
    case True
    define j where "j = nat (loopi s c)"
    have j: "loopi s c = int j" "j < SIZE" using True i0 by (auto simp: j_def)
    have ri: "ready_index (loopi s c) = Inr j" using j by simp
    show ?thesis
    proof (cases "readyList (pt s) j")
      case None
      let ?s = "s\<lparr>loopi := (loopi s)(c := loopi s c + 1)\<rparr>"
      have "sched_inv (set_mode c MLoop ?s)"
      proof (rule set_mode_inv [OF inv])
        show "lock_held c ?s" using held by (simp add: lock_held_def)
        have "readyList (pt s) i = None" if "int i < loopi s c + 1" for i
          using empty [OF True, of i] None j that by (cases "i = j") auto
        then show "mode_ok c MLoop (loopi ?s c) (pt ?s)" using mo by (simp add: mode_ok_def)
      qed (use core in simp_all)
      moreover have "set_mode c MLoop ?s = ?s" using m by (simp add: set_mode_def fun_upd_idem)
      ultimately show ?thesis using None True j by (simp add: scheduler_loop_def)
    next
      case (Some p)
      obtain t' where t': "scheduler_pick c p (pt s) = Inr t'" "core_ok (kont s) (making s) t'"
        "curproc c t' = Some p" "\<And>d. d \<noteq> c \<Longrightarrow> curproc d t' = curproc d (pt s)"
        using scheduler_pick_core [OF core cur j(2) Some] by auto
      let ?s = "s\<lparr>pt := t', loopi := (loopi s)(c := if loopi s c \<noteq> 2 then -1 else loopi s c)\<rparr>"
      have "sched_inv (set_mode c MResume ?s)"
      proof (rule set_mode_inv [OF inv])
        show "lock_held c ?s" using held by (simp add: lock_held_def)
        show "mode_ok c MResume (loopi ?s c) (pt ?s)" using t'(3) by (simp add: mode_ok_def)
      qed (use t' in simp_all)
      then show ?thesis
        by (simp add: scheduler_loop_def on_pt_def True ri Some t'(1) Let_def)
    qed
  qed
qed

lemma resume_ok:
  assumes inv: "sched_inv s" and m: "mode s c = MResume"
  shows "\<exists>t. resume c s = Inr t \<and> sched_inv t"
proof -
  note core = sched_invD(1) [OF inv]
  obtain p where p: "curproc c (pt s) = Some p" using curproc_run [OF inv] m by auto
  have held: "lock_held c s" using locks_ok_held [OF sched_invD(2) [OF inv]] m by simp
  have mo: "mode_ok c MRun (loopi s c) (pt s)" "mode_ok c MWait (loopi s c) (pt s)"
    using sched_invD(4) [OF inv, of c] m by (simp_all add: mode_ok_def)
  note run = running_proc [OF core p]
  have k: "kont s p \<noteq> KExit" using core run by (auto simp: core_ok_def konts_ok_def)
  let ?ret = "\<lambda>ie. s\<lparr>cpuv := (cpuv s)(c := (cpuv s c)\<lparr>cpu_intena := ie\<rparr>)\<rparr>"
  let ?f = "\<lambda>r. r\<lparr>p_chan := ChNull\<rparr>"
  let ?clear = "\<lambda>ie. (?ret ie)\<lparr>pt := updp p ?f (pt s)\<rparr>"
  have core': "core_ok (kont s) (making s) (updp p ?f (pt s))"
    by (rule private_core [OF core]) (use run in \<open>simp_all add: private_update_def\<close>)
  have goback: "\<exists>s'. unlock_pt c (?ret ie) = Inr s' \<and> sched_inv (set_mode c MRun s')" for ie
    by (rule release_inv [OF inv]) (use held mo core in \<open>simp_all add: lock_held_def\<close>)
  have plain: "\<exists>s'. unlock_pt c s = Inr s' \<and> sched_inv (set_mode c MRun s')"
    by (rule release_inv [OF inv held]) (use mo core in simp_all)
  have cur: "curproc d (updp p ?f (pt s)) = curproc d (pt s)" for d by (simp add: curproc_def)
  have mo': "mode_ok c MRun (loopi s c) (updp p ?f (pt s))" "mode_ok c MWait (loopi s c) (updp p ?f (pt s))"
    using mo by (simp_all add: mode_ok_def cur)
  have clear: "\<exists>s'. unlock_pt c (?clear ie) = Inr s' \<and> sched_inv (set_mode c MRun s')" for ie
    by (rule release_inv [OF inv]) (use held mo' core' cur in \<open>simp_all add: lock_held_def\<close>)
  have clear': "sched_inv (set_mode c MWait (?clear ie))" for ie
    by (rule set_mode_inv [OF inv]) (use held mo' core' cur in \<open>simp_all add: lock_held_def\<close>)
  show ?thesis
  proof (cases "kont s p")
    case KForkret
    then show ?thesis using plain p by (auto simp: resume_def with_proc_def)
  next
    case (KYield ie)
    then show ?thesis using goback [of ie] p by (auto simp: resume_def with_proc_def)
  next
    case (KSleep ie own)
    then show ?thesis using clear [of ie] clear' [of ie] p
      by (cases own) (auto simp: resume_def with_proc_def)
  next
    case KExit
    then show ?thesis using k by simp
  qed
qed

subsection \<open>Steps outside the lock\<close>

lemma private_inv:
  assumes inv: "sched_inv s" and core: "core_ok (kont s) mk t" and "cpus t = cpus (pt s)"
    and "readyList t = readyList (pt s)"
  shows "sched_inv (s\<lparr>pt := t, making := mk\<rparr>)"
proof -
  have "locks_ok (s\<lparr>pt := t, making := mk\<rparr>)"
    using sched_invD(2) [OF inv] by (simp add: locks_ok_def)
  moreover have "modes_ok (s\<lparr>pt := t, making := mk\<rparr>)"
    using sched_invD(3) [OF inv] mode_ok_cong [of _ t "pt s"] assms(3,4)
    by (simp add: modes_ok_iff curproc_def)
  ultimately show ?thesis using core by (simp add: sched_inv_def)
qed

lemma abort_core:
  assumes "core_ok kt mk t" and "mk p = Making n"
  shows "core_ok kt (mk(p := Aborting n)) (set_state n UNUSED t)"
proof -
  obtain F R where t: "table_ok F R t" "making_ok F mk t" "cpus_ok t" "konts_ok kt t"
    using assms(1) by (rule core_okE)
  have n: "n < NPROC" "p_state (procs t n) = EMBRYO" using making_okD(1) [OF t(2) assms(2)] by auto
  have nF: "n \<notin> set F" using states_okD(2) [of F R t n] t(1) n(2) by (auto simp: table_ok_def)
  have "states_ok F R (set_state n UNUSED t)"
    unfolding set_state_def by (rule states_ok_slot [of F R t n UNUSED])
      (use t(1) n nF in \<open>auto simp: table_ok_def alive_def\<close>)
  then have "table_ok F R (set_state n UNUSED t)" using t(1) by (simp add: table_ok_def)
  moreover have "making_ok F (mk(p := Aborting n)) (set_state n UNUSED t)"
  proof (rule making_okI)
    have other: "making_slot (mk q) \<noteq> Some n" if "q \<noteq> p" for q
      using making_unique [OF t(2), of p n q] assms(2) that by simp
    show "m < NPROC \<and> p_state (procs (set_state n UNUSED t) m) = EMBRYO"
      if "(mk(p := Aborting n)) q = Making m" for q m
      using that other [of q] making_okD(1) [OF t(2), of q m] by (auto split: if_splits)
    show "m < NPROC \<and> p_state (procs (set_state n UNUSED t) m) = UNUSED \<and> m \<notin> set F"
      if "(mk(p := Aborting n)) q = Aborting m" for q m
      using that n(1) nF making_okD(2) [OF t(2), of q m] by (auto split: if_splits)
    show "q = r" if "making_slot ((mk(p := Aborting n)) q) = Some m" "making_slot ((mk(p := Aborting n)) r) = Some m"
      for q r m
      using that other making_okD(3) [OF t(2), of q m r] by (auto split: if_splits)
  qed
  moreover have "cpus_ok (set_state n UNUSED t)"
    using t(3) n(2) by (subst cpus_ok_cong [of _ t]) (auto simp: set_state_def)
  moreover have "konts_ok kt (set_state n UNUSED t)" using t(4) by (simp add: konts_ok_def)
  ultimately show ?thesis unfolding core_ok_def by blast
qed

lemma drop_core: "core_ok kt mk t \<Longrightarrow> core_ok kt (mk(p := NoChild)) t"
  unfolding core_ok_def using making_ok_drop by blast

subsection \<open>Every step keeps the invariant\<close>

lemma same_shape_cpus: "same_shape t t' \<Longrightarrow> cpus t' = cpus t"
  by (simp add: same_shape_def)

lemma sched_step_inv: "sched_step s t \<Longrightarrow> sched_inv s \<Longrightarrow> sched_inv t"
proof (induction rule: sched_step.induct)
  case (start s c pcs t)
  then show ?case using scheduler_start_ok [OF start(3,1)] by (force simp: scheduler_start_def)
next
  case (loop s c t)
  then show ?case using scheduler_loop_ok [OF loop(3,1)] by simp
next
  case (resume s c t)
  then show ?case using resume_ok [OF resume(3,1)] by simp
next
  case (yield s c pcs t)
  then show ?case using yield_ok [OF yield(3,1)] by (force simp: yield_def)
next
  case (sleep s c pcs' lk lk' k pcs chan r t)
  obtain p where "curproc c (pt s) = Some p" using curproc_run [OF sleep(4)] sleep(1) by auto
  then obtain s1 where "lock_pt c pcs (s\<lparr>cpuv := (cpuv s)(c := k)\<rparr>) = Inr s1"
    using sleep(3) by (auto simp: sleep_def)
  then show ?case using sleep_ok [OF sleep(4,1,2), of pcs _ chan] sleep(3) by force
next
  case (wakeup s c pcs chan t)
  then obtain u where w: "locked c pcs (\<lambda>t. bindR (wakeup1 chan t) (\<lambda>t. Inr ((), t))) s = Inr (u, t)"
    by (auto simp: wakeup_locked)
  show ?case
  proof (rule locked_inv_same [OF wakeup(3) _ w])
    show "\<not> lock_mode (mode s c)" using wakeup(1) by auto
    show "core_ok (kont s) (making s) t' \<and> cpus t' = cpus (pt s)"
      if "bindR (wakeup1 chan (pt s)) (\<lambda>t. Inr ((), t)) = Inr (u, t')" for t'
      using that wakeup1_core [OF sched_invD(1) [OF wakeup(3)], of chan]
      by (metis (no_types, lifting) bindR_simps(2) prod.inject stripD(11) strip_proj(9) sum.inject(2) wake_on_simps(6))
  qed
next
  case (kill s c pcs pid r t)
  show ?case
  proof (rule locked_inv_same [OF kill(3) _ kill(2) [unfolded kill_def]])
    show "\<not> lock_mode (mode s c)" using kill(1) by auto
    show "core_ok (kont s) (making s) t' \<and> cpus t' = cpus (pt s)" if "kill_table pid (pt s) = Inr (r, t')" for t'
      using that kill_table_core [OF sched_invD(1) [OF kill(3)], of pid] by (auto dest: same_shape_cpus)
  qed
next
  case (setPriority s c priority pcs pid r t)
  show ?case
  proof (rule locked_inv_same [OF setPriority(5) _ setPriority(4) [unfolded setPriority_def]])
    show "core_ok (kont s) (making s) t' \<and> cpus t' = cpus (pt s)"
      if "setPriority_table pid priority (pt s) = Inr (r, t')" for t'
      using that setPriority_table_core [OF sched_invD(1) [OF setPriority(5)] setPriority(2)] setPriority(3)
      by (auto simp: SIZE_def dest: same_shape_cpus)
  qed (simp add: setPriority(1))
next
  case (wait_enter s c pcs t)
  then show ?case using wait_enter_ok [OF wait_enter(3,1)] by (force simp: wait_enter_def)
next
  case (wait_iter s c r t)
  then show ?case using wait_iter_ok [OF wait_iter(3,1)] by force
next
  case (exit s c p pcs t)
  then show ?case using exit_ok [OF exit(5,1)] by (force simp: exit_sched_def with_proc_def)
next
  case (alloc s c p pcs n t)
  note l = locked_inv [OF alloc(5) _ alloc(4), of "(kont s)(n := KForkret)" "(making s)(p := Making n)"]
  have "core_ok ((kont s)(n := KForkret)) ((making s)(p := Making n)) t' \<and> cpus t' = cpus (pt s)"
    if "Inr (alloc_slot (pt s)) = Inr (Some n, t')" for t'
    using alloc_slot_core [OF sched_invD(1) [OF alloc(5)] _ alloc(3)] that by simp
  with l show ?case using alloc(1) by simp
next
  case (fill s c p n f)
  have n: "p_state (procs (pt s) n) = EMBRYO"
    using sched_invD(1) [OF fill(6)] fill(3) by (auto simp: core_ok_def dest: making_okD(1))
  then have "core_ok (kont s) (making s) (updp n f (pt s))"
    using fill(4,5) by (intro private_core [OF sched_invD(1) [OF fill(6)]]) (auto simp: alive_def)
  then show ?case using private_inv [OF fill(6)] by force
next
  case (ready s c p n pcs u t)
  note l = locked_inv_making [OF ready(6) _ ready(5), of p NoChild]
  have "core_ok (kont s) ((making s)(p := NoChild)) t' \<and> cpus t' = cpus (pt s)"
    if "bindR (make_runnable n (pt s)) (\<lambda>t. Inr ((), t)) = Inr (u, t')" for t'
    using ready_core [OF sched_invD(1) [OF ready(6)] ready(3,4)] that by auto
  with l show ?case using ready(1) by simp
next
  case (abort s c p n)
  then show ?case using private_inv [OF abort(4) abort_core [OF sched_invD(1) [OF abort(4)] abort(3)]]
    by (simp add: set_state_def)
next
  case (give_back s c p n pcs u t)
  note l = locked_inv_making [OF give_back(5) _ give_back(4), of p NoChild]
  have "core_ok (kont s) ((making s)(p := NoChild)) t' \<and> cpus t' = cpus (pt s)"
    if "bindR (putOnFreeList n (pt s)) (\<lambda>t. Inr ((), t)) = Inr (u, t')" for t'
    using give_back_core [OF sched_invD(1) [OF give_back(5)] give_back(3)] that by auto
  with l show ?case using give_back(1) by simp
next
  case (leak s c p n)
  then show ?case using private_inv [OF leak(4) drop_core [OF sched_invD(1) [OF leak(4)]], of p] by simp
next
  case (own s c p f)
  have "core_ok (kont s) (making s) (updp p f (pt s))"
    using own(3,4,5) by (intro private_core [OF sched_invD(1) [OF own(6)]]) auto
  then show ?case using private_inv [OF own(6)] by force
qed

subsection \<open>Boot\<close>

lemma core_ok_initproc [simp]: "core_ok kt mk (t\<lparr>initproc := q\<rparr>) \<longleftrightarrow> core_ok kt mk t"
  by (simp add: core_ok_def table_ok_def states_ok_def making_ok_def cpus_ok_def konts_ok_def curproc_def)

lemma boot_core:
  "core_ok kt (\<lambda>_. NoChild) ((initFreeList (boot_table kpg))\<lparr>timeToReset := COUNT\<rparr>)" (is "core_ok kt ?mk ?t")
proof -
  let ?F = "rev [0..<NPROC]"
  have "lists_rep ?t ?F (\<lambda>_. [])"
    using initFreeList_rep(1) [of "boot_table kpg"] by (simp add: boot_table_def zero_proc_def)
  moreover have st: "strip (initFreeList (boot_table kpg)) = prio_map (\<lambda>p. p < NPROC) (strip (boot_table kpg))"
    by (rule initFreeList_rep(2)) (simp add: boot_table_def)
  have s: "p_state (procs ?t p) = UNUSED" "p < NPROC \<Longrightarrow> p_priority (procs ?t p) = DEFAULTPRIO"
    "cpus ?t = cpus (boot_table kpg)" for p
    using arg_cong [OF st, of "\<lambda>t. p_state (procs t p)"] arg_cong [OF st, of "\<lambda>t. p_priority (procs t p)"]
      arg_cong [OF st, of cpus] by (simp_all add: boot_table_def zero_proc_def)
  have "states_ok ?F (\<lambda>_. []) ?t"
    by (rule states_okI) (use s in \<open>simp_all add: alive_def DEFAULTPRIO_def SIZE_def COUNT_def\<close>)
  moreover have "making_ok ?F ?mk ?t" by (rule making_okI) simp_all
  moreover have cur: "curproc c ?t = None" for c unfolding curproc_def s(3) by (simp add: boot_table_def)
  then have "cpus_ok ?t" by (intro cpus_okI) (use s in auto)
  moreover have "konts_ok kt ?t" unfolding konts_ok_def s(1) by simp
  ultimately show ?thesis unfolding core_ok_def table_ok_def by blast
qed

lemma readyList_empty:
  assumes "core_ok kt mk t" and "\<And>p. p < NPROC \<Longrightarrow> p_state (procs t p) \<noteq> RUNNABLE" and "i < SIZE"
  shows "readyList t i = None"
proof -
  obtain F R where t: "table_ok F R t" using assms(1) by (rule core_okE)
  have "p \<notin> set (R i)" for p
    using states_okD(1) [of F R t i p] assms(2) [of p] assms(3) t by (auto simp: table_ok_def)
  then have "R i = []" by (cases "R i") auto
  then show ?thesis using lists_rep_hd [of t F R i] t assms(3) by (simp add: table_ok_def)
qed

lemma userinit_ok:
  assumes fill: "private_update fill" "\<And>r. p_pgdir (fill r) \<noteq> 0 \<and> p_priority (fill r) = p_priority r"
  shows "\<exists>t. userinit_table fill (boot_table kpg) = Inr t \<and> sched_inv (boot_sys t)"
proof -
  let ?kt = "\<lambda>_. KForkret" let ?mk = "\<lambda>_. NoChild"
  let ?t0 = "(initFreeList (boot_table kpg))\<lparr>timeToReset := COUNT\<rparr>"
  have st0: "strip (initFreeList (boot_table kpg)) = prio_map (\<lambda>p. p < NPROC) (strip (boot_table kpg))"
    by (rule initFreeList_rep(2)) (simp add: boot_table_def)
  have s0: "p_state (procs ?t0 p) = UNUSED" "curproc c ?t0 = None" for p c
    using arg_cong [OF st0, of "\<lambda>t. p_state (procs t p)"] arg_cong [OF st0, of cpus]
    by (simp_all add: curproc_def) (simp_all add: boot_table_def zero_proc_def)
  have "freeList ?t0 = hd_ptr (rev [0..<NPROC])"
    using initFreeList_rep(1) [of "boot_table kpg"] lists_rep_free_hd
    by (fastforce simp: boot_table_def zero_proc_def)
  then have "freeList ?t0 \<noteq> None" by (simp add: NPROC_def hd_ptr_def upt_rec)
  then obtain n t1 where t1: "alloc_slot ?t0 = (Some n, t1)" by (auto simp: alloc_slot_def Let_def)
  then have t1_eq: "t1 = (updp n (\<lambda>r. r\<lparr>p_state := EMBRYO, p_pid := nextpid ?t0\<rparr>) (takeFromFreeList n ?t0))
      \<lparr>nextpid := nextpid ?t0 + 1\<rparr>"
    by (auto simp: alloc_slot_def Let_def takeFromFreeList_def set_next_def split: option.splits)
  have s1: "p_state (procs t1 p) = (if p = n then EMBRYO else UNUSED)" for p
    using s0(1) [of p] by (simp add: t1_eq takeFromFreeList_def set_next_def)
  let ?mk1 = "?mk(0 := Making n)"
  have c1: "core_ok ?kt ?mk1 t1" "cpus t1 = cpus ?t0"
    using alloc_slot_core [OF boot_core [of ?kt kpg] t1, of 0] by (auto simp: fun_upd_idem)
  let ?t2 = "updp n fill (t1\<lparr>initproc := Some n\<rparr>)"
  have c2: "core_ok ?kt ?mk1 ?t2"
    by (rule private_core) (use c1(1) fill in \<open>auto simp: fun_upd_idem\<close>)
  have s2: "p_state (procs ?t2 p) = (if p = n then EMBRYO else UNUSED)" for p
    using s1 fill(1) by (simp add: private_update_def)
  have "readyList ?t2 i = None" if "i < SIZE" for i
    by (rule readyList_empty [OF c2 _ that]) (simp add: s2 del: updp_simps)
  then have r: "(readyList ?t2)(0 := None, 1 := None, 2 := None) = readyList ?t2"
    by (auto simp: SIZE_def fun_eq_iff simp del: updp_simps)
  obtain t where t: "make_runnable n ?t2 = Inr t" "core_ok ?kt (?mk1(0 := NoChild)) t" "cpus t = cpus ?t2"
    using ready_core [OF c2, of 0 n] fill(2) by auto
  let ?u = "set_state n RUNNABLE ?t2"
  have "?u\<lparr>readyList := (readyList ?u)(0 := None, 1 := None, 2 := None)\<rparr> = ?u"
    using r by simp
  then have "userinit_table fill (boot_table kpg) = Inr t"
    using t(1) t1 unfolding userinit_table_def make_runnable_def Let_def by simp
  moreover have "sched_inv (boot_sys t)"
  proof -
    have "curproc c t = None" for c
      using s0(2) [of c] t(3) c1(2) by (simp add: curproc_def)
    then have "modes_ok (boot_sys t)" by (simp add: modes_ok_def boot_sys_def)
    moreover have "locks_ok (boot_sys t)"
      by (simp add: locks_ok_def boot_sys_def holding_def pinit_def initlock_def)
    moreover have mk: "?mk1(0 := NoChild) = ?mk" by auto
    have "core_ok (kont (boot_sys t)) (making (boot_sys t)) (pt (boot_sys t))"
      using t(2) [unfolded mk] by (simp add: boot_sys_def)
    ultimately show ?thesis by (simp add: sched_inv_def)
  qed
  ultimately show ?thesis by blast
qed

lemma sched_reachable_inv: "sched_reachable s \<Longrightarrow> sched_inv s"
proof (induction rule: sched_reachable.induct)
  case (boot fill kpg t)
  then show ?case using userinit_ok [OF boot(1,2), of kpg] by auto
next
  case (step s t)
  then show ?case using sched_step_inv by blast
qed

subsection \<open>Facts shared by the properties and their witnesses\<close>

lemma boot_reachable: "\<exists>t. userinit_table init_fill (boot_table 0x803ff000) = Inr t \<and> sched_reachable (boot_sys t)"
proof -
  have f: "private_update init_fill" "\<And>r. p_pgdir (init_fill r) \<noteq> 0 \<and> p_priority (init_fill r) = p_priority r"
    by (simp_all add: init_fill_def private_update_def)
  then show ?thesis using userinit_ok [OF f] sched_reachable.boot [OF f] by blast
qed

lemma boot_sys_simps [simp]: "pt (boot_sys t) = t" "mode (boot_sys t) c = MSched" "cpuv (boot_sys t) c = \<lparr>cpu_ncli = 0, cpu_intena = False, cpu_if = False\<rparr>"
  by (simp_all add: boot_sys_def)

lemma boot_lock: "\<exists>s1. lock_pt c pcs ((boot_sys t)\<lparr>cpuv := k\<rparr>) = Inr s1"
  by (simp add: lock_pt_def acquire_def boot_sys_def pinit_def initlock_def holding_def Let_def)

lemma core_table:
  assumes "sched_reachable s"
  obtains F R where "table_ok F R (pt s)" and "lists_rep (pt s) F R" and "states_ok F R (pt s)"
    and "cpus_ok (pt s)" and "core_ok (kont s) (making s) (pt s)"
  using sched_invD(1) [OF sched_reachable_inv [OF assms]] core_okE table_ok_def by metis

text \<open>A run of the scheduler from boot: CPU 0 takes the lock and finds the first process.\<close>

lemma putOnReadyList_nonempty:
  "putOnReadyList p v t = Inr t' \<Longrightarrow> readyList t' (nat v) \<noteq> None"
  by (auto simp: putOnReadyList_def ready_index_def of_option_def split: option.splits if_splits)

lemma userinit_ready:
  assumes "userinit_table init_fill (boot_table kpg) = Inr t"
  shows "readyList t 1 \<noteq> None"
proof -
  let ?t0 = "(initFreeList (boot_table kpg))\<lparr>timeToReset := COUNT\<rparr>"
  have boot: "readyList (boot_table kpg) = (\<lambda>_. None)" by (simp add: boot_table_def)
  note init = initFreeList_rep [OF boot]
  have "lists_rep (initFreeList (boot_table kpg)) (rev [0..<NPROC]) (\<lambda>_. [])"
    using init(1) by (simp add: boot_table_def zero_proc_def)
  then have free: "freeList ?t0 = Some (NPROC - 1)"
    using lists_rep_free_hd by (fastforce simp: NPROC_def hd_ptr_def upt_rec)
  have "p_priority (procs ?t0 (NPROC - 1)) = DEFAULTPRIO"
    using arg_cong [OF init(2), of "\<lambda>t. p_priority (procs t (NPROC - 1))"] by (simp add: NPROC_def)
  then obtain t' where "putOnReadyList (NPROC - 1) DEFAULTPRIO t' = Inr t"
    using assms free
    by (auto simp: userinit_table_def Let_def alloc_slot_def takeFromFreeList_def set_next_def init_fill_def)
  then show ?thesis using putOnReadyList_nonempty by (fastforce simp: DEFAULTPRIO_def)
qed

lemma boot_run_ready: "\<exists>s. sched_reachable s \<and> mode s 0 = MLoop \<and> loopi s 0 = 0 \<and> readyList (pt s) 1 \<noteq> None"
proof -
  obtain t where t: "userinit_table init_fill (boot_table 0x803ff000) = Inr t" and r: "sched_reachable (boot_sys t)"
    using boot_reachable by blast
  let ?s = "(boot_sys t)\<lparr>cpuv := (cpuv (boot_sys t))(0 := (cpuv (boot_sys t) 0)\<lparr>cpu_if := True\<rparr>)\<rparr>"
  obtain s1 where s1: "lock_pt 0 [] ?s = Inr s1" using boot_lock by blast
  then have "scheduler_start 0 [] (boot_sys t) = Inr (set_mode 0 MLoop (s1\<lparr>loopi := (loopi s1)(0 := 0)\<rparr>))"
    by (simp add: scheduler_start_def)
  then have "sched_step (boot_sys t) (set_mode 0 MLoop (s1\<lparr>loopi := (loopi s1)(0 := 0)\<rparr>))"
    by (intro sched_step.start) simp_all
  moreover have "pt s1 = t" using s1 by (auto simp: lock_pt_def split: option.splits)
  ultimately show ?thesis using sched_reachable.step [OF r] userinit_ready [OF t] by fastforce
qed

lemma getProcInfo_entry_ok:
  assumes "reported (p_state (procs t q))" and "p_state (procs t q) \<noteq> ZOMBIE"
  shows "\<exists>e. getProcInfo_entry t q = Inr e"
  using assms by (auto simp: reported_def getProcInfo_entry_def getProcInfo_state_def Let_def)

section \<open>Properties\<close>

text \<open>
  C1: in every state any interleaving of the CPUs reaches from boot, the free list and the
  three ready lists are null-terminated, without cycles and disjoint; the ready list of
  priority \<open>i\<close> holds exactly the runnable processes of priority \<open>i\<close>; the free list
  holds unused slots only; and every priority is one of the three levels.
\<close>

theorem ready_lists_exact:
  assumes "sched_reachable s"
  shows "\<exists>F R. lists_rep (pt s) F R \<and>
    (\<forall>i<SIZE. \<forall>p. p \<in> set (R i) \<longleftrightarrow>
       p < NPROC \<and> p_state (procs (pt s) p) = RUNNABLE \<and> p_priority (procs (pt s) p) = int i) \<and>
    (\<forall>p\<in>set F. p_state (procs (pt s) p) = UNUSED) \<and>
    (\<forall>p<NPROC. p_state (procs (pt s) p) = RUNNABLE \<longrightarrow> (\<exists>!i. i < SIZE \<and> p \<in> set (R i)))"
proof -
  obtain F R where t: "lists_rep (pt s) F R" "states_ok F R (pt s)" using core_table [OF assms] .
  note st = states_okD [OF t(2)]
  have "\<exists>!i. i < SIZE \<and> p \<in> set (R i)" if p: "p < NPROC" "p_state (procs (pt s) p) = RUNNABLE" for p
  proof (rule ex1I [of _ "nat (p_priority (procs (pt s) p))"])
    have i: "nat (p_priority (procs (pt s) p)) < SIZE" "int (nat (p_priority (procs (pt s) p))) = p_priority (procs (pt s) p)"
      using st(3) [OF p(1)] by auto
    then show "nat (p_priority (procs (pt s) p)) < SIZE \<and> p \<in> set (R (nat (p_priority (procs (pt s) p))))"
      using st(1) [OF i(1), of p] p by simp
    show "i = nat (p_priority (procs (pt s) p))" if "i < SIZE \<and> p \<in> set (R i)" for i
      using that st(1) [of i p] by auto
  qed
  then show ?thesis using t(1) st(1,2) by (intro exI [of _ F] exI [of _ R]) blast
qed

theorem ready_lists_exact_witness:
  "\<exists>s. sched_reachable s \<and> (\<exists>F R. lists_rep (pt s) F R \<and> (\<forall>p\<in>set F. p_state (procs (pt s) p) = UNUSED))"
proof -
  obtain t where "sched_reachable (boot_sys t)" using boot_reachable by blast
  then show ?thesis using ready_lists_exact [of "boot_sys t"] by blast
qed

text \<open>
  C2: in every reachable state a process that is some CPU's \<open>proc\<close> is in the running
  state, no process is the \<open>proc\<close> of two CPUs, and every running process is the
  \<open>proc\<close> of a CPU.
\<close>

theorem one_cpu_per_process:
  assumes "sched_reachable s" and "p < NPROC"
  shows "(p_state (procs (pt s) p) = RUNNING \<longleftrightarrow> (\<exists>c. curproc c (pt s) = Some p)) \<and>
    (curproc c (pt s) = Some p \<longrightarrow> curproc d (pt s) = Some p \<longrightarrow> c = d)"
  using cpus_okD [of "pt s"] assms by (metis core_table)

theorem one_cpu_per_process_witness:
  "\<exists>s. sched_reachable s \<and> (p_state (procs (pt s) 63) = RUNNING \<longleftrightarrow> (\<exists>c. curproc c (pt s) = Some 63))"
proof -
  obtain t where "sched_reachable (boot_sys t)" using boot_reachable by blast
  then show ?thesis
    using one_cpu_per_process [of "boot_sys t" 63] by (intro exI [of _ "boot_sys t"]) (simp add: NPROC_def)
qed



text \<open>
  C8: the scheduler dispatches by priority and in order of arrival. When its loop switches to a
  process in a reachable state, that process was the first of the ready list it came from,
  every ready list of a better priority was empty, and it now runs on that CPU with its own
  page table loaded.
\<close>

theorem dispatch_highest_priority:
  assumes "sched_reachable s" and "mode s c = MLoop" and "scheduler_loop c s = Inr t" and "mode t c = MResume"
  shows "\<exists>F R p i xs. lists_rep (pt s) F R \<and> i < SIZE \<and> R i = p # xs \<and> (\<forall>j<i. R j = []) \<and>
    curproc c (pt t) = Some p \<and> p_state (procs (pt t) p) = RUNNING \<and>
    (\<forall>q. q \<noteq> p \<longrightarrow> p_state (procs (pt t) q) = p_state (procs (pt s) q))"
proof -
  note inv = sched_reachable_inv [OF assms(1)]
  obtain F R where t: "lists_rep (pt s) F R" and core: "core_ok (kont s) (making s) (pt s)"
    using core_table [OF assms(1)] by blast
  have mo: "mode_ok c MLoop (loopi s c) (pt s)" using sched_invD(4) [OF inv, of c] assms(2) by simp
  have lt: "loopi s c < int SIZE"
  proof (rule ccontr)
    assume "\<not> loopi s c < int SIZE"
    then show False using assms(3,4) by (auto simp: scheduler_loop_def)
  qed
  have cur: "curproc c (pt s) = None" using mo by (simp add: mode_ok_def)
  define i where "i = nat (loopi s c)"
  have i: "loopi s c = int i" "i < SIZE" using lt mo by (auto simp: i_def mode_ok_def)
  then have empty: "readyList (pt s) j = None" if "j < i" for j using mo that by (simp add: mode_ok_def)
  obtain p where p: "readyList (pt s) i = Some p"
    using assms(2,3,4) i lt by (cases "readyList (pt s) i") (auto simp: scheduler_loop_def)
  obtain t' where t': "scheduler_pick c p (pt s) = Inr t'" "curproc c t' = Some p"
    "p_state (procs t' p) = RUNNING" "\<forall>q. q \<noteq> p \<longrightarrow> p_state (procs t' q) = p_state (procs (pt s) q)"
    using scheduler_pick_core [OF core cur i(2) p] by blast
  have "pt t = t'" using assms(3) i lt p t'(1) by (auto simp: scheduler_loop_def on_pt_def)
  moreover obtain xs where "R i = p # xs" using lists_rep_hd [OF t i(2)] p by (cases "R i") auto
  moreover have "R j = []" if "j < i" for j
    using lists_rep_hd [OF t, of j] empty [OF that] i(2) that by (cases "R j") auto
  ultimately show ?thesis using t i(2) t'(2,3,4) by blast
qed

theorem dispatch_highest_priority_witness:
  "\<exists>s t p. sched_reachable s \<and> scheduler_loop 0 s = Inr t \<and> curproc 0 (pt t) = Some p \<and>
     p_state (procs (pt t) p) = RUNNING"
proof -
  have step: "\<exists>t. sched_reachable t \<and> scheduler_loop 0 s = Inr t \<and>
      (mode t 0 = MLoop \<and> loopi t 0 = 1 \<and> pt t = pt s \<or> mode t 0 = MResume)"
    if s: "sched_reachable s" "mode s 0 = MLoop" "loopi s 0 = 0" for s
  proof -
    obtain t where t: "scheduler_loop 0 s = Inr t" "sched_inv t"
      using scheduler_loop_ok [OF sched_reachable_inv [OF s(1)] s(2)] by blast
    moreover have "sched_reachable t" using sched_reachable.step [OF s(1)] sched_step.loop [OF s(2) t(1)] by blast
    moreover have "mode t 0 = MLoop \<and> loopi t 0 = 1 \<and> pt t = pt s \<or> mode t 0 = MResume"
      using t(1) s(2,3) by (cases "readyList (pt s) 0")
        (auto simp: scheduler_loop_def ready_index_def SIZE_def on_pt_def set_mode_def)
    ultimately show ?thesis by blast
  qed
  obtain s where s: "sched_reachable s" "mode s 0 = MLoop" "loopi s 0 = 0" and r1: "readyList (pt s) 1 \<noteq> None"
    using boot_run_ready by blast
  obtain t where t: "sched_reachable t" "scheduler_loop 0 s = Inr t"
    "mode t 0 = MLoop \<and> loopi t 0 = 1 \<and> pt t = pt s \<or> mode t 0 = MResume" using step [OF s] by blast
  show ?thesis
  proof (cases "mode t 0 = MResume")
    case True
    then show ?thesis using dispatch_highest_priority [OF s(1,2) t(2)] s(1) t(2) by blast
  next
    case False
    then have t': "mode t 0 = MLoop" "loopi t 0 = 1" "readyList (pt t) 1 \<noteq> None" using t(3) r1 by auto
    obtain u where u: "scheduler_loop 0 t = Inr u"
      using scheduler_loop_ok [OF sched_reachable_inv [OF t(1)] t'(1)] by blast
    moreover have "mode u 0 = MResume"
      using u t' by (auto simp: scheduler_loop_def ready_index_def SIZE_def on_pt_def set_mode_def)
    ultimately show ?thesis using dispatch_highest_priority [OF t(1) t'(1) u] t(1) by blast
  qed
qed

text \<open>
  C15: \<open>wakeup1\<close> wakes exactly the processes asleep on the channel. In a reachable
  state it succeeds, each such process becomes runnable and is appended, in table order, to
  the ready list of its priority, and no other process changes state.
\<close>

theorem wakeup_exact:
  assumes "sched_reachable s"
  shows "\<exists>F R t. lists_rep (pt s) F R \<and> wakeup1 ch (pt s) = Inr t \<and>
    lists_rep t F (\<lambda>i. R i @ woken ch (pt s) i) \<and>
    (\<forall>p. p_state (procs t p) =
       (if p < NPROC \<and> sleeping_on ch (procs (pt s) p) then RUNNABLE else p_state (procs (pt s) p)))"
proof -
  obtain F R where t: "table_ok F R (pt s)" "lists_rep (pt s) F R" using core_table [OF assms] by blast
  obtain t' where t': "wakeup1 ch (pt s) = Inr t'" "table_ok F (\<lambda>i. R i @ woken ch (pt s) i) t'"
    "strip t' = wake_on {..<NPROC} ch (strip (pt s))" using wakeup1_ok [OF t(1)] by blast
  have "p_state (procs t' p) =
       (if p < NPROC \<and> sleeping_on ch (procs (pt s) p) then RUNNABLE else p_state (procs (pt s) p))" for p
    using arg_cong [OF t'(3), of "\<lambda>t. p_state (procs t p)"] by simp
  then show ?thesis using t(2) t'(1,2) by (auto simp: table_ok_def)
qed

theorem wakeup_exact_witness:
  "\<exists>s t. sched_reachable s \<and> wakeup1 ChTicks (pt s) = Inr t"
proof -
  obtain t where "sched_reachable (boot_sys t)" using boot_reachable by blast
  then show ?thesis using wakeup_exact [of "boot_sys t" ChTicks] by blast
qed



text \<open>
  C18: changing the priority of the process at the end of a ready list dereferences a null
  pointer. When the process is runnable and the last of at least two entries of its list, the
  search loop of \<open>removeFromReadyList\<close> unlinks it, follows \<open>current->next\<close> to null
  and reads through it.
\<close>

theorem setPriority_last_fails:
  assumes "lists_rep t F R" and "i < SIZE" and "R i = xs @ [p]" and "xs \<noteq> []"
    and "p_state (procs t p) = RUNNABLE" and "p_priority (procs t p) = int i" and "v \<noteq> int i"
    and "p < NPROC" and "\<forall>q<p. p_pid (procs t q) \<noteq> p_pid (procs t p)"
  shows "setPriority_table (p_pid (procs t p)) v t = Inl NullDeref"
proof -
  have rem: "removeFromReadyList p (int i) (set_priority p v t) = Inl NullDeref"
    by (rule removeFromReadyList_last [where F = F and R = R and xs = xs]) (use assms in simp_all)
  have skip: "setPriority_loop pid v (qs @ ps) t = setPriority_loop pid v ps t"
    if "\<forall>q\<in>set qs. p_pid (procs t q) \<noteq> pid" for pid qs ps
    using that by (induction qs) auto
  have "[0..<NPROC] = [0..<p] @ p # [Suc p..<NPROC]"
    using upt_add_eq_append [of 0 p "NPROC - p"] upt_conv_Cons [of p NPROC] assms(8) by simp
  then have "setPriority_table (p_pid (procs t p)) v t = setPriority_loop (p_pid (procs t p)) v (p # [Suc p..<NPROC]) t"
    using skip [of "[0..<p]" "p_pid (procs t p)"] assms(9) by (simp add: setPriority_table_def)
  then show ?thesis using rem assms(5,6,7) by (simp add: Let_def)
qed

theorem setPriority_last_fails_witness:
  "setPriority_table 2 0 two_ready = Inl NullDeref"
proof -
  have "lists_rep two_ready [] ((\<lambda>_. [])(1 := [0, 1]))"
    by (auto simp: lists_rep_def free_rep_def ready_rep_def plist_def nextf_def two_ready_def
        boot_table_def zero_proc_def)
  then show ?thesis
    using setPriority_last_fails [of two_ready "[]" "(\<lambda>_. [])(1 := [0, 1])" 1 "[0]" 1 0]
    by (simp add: two_ready_def boot_table_def zero_proc_def NPROC_def)
qed

text \<open>
  C20: \<open>getProcInfo\<close> reports the first \<open>max\<close> slots in use, in table order, one
  entry each, and returns their number (none for a negative \<open>max\<close>); but if one of them is
  a zombie it reads past the end of its \<open>states\<close> array, which stops at \<open>RUNNING\<close>.
\<close>

theorem getProcInfo_reports:
  "getProcInfo maxn t =
     (let ps = take (nat maxn) (filter (\<lambda>p. reported (p_state (procs t p))) [0..<NPROC])
      in if \<exists>p\<in>set ps. p_state (procs t p) = ZOMBIE then Inl OutOfBounds
         else Inr (int (length ps), map (\<lambda>p. projr (getProcInfo_entry t p)) ps))"
proof -
  let ?act = "\<lambda>p. reported (p_state (procs t p))"
  have "getProcInfo_loop maxn i qs table t =
      (let ps = take (nat (maxn - i)) (filter ?act qs)
       in if \<exists>p\<in>set ps. p_state (procs t p) = ZOMBIE then Inl OutOfBounds
          else Inr (i + int (length ps), table @ map (\<lambda>p. projr (getProcInfo_entry t p)) ps))" for i qs table
  proof (induction qs arbitrary: i table)
    case Nil
    then show ?case by simp
  next
    case (Cons q qs)
    show ?case
    proof (cases "i < maxn \<and> ?act q")
      case False
      show ?thesis
      proof (cases "i < maxn")
        case True
        then have "getProcInfo_loop maxn i (q # qs) table t = getProcInfo_loop maxn i qs table t"
          "filter ?act (q # qs) = filter ?act qs" using False by simp_all
        then show ?thesis using Cons [of i table] by metis
      qed simp
    next
      case True
      then have n: "nat (maxn - i) = Suc (nat (maxn - (i + 1)))" by auto
      show ?thesis
      proof (cases "p_state (procs t q) = ZOMBIE")
        case True
        then show ?thesis using n \<open>i < maxn \<and> ?act q\<close>
          by (simp add: getProcInfo_entry_def getProcInfo_state_def Let_def)
      next
        case False
        then obtain e where e: "getProcInfo_entry t q = Inr e"
          using getProcInfo_entry_ok True by blast
        then have "getProcInfo_loop maxn i (q # qs) table t = getProcInfo_loop maxn (i + 1) qs (table @ [e]) t"
          using True by simp
        moreover have "take (nat (maxn - i)) (filter ?act (q # qs)) = q # take (nat (maxn - (i + 1))) (filter ?act qs)"
          using True n by simp
        ultimately show ?thesis using Cons [of "i + 1" "table @ [e]"] e False unfolding Let_def by simp
      qed
    qed
  qed
  from this [of 0 "[0..<NPROC]" "[]"] show ?thesis by (simp add: getProcInfo_def Let_def)
qed

end
