(* ===== verification/Kalloc.thy ===== *)
theory Kalloc
  imports Layout CString
begin

section \<open>Physical page allocator (kalloc.c)\<close>

text \<open>
  Kernel memory is one array of bytes, addressed by kernel virtual address; the free pages
  are chained through their first word. \<open>kfree\<close> and \<open>kalloc\<close> work on that memory;
  \<open>pages_rep\<close> reads the chain off it. The lemmas show that the allocator hands out
  whole, aligned, distinct pages of its range, and never one that is in use.
  \<open>kmem.lock\<close> is taken when \<open>use_lock\<close> is set; the bodies between \<open>acquire\<close>
  and \<open>release\<close> are what is modelled here.
\<close>

unbundle bit_operations_syntax

subsection \<open>Definitions\<close>

definition load32 :: "mem \<Rightarrow> nat \<Rightarrow> u32" where
  "load32 m a = ucast (m a) OR push_bit 8 (ucast (m (a + 1))) OR
     push_bit 16 (ucast (m (a + 2))) OR push_bit 24 (ucast (m (a + 3)))"

definition PGROUNDUP :: "u32 \<Rightarrow> u32" where
  "PGROUNDUP sz = (sz + PGSIZE - 1) AND NOT (PGSIZE - 1)"

definition PGROUNDDOWN :: "u32 \<Rightarrow> u32" where
  "PGROUNDDOWN a = a AND NOT (PGSIZE - 1)"

record kmem =
  km_mem :: mem
  km_use_lock :: bool
  km_freelist :: u32
  km_end :: u32

definition kfree :: "u32 \<Rightarrow> kmem \<Rightarrow> kmem kres" where
  "kfree v k =
     (if v mod PGSIZE \<noteq> 0 \<or> v < km_end k \<or> v2p v \<ge> PHYSTOP then Inl (Panic ''kfree'')
      else let k = k\<lparr>km_mem := memset (km_mem k) (unat v) 1 (unat PGSIZE)\<rparr>;
               k = k\<lparr>km_mem := store32 (km_mem k) (unat v) (km_freelist k)\<rparr>
           in Inr (k\<lparr>km_freelist := v\<rparr>))"

definition kalloc :: "kmem \<Rightarrow> u32 \<times> kmem" where
  "kalloc k =
     (let r = km_freelist k in
      if r \<noteq> 0 then (r, k\<lparr>km_freelist := load32 (km_mem k) (unat r)\<rparr>) else (r, k))"

text \<open>The loop of \<open>freerange\<close>; pointers are compared as unsigned words.\<close>

partial_function (option) freerange_loop :: "u32 \<Rightarrow> u32 \<Rightarrow> kmem \<Rightarrow> kmem kres option" where
  "freerange_loop p vend k =
     (if p + PGSIZE \<le> vend then
        (case kfree p k of Inl e \<Rightarrow> Some (Inl e) | Inr k \<Rightarrow> freerange_loop (p + PGSIZE) vend k)
      else Some (Inr k))"

definition freerange :: "u32 \<Rightarrow> u32 \<Rightarrow> kmem \<Rightarrow> kmem kres option" where
  "freerange vstart vend = freerange_loop (PGROUNDUP vstart) vend"

definition kinit1 :: "u32 \<Rightarrow> u32 \<Rightarrow> kmem \<Rightarrow> kmem kres option" where
  "kinit1 vstart vend k = freerange vstart vend (k\<lparr>km_use_lock := False\<rparr>)"

definition kinit2 :: "u32 \<Rightarrow> u32 \<Rightarrow> kmem \<Rightarrow> kmem kres option" where
  "kinit2 vstart vend k =
     map_option (\<lambda>r. bindR r (\<lambda>k. Inr (k\<lparr>km_use_lock := True\<rparr>))) (freerange vstart vend k)"

text \<open>A page the allocator manages, its bytes, and the chain of free pages.\<close>

definition page_ok :: "u32 \<Rightarrow> u32 \<Rightarrow> bool" where
  "page_ok e v \<longleftrightarrow> v mod PGSIZE = 0 \<and> e \<le> v \<and> v2p v < PHYSTOP \<and> KERNBASE \<le> v"

definition page_bytes :: "u32 \<Rightarrow> nat set" where
  "page_bytes v = {unat v ..< unat v + 4096}"

primrec chain :: "mem \<Rightarrow> u32 \<Rightarrow> u32 list \<Rightarrow> bool" where
  "chain m p [] \<longleftrightarrow> p = 0"
| "chain m p (v # vs) \<longleftrightarrow> p = v \<and> chain m (load32 m (unat v)) vs"

definition pages_rep :: "kmem \<Rightarrow> u32 list \<Rightarrow> bool" where
  "pages_rep k vs \<longleftrightarrow> chain (km_mem k) (km_freelist k) vs \<and> distinct vs \<and> (\<forall>v\<in>set vs. page_ok (km_end k) v)"

text \<open>The pages \<open>freerange\<close> frees, and \<open>n\<close> allocations in a row.\<close>

primrec pages_from :: "u32 \<Rightarrow> nat \<Rightarrow> u32 list" where
  "pages_from p 0 = []"
| "pages_from p (Suc n) = p # pages_from (p + PGSIZE) n"

primrec alloc_n :: "('k \<Rightarrow> u32 \<times> 'k) \<Rightarrow> nat \<Rightarrow> 'k \<Rightarrow> u32 list \<times> 'k" where
  "alloc_n f 0 k = ([], k)"
| "alloc_n f (Suc n) k = (let (v, k) = f k; (vs, k) = alloc_n f n k in (v # vs, k))"

section \<open>Lemmas\<close>

subsection \<open>Words in memory\<close>

lemma load32_store32 [simp]: "load32 (store32 m a w) a = w"
  by (simp add: load32_def store32_def bytes_of_word32)

lemma load32_cong:
  assumes "\<And>x. a \<le> x \<Longrightarrow> x < a + 4 \<Longrightarrow> m x = m' x"
  shows "load32 m a = load32 m' a"
  unfolding load32_def by (simp add: assms)

lemma store32_other: "x < a \<or> a + 4 \<le> x \<Longrightarrow> store32 m a w x = m x"
  by (auto simp: store32_def)

subsection \<open>Rounding to pages\<close>

lemma and_not_mask12: "(a :: u32) AND NOT (mask 12) = a - take_bit 12 a"
proof -
  have "(a AND NOT (mask 12)) + take_bit 12 a = (a AND NOT (mask 12)) OR take_bit 12 a"
    by (rule disjunctive_add) (auto simp: bit_simps)
  also have "\<dots> = a" by (rule bit_word_eqI) (auto simp: bit_simps)
  finally show ?thesis by (simp add: algebra_simps)
qed

lemma PGROUNDDOWN_eq: "PGROUNDDOWN a = a - take_bit 12 a"
proof -
  have "(PGSIZE - 1) = mask 12" by (simp add: PGSIZE_def mask_eq_exp_minus_1)
  then show ?thesis by (simp add: PGROUNDDOWN_def and_not_mask12)
qed

lemma page_offset: "va - PGROUNDDOWN va = take_bit 12 va" "unat (va - PGROUNDDOWN va) < 4096"
proof -
  show "va - PGROUNDDOWN va = take_bit 12 va" by (simp add: PGROUNDDOWN_eq)
  then show "unat (va - PGROUNDDOWN va) < 4096"
    using take_bit_nat_less_exp [of 12 "unat va"] by (simp add: unsigned_take_bit_eq)
qed

subsection \<open>The chain of free pages\<close>

lemma page_mod: "v mod PGSIZE = 0 \<longleftrightarrow> unat v mod 4096 = 0"
  by (simp add: PGSIZE_def word_unat_eq_iff unat_mod)

lemma page_ok_bounds:
  "page_ok e p \<longleftrightarrow> p mod PGSIZE = 0 \<and> e \<le> p \<and> 0x80000000 \<le> unat p \<and> unat p < 0x8E000000"
proof -
  have "KERNBASE \<le> p \<longleftrightarrow> 0x80000000 \<le> unat p" by (simp add: KERNBASE_def word_le_nat_alt)
  moreover have "v2p p < PHYSTOP \<longleftrightarrow> unat p < 0x8E000000" if "KERNBASE \<le> p"
    using unat_sub [OF that] by (auto simp: v2p_def word_less_nat_alt KERNBASE_def PHYSTOP_def)
  ultimately show ?thesis unfolding page_ok_def by blast
qed

lemma page_sep:
  assumes "page_ok e v" and "page_ok e w" and "v \<noteq> w"
  shows "page_bytes v \<inter> page_bytes w = {}"
proof -
  have "unat v mod 4096 = 0" "unat w mod 4096 = 0"
    using assms(1,2) page_mod by (simp_all add: page_ok_def)
  then obtain a b where v: "unat v = 4096 * a" and w: "unat w = 4096 * b" by (auto simp: mod_eq_0_iff_dvd dvd_def)
  have "a \<noteq> b" using assms(3) v w by (auto simp: word_unat_eq_iff)
  then consider "Suc a \<le> b" | "Suc b \<le> a" by linarith
  then show ?thesis
  proof cases
    case 1
    then have "4096 * Suc a \<le> 4096 * b" by (rule mult_le_mono2)
    then show ?thesis using v w by (auto simp: page_bytes_def)
  next
    case 2
    then have "4096 * Suc b \<le> 4096 * a" by (rule mult_le_mono2)
    then show ?thesis using v w by (auto simp: page_bytes_def)
  qed
qed

lemma page_nonzero: "page_ok e v \<Longrightarrow> v \<noteq> 0"
  by (auto simp: page_ok_def KERNBASE_def)

text \<open>The chain depends on the first word of each free page only.\<close>

lemma chain_cong:
  assumes "\<And>v x. v \<in> set vs \<Longrightarrow> unat v \<le> x \<Longrightarrow> x < unat v + 4 \<Longrightarrow> m x = m' x"
  shows "chain m p vs \<longleftrightarrow> chain m' p vs"
  using assms
proof (induction vs arbitrary: p)
  case (Cons v vs)
  have "load32 m (unat v) = load32 m' (unat v)" by (rule load32_cong) (auto intro: Cons.prems)
  moreover have "chain m q vs = chain m' q vs" for q by (rule Cons.IH) (auto intro: Cons.prems)
  ultimately show ?case by simp
qed simp

lemma pages_rep_frame:
  assumes "pages_rep k vs" and "\<And>v x. v \<in> set vs \<Longrightarrow> x \<in> page_bytes v \<Longrightarrow> m x = km_mem k x"
  shows "pages_rep (k\<lparr>km_mem := m\<rparr>) vs"
proof -
  have "chain m (km_freelist k) vs \<longleftrightarrow> chain (km_mem k) (km_freelist k) vs"
    by (rule chain_cong) (auto intro: assms(2) simp: page_bytes_def)
  then show ?thesis using assms(1) by (simp add: pages_rep_def)
qed

lemma chain_unique:
  "chain m p vs \<Longrightarrow> chain m p ws \<Longrightarrow> 0 \<notin> set vs \<Longrightarrow> 0 \<notin> set ws \<Longrightarrow> vs = ws"
proof (induction vs arbitrary: p ws)
  case Nil
  then show ?case by (cases ws) auto
next
  case (Cons v vs)
  then show ?case by (cases ws) auto
qed

lemma pages_rep_nonzero: "pages_rep k vs \<Longrightarrow> 0 \<notin> set vs"
  by (auto simp: pages_rep_def dest: page_nonzero)

lemma pages_rep_unique: "pages_rep k vs \<Longrightarrow> pages_rep k ws \<Longrightarrow> vs = ws"
  using chain_unique pages_rep_nonzero by (auto simp: pages_rep_def)

subsection \<open>Allocating and freeing\<close>

lemma kalloc_rep:
  assumes "pages_rep k vs"
  shows "kalloc k = (if vs = [] then (0, k) else (hd vs, k\<lparr>km_freelist := load32 (km_mem k) (unat (hd vs))\<rparr>))"
    and "pages_rep (snd (kalloc k)) (tl vs)"
proof -
  have "vs \<noteq> [] \<Longrightarrow> hd vs \<noteq> 0" using pages_rep_nonzero [OF assms] by (cases vs) auto
  then show *: "kalloc k = (if vs = [] then (0, k) else (hd vs, k\<lparr>km_freelist := load32 (km_mem k) (unat (hd vs))\<rparr>))"
    using assms by (cases vs) (auto simp: kalloc_def pages_rep_def)
  show "pages_rep (snd (kalloc k)) (tl vs)"
    unfolding * using assms by (cases vs) (auto simp: pages_rep_def)
qed

lemma kalloc_mem [simp]: "km_mem (snd (kalloc k)) = km_mem k" "km_end (snd (kalloc k)) = km_end k"
  by (simp_all add: kalloc_def Let_def)

lemma kfree_ok:
  assumes "page_ok (km_end k) v"
  shows "\<exists>m. kfree v k = Inr (k\<lparr>km_mem := m, km_freelist := v\<rparr>) \<and> load32 m (unat v) = km_freelist k \<and>
    (\<forall>x. x \<notin> page_bytes v \<longrightarrow> m x = km_mem k x)"
proof -
  let ?m = "store32 (memset (km_mem k) (unat v) 1 4096) (unat v) (km_freelist k)"
  have "kfree v k = Inr (k\<lparr>km_mem := ?m, km_freelist := v\<rparr>)"
    using assms by (simp add: kfree_def page_ok_def Let_def not_less not_le PGSIZE_def)
  moreover have "?m x = km_mem k x" if "x \<notin> page_bytes v" for x
    using that store32_other [of x "unat v"] wr_other [of x "unat v"]
    by (auto simp: page_bytes_def memset_wr not_le)
  ultimately show ?thesis by (intro exI [of _ ?m]) simp
qed

lemma kfree_rep:
  assumes rep: "pages_rep k vs" and v: "page_ok (km_end k) v" and new: "v \<notin> set vs"
  shows "\<exists>k'. kfree v k = Inr k' \<and> pages_rep k' (v # vs) \<and> km_end k' = km_end k \<and>
    km_use_lock k' = km_use_lock k \<and> (\<forall>x. x \<notin> page_bytes v \<longrightarrow> km_mem k' x = km_mem k x)"
proof -
  obtain m where m: "kfree v k = Inr (k\<lparr>km_mem := m, km_freelist := v\<rparr>)" "load32 m (unat v) = km_freelist k"
    "\<And>x. x \<notin> page_bytes v \<Longrightarrow> m x = km_mem k x" using kfree_ok [OF v] by blast
  have "page_bytes w \<inter> page_bytes v = {}" if "w \<in> set vs" for w
    using page_sep [of "km_end k" w v] rep v new that by (auto simp: pages_rep_def)
  then have "chain m (km_freelist k) vs"
    using pages_rep_frame [OF rep, of m] m(3) by (auto simp: pages_rep_def)
  then have "pages_rep (k\<lparr>km_mem := m, km_freelist := v\<rparr>) (v # vs)"
    using rep v new m(2) by (simp add: pages_rep_def)
  then show ?thesis using m(1,3) by (intro exI [of _ "k\<lparr>km_mem := m, km_freelist := v\<rparr>"]) simp
qed

subsection \<open>Freeing a range\<close>

lemma page_next:
  assumes "page_ok e p" and "p + PGSIZE \<le> vend" and "vend \<le> p2v PHYSTOP"
  shows "unat (p + PGSIZE) = unat p + 4096" and "(p + PGSIZE) mod PGSIZE = 0"
proof -
  have "unat p < 0x8E000000" using assms(1) page_ok_bounds by simp
  then show u: "unat (p + PGSIZE) = unat p + 4096" by (simp add: PGSIZE_def unat_word_ariths)
  show "(p + PGSIZE) mod PGSIZE = 0"
    unfolding page_mod u using assms(1) by (simp add: page_ok_def page_mod)
qed

lemma freerange_loop_rep:
  assumes "unat vend = unat p + 4096 * n + r" and "r < 4096" and "vend \<le> p2v PHYSTOP"
    and "p mod PGSIZE = 0" and "km_end k \<le> p" and "KERNBASE \<le> p"
    and "pages_rep k vs" and "set (pages_from p n) \<inter> set vs = {}"
  shows "\<exists>k'. freerange_loop p vend k = Some (Inr k') \<and> pages_rep k' (rev (pages_from p n) @ vs) \<and>
    km_end k' = km_end k"
  using assms
proof (induction n arbitrary: p k vs)
  case 0
  have "unat vend \<le> 0x8E000000" using 0(3) by (simp add: p2v_def KERNBASE_def PHYSTOP_def word_le_nat_alt)
  then have "unat (p + PGSIZE) = unat p + 4096" using 0 by (simp add: PGSIZE_def unat_word_ariths)
  then have "\<not> p + PGSIZE \<le> vend" using 0(1,2) by (simp add: word_le_nat_alt)
  then show ?case using 0(7) by (simp add: freerange_loop.simps)
next
  case (Suc n)
  have lim: "unat vend \<le> 0x8E000000" using Suc.prems(3) by (simp add: p2v_def KERNBASE_def PHYSTOP_def word_le_nat_alt)
  have "0x80000000 \<le> unat p" using Suc.prems(6) by (simp add: KERNBASE_def word_le_nat_alt)
  then have ok: "page_ok (km_end k) p"
    using Suc.prems(1,4,5) lim by (simp add: page_ok_bounds)
  have u: "unat (p + PGSIZE) = unat p + 4096" using lim Suc.prems(1) by (simp add: PGSIZE_def unat_word_ariths)
  have le: "p + PGSIZE \<le> vend" using u Suc.prems(1) by (simp add: word_le_nat_alt)
  have al: "(p + PGSIZE) mod PGSIZE = 0" by (rule page_next(2) [OF ok le Suc.prems(3)])
  have "p \<notin> set vs" using Suc.prems(8) by simp
  then obtain k1 where k1: "kfree p k = Inr k1" "pages_rep k1 (p # vs)" "km_end k1 = km_end k"
    using kfree_rep [OF Suc.prems(7) ok] by blast
  have above: "q \<in> set (pages_from a m) \<Longrightarrow> unat a \<le> unat q" if "unat a + 4096 * m \<le> 0x8E000000" for a m q
    using that
  proof (induction m arbitrary: a)
    case (Suc m)
    then have "unat (a + PGSIZE) = unat a + 4096" by (simp add: PGSIZE_def unat_word_ariths)
    then show ?case using Suc.IH [of "a + PGSIZE"] Suc.prems by auto
  qed simp
  have "p \<notin> set (pages_from (p + PGSIZE) n)"
    using above [of "p + PGSIZE" n p] u lim Suc.prems(1) by fastforce
  then have "set (pages_from (p + PGSIZE) n) \<inter> set (p # vs) = {}" using Suc.prems(8) by auto
  moreover have "km_end k1 \<le> p + PGSIZE" "KERNBASE \<le> p + PGSIZE"
    using Suc.prems(5,6) u k1(3) by (auto simp: word_le_nat_alt)
  ultimately obtain k' where "freerange_loop (p + PGSIZE) vend k1 = Some (Inr k')"
    "pages_rep k' (rev (pages_from (p + PGSIZE) n) @ p # vs)" "km_end k' = km_end k1"
    using Suc.IH [of "p + PGSIZE" k1 "p # vs"] Suc.prems(1,2,3) u al k1 by auto
  then show ?case using le k1 by (subst freerange_loop.simps) simp
qed

section \<open>The allocator interface\<close>

text \<open>
  What the users of the allocator rely on: an allocation takes the first free page or
  returns null, and a free page of the range can be given back.
\<close>

locale page_allocator =
  fixes rep :: "'k \<Rightarrow> u32 list \<Rightarrow> bool"
    and managed :: "'k \<Rightarrow> u32 \<Rightarrow> bool"
    and alloc :: "'k \<Rightarrow> u32 \<times> 'k"
    and free :: "u32 \<Rightarrow> 'k \<Rightarrow> 'k kres"
  assumes rep_distinct: "rep k vs \<Longrightarrow> distinct vs \<and> (\<forall>v\<in>set vs. managed k v \<and> v \<noteq> 0)"
    and alloc_empty: "rep k [] \<Longrightarrow> alloc k = (0, k)"
    and alloc_rep: "rep k (v # vs) \<Longrightarrow> \<exists>k'. alloc k = (v, k') \<and> rep k' vs \<and> managed k' = managed k"
    and free_rep: "rep k vs \<Longrightarrow> managed k v \<Longrightarrow> v \<notin> set vs \<Longrightarrow>
      \<exists>k'. free v k = Inr k' \<and> rep k' (v # vs) \<and> managed k' = managed k"
begin

lemma alloc_many:
  assumes "rep k (vs @ ws)"
  shows "\<exists>k'. alloc_n alloc (length vs) k = (vs, k') \<and> rep k' ws \<and> managed k' = managed k"
  using assms
proof (induction vs arbitrary: k)
  case Nil
  then show ?case by simp
next
  case (Cons v vs)
  then obtain k1 where k1: "alloc k = (v, k1)" "rep k1 (vs @ ws)" "managed k1 = managed k"
    using alloc_rep [of k v "vs @ ws"] by auto
  with Cons.IH [OF k1(2)] show ?case by auto
qed

lemma free_all:
  assumes "rep k ws" and "\<forall>v\<in>set vs. managed k v" and "distinct vs" and "set vs \<inter> set ws = {}"
  shows "\<exists>k'. foldR free vs k = Inr k' \<and> rep k' (rev vs @ ws) \<and> managed k' = managed k"
  using assms
proof (induction vs arbitrary: k ws)
  case Nil
  then show ?case by simp
next
  case (Cons v vs)
  then obtain k1 where k1: "free v k = Inr k1" "rep k1 (v # ws)" "managed k1 = managed k"
    using free_rep [of k ws v] by auto
  with Cons.IH [OF k1(2)] Cons.prems show ?case by auto
qed

text \<open>Pages that are allocated and all given back can all be allocated again.\<close>

lemma alloc_free_alloc:
  assumes "rep k (vs @ ws)"
  shows "\<exists>k1 k2. alloc_n alloc (length vs) k = (vs, k1) \<and> foldR free vs k1 = Inr k2 \<and>
    rep k2 (rev vs @ ws) \<and> managed k2 = managed k"
proof -
  obtain k1 where k1: "alloc_n alloc (length vs) k = (vs, k1)" "rep k1 ws" "managed k1 = managed k"
    using alloc_many [OF assms] by blast
  have "distinct (vs @ ws)" "\<forall>v\<in>set vs. managed k v" using rep_distinct [OF assms] by auto
  then show ?thesis using free_all [OF k1(2), of vs] k1 by auto
qed

end

interpretation kpages: page_allocator pages_rep "\<lambda>k. page_ok (km_end k)" kalloc kfree
proof unfold_locales
  show "distinct vs \<and> (\<forall>v\<in>set vs. page_ok (km_end k) v \<and> v \<noteq> 0)" if "pages_rep k vs" for k vs
    using that page_nonzero by (auto simp: pages_rep_def)
  show "kalloc k = (0, k)" if "pages_rep k []" for k
    using kalloc_rep(1) [OF that] by simp
  show "\<exists>k'. kalloc k = (v, k') \<and> pages_rep k' vs \<and> page_ok (km_end k') = page_ok (km_end k)"
    if "pages_rep k (v # vs)" for k v vs
    using kalloc_rep [OF that] by (cases "kalloc k") auto
  show "\<exists>k'. kfree v k = Inr k' \<and> pages_rep k' (v # vs) \<and> page_ok (km_end k') = page_ok (km_end k)"
    if "pages_rep k vs" "page_ok (km_end k) v" "v \<notin> set vs" for k vs v
    using kfree_rep [OF that] by auto
qed

section \<open>Properties\<close>

text \<open>
  C27: \<open>kinit1\<close> and \<open>kinit2\<close> run \<open>freerange\<close>, which returns for every range
  inside physical memory and puts exactly the whole pages of the range on the free list, the
  highest first.
\<close>

theorem freerange_frees_range:
  assumes "pages_rep k vs" and "unat vend = unat (PGROUNDUP vstart) + 4096 * n + r" and "r < 4096"
    and "vend \<le> p2v PHYSTOP" and "PGROUNDUP vstart mod PGSIZE = 0" and "km_end k \<le> PGROUNDUP vstart"
    and "KERNBASE \<le> PGROUNDUP vstart" and "set (pages_from (PGROUNDUP vstart) n) \<inter> set vs = {}"
  shows "\<exists>k'. freerange vstart vend k = Some (Inr k') \<and> pages_rep k' (rev (pages_from (PGROUNDUP vstart) n) @ vs)"
  unfolding freerange_def using freerange_loop_rep [OF assms(2,3,4,5,6,7,1,8)] by blast

theorem freerange_frees_range_witness:
  "\<exists>k k'. freerange 0x80112345 0x80115000 k = Some (Inr k') \<and> pages_rep k' [0x80114000, 0x80113000]"
proof -
  let ?k = "\<lparr>km_mem = \<lambda>_. 0, km_use_lock = False, km_freelist = 0, km_end = 0x80112345\<rparr>"
  have up: "PGROUNDUP 0x80112345 = 0x80113000" by (simp add: PGROUNDUP_def PGSIZE_def)
  have "pages_rep ?k []" by (simp add: pages_rep_def)
  note freed = freerange_frees_range [OF this, where vend = "0x80115000" and vstart = "0x80112345" and n = "Suc (Suc 0)" and r = 0]
  have "\<exists>k'. freerange 0x80112345 0x80115000 ?k = Some (Inr k') \<and> pages_rep k' [0x80114000, 0x80113000]"
    using freed unfolding up by (simp add: p2v_def KERNBASE_def PHYSTOP_def PGSIZE_def)
  then show ?thesis by blast
qed

text \<open>
  C26: the allocator never hands out a page twice. From a free list \<open>vs @ ws\<close>,
  \<open>length vs\<close> allocations return the pages \<open>vs\<close>, which are non-null, different,
  page-aligned and inside physical memory and different from every page still free; once
  they are freed again all of them are back on the list; and with an empty list
  \<open>kalloc\<close> returns null.
\<close>

theorem kalloc_distinct_pages:
  assumes "pages_rep k (vs @ ws)"
  shows "\<exists>k1 k2. alloc_n kalloc (length vs) k = (vs, k1) \<and> pages_rep k1 ws \<and>
    distinct (vs @ ws) \<and> (\<forall>v\<in>set vs. v \<noteq> 0 \<and> v mod PGSIZE = 0 \<and> km_end k \<le> v \<and> v2p v < PHYSTOP) \<and>
    foldR kfree vs k1 = Inr k2 \<and> pages_rep k2 (rev vs @ ws) \<and> (ws = [] \<longrightarrow> fst (kalloc k1) = 0)"
proof -
  obtain k1 k2 where k: "alloc_n kalloc (length vs) k = (vs, k1)" "foldR kfree vs k1 = Inr k2"
    "pages_rep k2 (rev vs @ ws)" using kpages.alloc_free_alloc [OF assms] by blast
  have k1: "pages_rep k1 ws" using kpages.alloc_many [OF assms] k(1) by auto
  then have "ws = [] \<longrightarrow> fst (kalloc k1) = 0" using kpages.alloc_empty [of k1] by auto
  then show ?thesis using k k1 kpages.rep_distinct [OF assms] by (auto simp: page_ok_def)
qed

theorem kalloc_distinct_pages_witness:
  "\<exists>k k1. pages_rep k [0x80113000] \<and> alloc_n kalloc 1 k = ([0x80113000], k1) \<and> fst (kalloc k1) = 0"
proof -
  let ?k = "\<lparr>km_mem = \<lambda>_. 0, km_use_lock = False, km_freelist = 0x80113000, km_end = 0x80112345\<rparr>"
  have rep: "pages_rep ?k ([0x80113000] @ [])"
    by (simp add: pages_rep_def load32_def page_ok_def v2p_def KERNBASE_def PHYSTOP_def PGSIZE_def)
  obtain k1 where "alloc_n kalloc (length [0x80113000 :: u32]) ?k = ([0x80113000], k1)" "fst (kalloc k1) = 0"
    using kalloc_distinct_pages [OF rep] by blast
  then have "pages_rep ?k [0x80113000] \<and> alloc_n kalloc 1 ?k = ([0x80113000], k1) \<and> fst (kalloc k1) = 0"
    using rep by simp
  then show ?thesis by blast
qed

end
