(* ===== verification/Vm.thy ===== *)
theory Vm
  imports Kalloc
begin

section \<open>Page tables and address spaces (vm.c)\<close>

text \<open>
  Two-level page tables are words in the kernel memory of \<open>Kalloc\<close>; every routine of
  \<open>vm.c\<close> that builds, walks, copies or frees one is a function on that memory. A virtual
  address means what \<open>vlookup\<close> reads: the page table entry its page resolves to.
  \<open>pt_ok\<close> says that a directory and its tables are pages of their own; under it
  \<open>walkpgdir\<close> and \<open>mappages\<close> change the entries they are asked to and no other.
  (\<open>loaduvm\<close>, which reads a file, is in theory \<open>Exec\<close>; \<open>switchuvm\<close> and
  \<open>switchkvm\<close> are in theory \<open>Sched\<close>.)
\<close>

subsection \<open>Definitions: addresses and entries\<close>

definition PTE_P :: u32 where "PTE_P = 0x001"
definition PTE_W :: u32 where "PTE_W = 0x002"
definition PTE_U :: u32 where "PTE_U = 0x004"
definition NPDENTRIES :: nat where "NPDENTRIES = 1024"
definition NPTENTRIES :: u32 where "NPTENTRIES = 1024"

definition PDX :: "u32 \<Rightarrow> u32" where "PDX va = drop_bit 22 va AND 0x3FF"
definition PTX :: "u32 \<Rightarrow> u32" where "PTX va = drop_bit 12 va AND 0x3FF"
definition PTE_ADDR :: "u32 \<Rightarrow> u32" where "PTE_ADDR pte = pte AND NOT 0xFFF"
definition PTE_FLAGS :: "u32 \<Rightarrow> u32" where "PTE_FLAGS pte = pte AND 0xFFF"

definition rd32 :: "kmem \<Rightarrow> u32 \<Rightarrow> u32" where
  "rd32 k a = load32 (km_mem k) (unat a)"

definition wr32 :: "u32 \<Rightarrow> u32 \<Rightarrow> kmem \<Rightarrow> kmem" where
  "wr32 a w k = k\<lparr>km_mem := store32 (km_mem k) (unat a) w\<rparr>"

definition zero_page :: "u32 \<Rightarrow> kmem \<Rightarrow> kmem" where
  "zero_page v k = k\<lparr>km_mem := memset (km_mem k) (unat v) 0 (unat PGSIZE)\<rparr>"

subsection \<open>Definitions: the routines\<close>

text \<open>The result is the address of the entry, 0 for null.\<close>

definition walkpgdir :: "u32 \<Rightarrow> u32 \<Rightarrow> bool \<Rightarrow> kmem \<Rightarrow> u32 \<times> kmem" where
  "walkpgdir pgdir va alloc k =
     (let pde = pgdir + 4 * PDX va in
      if rd32 k pde AND PTE_P \<noteq> 0 then (p2v (PTE_ADDR (rd32 k pde)) + 4 * PTX va, k)
      else if \<not> alloc then (0, k)
      else (case kalloc k of (pgtab, k) \<Rightarrow>
              if pgtab = 0 then (0, k)
              else (pgtab + 4 * PTX va,
                    wr32 pde (v2p pgtab OR PTE_P OR PTE_W OR PTE_U) (zero_page pgtab k))))"

partial_function (option) mappages_loop ::
    "u32 \<Rightarrow> u32 \<Rightarrow> u32 \<Rightarrow> u32 \<Rightarrow> u32 \<Rightarrow> kmem \<Rightarrow> (int \<times> kmem) kres option" where
  "mappages_loop pgdir a lst pa perm k =
     (case walkpgdir pgdir a True k of (pte, k) \<Rightarrow>
        if pte = 0 then Some (Inr (-1, k))
        else if rd32 k pte AND PTE_P \<noteq> 0 then Some (Inl (Panic ''remap''))
        else let k = wr32 pte (pa OR perm OR PTE_P) k in
             if a = lst then Some (Inr (0, k))
             else mappages_loop pgdir (a + PGSIZE) lst (pa + PGSIZE) perm k)"

definition loop_kres :: "'a kres option \<Rightarrow> 'a kres" where
  "loop_kres r = (case r of None \<Rightarrow> Inl Diverge | Some x \<Rightarrow> x)"

definition mappages :: "u32 \<Rightarrow> u32 \<Rightarrow> u32 \<Rightarrow> u32 \<Rightarrow> u32 \<Rightarrow> kmem \<Rightarrow> (int \<times> kmem) kres" where
  "mappages pgdir va sz pa perm k =
     loop_kres (mappages_loop pgdir (PGROUNDDOWN va) (PGROUNDDOWN (va + sz - 1)) pa perm k)"

text \<open>\<open>data\<close> is the linker's symbol for the start of the kernel's data.\<close>

definition kmap :: "u32 \<Rightarrow> (u32 \<times> u32 \<times> u32 \<times> u32) list" where
  "kmap data =
     [(KERNBASE, 0, EXTMEM, PTE_W),
      (KERNLINK, v2p KERNLINK, v2p data, 0),
      (data, v2p data, PHYSTOP, PTE_W),
      (DEVSPACE, DEVSPACE, 0, PTE_W)]"

fun setupkvm_loop :: "u32 \<Rightarrow> (u32 \<times> u32 \<times> u32 \<times> u32) list \<Rightarrow> kmem \<Rightarrow> (u32 \<times> kmem) kres" where
  "setupkvm_loop pgdir [] k = Inr (pgdir, k)"
| "setupkvm_loop pgdir ((virt, phys_start, phys_end, perm) # ks) k =
     bindR (mappages pgdir virt (phys_end - phys_start) phys_start perm k) (\<lambda>(r, k).
       if r < 0 then Inr (0, k) else setupkvm_loop pgdir ks k)"

definition setupkvm :: "u32 \<Rightarrow> kmem \<Rightarrow> (u32 \<times> kmem) kres" where
  "setupkvm data k =
     (case kalloc k of (pgdir, k) \<Rightarrow>
        if pgdir = 0 then Inr (0, k)
        else let k = zero_page pgdir k in
             if p2v PHYSTOP > DEVSPACE then Inl (Panic ''PHYSTOP too high'')
             else setupkvm_loop pgdir (kmap data) k)"

text \<open>\<open>kpgdir\<close>, the page table register and the memory afterwards.\<close>

definition kvmalloc :: "u32 \<Rightarrow> kmem \<Rightarrow> (u32 \<times> u32 \<times> kmem) kres" where
  "kvmalloc data k = bindR (setupkvm data k) (\<lambda>(kpgdir, k). Inr (kpgdir, v2p kpgdir, k))"

text \<open>\<open>kalloc\<close>'s result is used unchecked.\<close>

definition inituvm :: "u32 \<Rightarrow> u8 list \<Rightarrow> kmem \<Rightarrow> kmem kres" where
  "inituvm pgdir init k =
     (if length init \<ge> unat PGSIZE then Inl (Panic ''inituvm: more than a page'')
      else (case kalloc k of (mem, k) \<Rightarrow>
        if mem = 0 then Inl NullDeref
        else bindR (mappages pgdir 0 PGSIZE (v2p mem) (PTE_W OR PTE_U) (zero_page mem k)) (\<lambda>(_, k).
          Inr (k\<lparr>km_mem := wr (km_mem k) (unat mem) init\<rparr>))))"

partial_function (option) deallocuvm_loop :: "u32 \<Rightarrow> u32 \<Rightarrow> u32 \<Rightarrow> kmem \<Rightarrow> kmem kres option" where
  "deallocuvm_loop pgdir a oldsz k =
     (if \<not> a < oldsz then Some (Inr k)
      else let pte = fst (walkpgdir pgdir a False k) in
           if pte = 0 then deallocuvm_loop pgdir (a + (NPTENTRIES - 1) * PGSIZE + PGSIZE) oldsz k
           else if rd32 k pte AND PTE_P \<noteq> 0 then
             (let pa = PTE_ADDR (rd32 k pte) in
              if pa = 0 then Some (Inl (Panic ''kfree''))
              else (case kfree (p2v pa) k of
                      Inl e \<Rightarrow> Some (Inl e)
                    | Inr k \<Rightarrow> deallocuvm_loop pgdir (a + PGSIZE) oldsz (wr32 pte 0 k)))
           else deallocuvm_loop pgdir (a + PGSIZE) oldsz k)"

definition deallocuvm :: "u32 \<Rightarrow> u32 \<Rightarrow> u32 \<Rightarrow> kmem \<Rightarrow> (u32 \<times> kmem) kres" where
  "deallocuvm pgdir oldsz newsz k =
     (if newsz \<ge> oldsz then Inr (oldsz, k)
      else bindR (loop_kres (deallocuvm_loop pgdir (PGROUNDUP newsz) oldsz k)) (\<lambda>k. Inr (newsz, k)))"

text \<open>The result of \<open>mappages\<close> is ignored, as in the source.\<close>

partial_function (option) allocuvm_loop :: "u32 \<Rightarrow> u32 \<Rightarrow> u32 \<Rightarrow> u32 \<Rightarrow> kmem \<Rightarrow> (u32 \<times> kmem) kres option" where
  "allocuvm_loop pgdir a oldsz newsz k =
     (if \<not> a < newsz then Some (Inr (newsz, k))
      else (case kalloc k of (mem, k) \<Rightarrow>
        if mem = 0 then Some (bindR (deallocuvm pgdir newsz oldsz k) (\<lambda>(_, k). Inr (0, k)))
        else (case mappages pgdir a PGSIZE (v2p mem) (PTE_W OR PTE_U) (zero_page mem k) of
                Inl e \<Rightarrow> Some (Inl e)
              | Inr (_, k) \<Rightarrow> allocuvm_loop pgdir (a + PGSIZE) oldsz newsz k)))"

definition allocuvm :: "u32 \<Rightarrow> u32 \<Rightarrow> u32 \<Rightarrow> kmem \<Rightarrow> (u32 \<times> kmem) kres" where
  "allocuvm pgdir oldsz newsz k =
     (if newsz \<ge> KERNBASE then Inr (0, k)
      else if newsz < oldsz then Inr (oldsz, k)
      else loop_kres (allocuvm_loop pgdir (PGROUNDUP oldsz) oldsz newsz k))"

definition freevm_entry :: "u32 \<Rightarrow> nat \<Rightarrow> kmem \<Rightarrow> kmem kres" where
  "freevm_entry pgdir i k =
     (let pde = rd32 k (pgdir + 4 * of_nat i) in
      if pde AND PTE_P \<noteq> 0 then kfree (p2v (PTE_ADDR pde)) k else Inr k)"

definition freevm :: "u32 \<Rightarrow> kmem \<Rightarrow> kmem kres" where
  "freevm pgdir k =
     (if pgdir = 0 then Inl (Panic ''freevm: no pgdir'')
      else bindR (deallocuvm pgdir KERNBASE 0 k) (\<lambda>(_, k).
           bindR (foldR (freevm_entry pgdir) [0..<NPDENTRIES] k) (kfree pgdir)))"

definition clearpteu :: "u32 \<Rightarrow> u32 \<Rightarrow> kmem \<Rightarrow> kmem kres" where
  "clearpteu pgdir uva k =
     (let pte = fst (walkpgdir pgdir uva False k) in
      if pte = 0 then Inl (Panic ''clearpteu'')
      else Inr (wr32 pte (rd32 k pte AND NOT PTE_U) k))"

partial_function (option) copyuvm_loop ::
    "u32 \<Rightarrow> u32 \<Rightarrow> u32 \<Rightarrow> u32 \<Rightarrow> kmem \<Rightarrow> (u32 \<times> kmem) kres option" where
  "copyuvm_loop pgdir d i sz k =
     (if \<not> i < sz then Some (Inr (d, k))
      else let pte = fst (walkpgdir pgdir i False k) in
           if pte = 0 then Some (Inl (Panic ''copyuvm: pte should exist''))
           else if rd32 k pte AND PTE_P = 0 then Some (Inl (Panic ''copyuvm: page not present''))
           else
             let pa = PTE_ADDR (rd32 k pte); flags = PTE_FLAGS (rd32 k pte);
                 bad = (\<lambda>k. Some (bindR (freevm d k) (\<lambda>k. Inr (0, k))))
             in (case kalloc k of (mem, k) \<Rightarrow>
                   if mem = 0 then bad k
                   else (case mappages d i PGSIZE (v2p mem) flags
                           (k\<lparr>km_mem := CString.memmove (km_mem k) (unat mem) (unat (p2v pa)) (unat PGSIZE)\<rparr>) of
                           Inl e \<Rightarrow> Some (Inl e)
                         | Inr (r, k) \<Rightarrow>
                             if r < 0 then bad k else copyuvm_loop pgdir d (i + PGSIZE) sz k)))"

definition copyuvm :: "u32 \<Rightarrow> u32 \<Rightarrow> u32 \<Rightarrow> kmem \<Rightarrow> (u32 \<times> kmem) kres" where
  "copyuvm data pgdir sz k =
     bindR (setupkvm data k) (\<lambda>(d, k).
       if d = 0 then Inr (0, k) else loop_kres (copyuvm_loop pgdir d 0 sz k))"

text \<open>\<open>uva2ka\<close> does not test the entry's address for null.\<close>

definition uva2ka :: "u32 \<Rightarrow> u32 \<Rightarrow> kmem \<Rightarrow> u32 kres" where
  "uva2ka pgdir uva k =
     (let pte = fst (walkpgdir pgdir uva False k) in
      if pte = 0 then Inl NullDeref
      else if rd32 k pte AND PTE_P = 0 then Inr 0
      else if rd32 k pte AND PTE_U = 0 then Inr 0
      else Inr (p2v (PTE_ADDR (rd32 k pte))))"

text \<open>The buffer is the list of its bytes; each round writes what fits into one page.\<close>

definition copyout_n :: "u32 \<Rightarrow> u8 list \<Rightarrow> nat" where
  "copyout_n va buf = min (unat (PGSIZE - (va - PGROUNDDOWN va))) (length buf)"

function copyout :: "u32 \<Rightarrow> u32 \<Rightarrow> u8 list \<Rightarrow> kmem \<Rightarrow> (int \<times> kmem) kres" where
  "copyout pgdir va buf k =
     (if buf = [] then Inr (0, k)
      else let va0 = PGROUNDDOWN va; n = copyout_n va buf in
        bindR (uva2ka pgdir va0 k) (\<lambda>pa0.
          if pa0 = 0 then Inr (-1, k)
          else copyout pgdir (va0 + PGSIZE) (drop n buf)
                 (k\<lparr>km_mem := wr (km_mem k) (unat (pa0 + (va - va0))) (take n buf)\<rparr>)))"
  by pat_completeness auto

lemma copyout_n_pos: "buf \<noteq> [] \<Longrightarrow> 0 < copyout_n va buf"
proof -
  have "PGSIZE - (va - PGROUNDDOWN va) \<noteq> 0"
  proof
    assume "PGSIZE - (va - PGROUNDDOWN va) = 0"
    then have "va - PGROUNDDOWN va = PGSIZE" by simp
    then show False using page_offset(2) [of va] by (simp add: PGSIZE_def)
  qed
  then have "0 < unat (PGSIZE - (va - PGROUNDDOWN va))" using unat_gt_0 by blast
  then show "buf \<noteq> [] \<Longrightarrow> 0 < copyout_n va buf" by (simp add: copyout_n_def)
qed

termination copyout
proof (relation "measure (\<lambda>(pgdir, va, buf, k). length buf)")
  fix pgdir va :: u32 and buf :: "u8 list" and k :: kmem and x xa xb
  assume "buf \<noteq> []" "xa = copyout_n va buf"
  then have "length (drop xa buf) < length buf" using copyout_n_pos [of buf va] by (cases buf) simp_all
  then show "((pgdir, x + PGSIZE, drop xa buf, k\<lparr>km_mem := wr (km_mem k) (unat (xb + (va - x))) (take xa buf)\<rparr>),
      pgdir, va, buf, k) \<in> measure (\<lambda>(pgdir, va, buf, k). length buf)"
    by simp
qed (rule wf_measure)

declare copyout.simps [simp del]

subsection \<open>Definitions: what a page table means\<close>

text \<open>Entry \<open>i\<close> of the table in page \<open>v\<close>; the entry that page \<open>(i, j)\<close> of the
  address space of directory \<open>d\<close> resolves to, 0 where there is no table.\<close>

definition ent :: "kmem \<Rightarrow> u32 \<Rightarrow> nat \<Rightarrow> u32" where
  "ent k v i = load32 (km_mem k) (unat v + 4 * i)"

definition present :: "u32 \<Rightarrow> bool" where
  "present w \<longleftrightarrow> w AND PTE_P \<noteq> 0"

definition table :: "u32 \<Rightarrow> u32" where
  "table w = p2v (PTE_ADDR w)"

definition vmap :: "kmem \<Rightarrow> u32 \<Rightarrow> nat \<Rightarrow> nat \<Rightarrow> u32" where
  "vmap k d i j = (if present (ent k d i) then ent k (table (ent k d i)) j else 0)"

definition vpage :: "u32 \<Rightarrow> nat \<times> nat" where
  "vpage va = (unat (PDX va), unat (PTX va))"

definition vlookup :: "kmem \<Rightarrow> u32 \<Rightarrow> u32 \<Rightarrow> u32" where
  "vlookup k d va = vmap k d (unat (PDX va)) (unat (PTX va))"

definition pt_pages :: "kmem \<Rightarrow> u32 \<Rightarrow> u32 set" where
  "pt_pages k d = insert d {table (ent k d i) | i. i < 1024 \<and> present (ent k d i)}"

definition pt_ok :: "kmem \<Rightarrow> u32 \<Rightarrow> bool" where
  "pt_ok k d \<longleftrightarrow> page_ok (km_end k) d \<and>
     (\<forall>i<1024. present (ent k d i) \<longrightarrow> page_ok (km_end k) (table (ent k d i)) \<and> table (ent k d i) \<noteq> d) \<and>
     (\<forall>i<1024. \<forall>j<1024. present (ent k d i) \<longrightarrow> present (ent k d j) \<longrightarrow>
        table (ent k d i) = table (ent k d j) \<longrightarrow> i = j)"

text \<open>
  A user address: its entry is present and has the user bit; \<open>upos\<close> is where its byte is
  in kernel memory. In a well-formed user space the user pages are allocator pages outside
  the page table, and two addresses share a page of memory only inside one page.
\<close>

definition user :: "u32 \<Rightarrow> bool" where
  "user w \<longleftrightarrow> present w \<and> w AND PTE_U \<noteq> 0"

definition upos :: "kmem \<Rightarrow> u32 \<Rightarrow> u32 \<Rightarrow> nat" where
  "upos k d va = unat (table (vlookup k d va)) + unat va mod 4096"

definition um_ok :: "kmem \<Rightarrow> u32 \<Rightarrow> bool" where
  "um_ok k d \<longleftrightarrow> pt_ok k d \<and>
     (\<forall>va. user (vlookup k d va) \<longrightarrow> page_ok (km_end k) (table (vlookup k d va)) \<and> table (vlookup k d va) \<notin> pt_pages k d) \<and>
     (\<forall>va vb. user (vlookup k d va) \<longrightarrow> user (vlookup k d vb) \<longrightarrow>
        table (vlookup k d va) = table (vlookup k d vb) \<longrightarrow> unat va div 4096 = unat vb div 4096)"

text \<open>The free pages are none of the page table's.\<close>

definition vm_ok :: "kmem \<Rightarrow> u32 \<Rightarrow> u32 list \<Rightarrow> bool" where
  "vm_ok k d vs \<longleftrightarrow> pt_ok k d \<and> pages_rep k vs \<and> set vs \<inter> pt_pages k d = {}"

definition same_map :: "kmem \<Rightarrow> kmem \<Rightarrow> u32 \<Rightarrow> bool" where
  "same_map k' k d \<longleftrightarrow> km_end k' = km_end k \<and> (\<forall>i<1024. \<forall>j<1024. vmap k' d i j = vmap k d i j)"

section \<open>Lemmas\<close>

subsection \<open>Entries\<close>

lemma load32_store32_other:
  "a + 4 \<le> b \<or> b + 4 \<le> a \<Longrightarrow> load32 (store32 m a w) b = load32 m b"
  by (rule load32_cong) (auto intro: store32_other)

lemma unat_index: "unat (PDX va) < 1024" "unat (PTX va) < 1024"
proof -
  have "(0x3FF :: u32) = mask 10" by (simp add: mask_eq_exp_minus_1)
  then have "PDX va = take_bit 10 (drop_bit 22 va)" "PTX va = take_bit 10 (drop_bit 12 va)"
    by (simp_all add: PDX_def PTX_def take_bit_eq_mask)
  then show "unat (PDX va) < 1024" "unat (PTX va) < 1024"
    using take_bit_nat_less_exp [of 10] by (simp_all add: unsigned_take_bit_eq)
qed

lemma unat_entry:
  assumes "page_ok e v" and "unat x < 1024"
  shows "unat (v + 4 * x) = unat v + 4 * unat x"
  using assms by (simp add: page_ok_bounds unat_word_ariths)

lemma entry_sep:
  assumes "page_ok e v" and "page_ok e w" and "i < 1024" and "j < 1024" and "v \<noteq> w \<or> i \<noteq> j"
  shows "unat v + 4 * i + 4 \<le> unat w + 4 * j \<or> unat w + 4 * j + 4 \<le> unat v + 4 * i"
proof (cases "v = w")
  case True
  then show ?thesis using assms(5) by auto
next
  case False
  have "unat v + 4 * i \<in> page_bytes v" "unat v + 4 * i + 3 \<in> page_bytes v"
    "unat w + 4 * j \<in> page_bytes w" "unat w + 4 * j + 3 \<in> page_bytes w"
    using assms(3,4) by (auto simp: page_bytes_def)
  with page_sep [OF assms(1,2) False] show ?thesis by (auto simp: page_bytes_def)
qed

lemma ent_store:
  assumes "page_ok e v" and "page_ok e w" and "i < 1024" and "j < 1024"
  shows "ent (k\<lparr>km_mem := store32 (km_mem k) (unat v + 4 * i) x\<rparr>) w j = (if v = w \<and> i = j then x else ent k w j)"
  using entry_sep [OF assms] load32_store32_other by (auto simp: ent_def)

lemma ent_cong:
  assumes "page_ok e v" and "i < 1024" and "\<And>x. x \<in> page_bytes v \<Longrightarrow> km_mem k' x = km_mem k x"
  shows "ent k' v i = ent k v i"
  unfolding ent_def by (rule load32_cong) (rule assms(3), use assms(2) in \<open>auto simp: page_bytes_def\<close>)

subsection \<open>Well-formed page tables\<close>

lemma pt_okD:
  assumes "pt_ok k d"
  shows "page_ok (km_end k) d"
    and "i < 1024 \<Longrightarrow> present (ent k d i) \<Longrightarrow> page_ok (km_end k) (table (ent k d i))"
    and "i < 1024 \<Longrightarrow> present (ent k d i) \<Longrightarrow> table (ent k d i) \<noteq> d"
    and "i < 1024 \<Longrightarrow> j < 1024 \<Longrightarrow> present (ent k d i) \<Longrightarrow> present (ent k d j) \<Longrightarrow>
      table (ent k d i) = table (ent k d j) \<Longrightarrow> i = j"
  using assms unfolding pt_ok_def by blast+

lemma pt_okI:
  assumes "page_ok (km_end k) d"
    and "\<And>i. i < 1024 \<Longrightarrow> present (ent k d i) \<Longrightarrow> page_ok (km_end k) (table (ent k d i)) \<and> table (ent k d i) \<noteq> d"
    and "\<And>i j. i < 1024 \<Longrightarrow> j < 1024 \<Longrightarrow> present (ent k d i) \<Longrightarrow> present (ent k d j) \<Longrightarrow>
      table (ent k d i) = table (ent k d j) \<Longrightarrow> i = j"
  shows "pt_ok k d"
  using assms unfolding pt_ok_def by blast

lemma pt_pages_cong:
  assumes "\<And>i. i < 1024 \<Longrightarrow> ent k' d i = ent k d i"
  shows "pt_pages k' d = pt_pages k d"
proof -
  have "(\<exists>i. v = table (ent k' d i) \<and> i < 1024 \<and> present (ent k' d i)) \<longleftrightarrow>
      (\<exists>i. v = table (ent k d i) \<and> i < 1024 \<and> present (ent k d i))" for v
    using assms by metis
  then show ?thesis by (simp add: pt_pages_def)
qed

lemma pt_pages_ok: "pt_ok k d \<Longrightarrow> v \<in> pt_pages k d \<Longrightarrow> page_ok (km_end k) v"
  by (auto simp: pt_pages_def dest: pt_okD)

lemma pt_frame:
  assumes ok: "pt_ok k d" and same: "\<And>v x. v \<in> pt_pages k d \<Longrightarrow> x \<in> page_bytes v \<Longrightarrow> km_mem k' x = km_mem k x"
    and e: "km_end k' = km_end k"
  shows "pt_ok k' d" and "pt_pages k' d = pt_pages k d" and "i < 1024 \<Longrightarrow> j < 1024 \<Longrightarrow> vmap k' d i j = vmap k d i j"
proof -
  have d: "ent k' d i = ent k d i" if "i < 1024" for i
    by (rule ent_cong [OF pt_okD(1) [OF ok] that]) (auto intro: same simp: pt_pages_def)
  show "pt_ok k' d"
    using pt_okD [OF ok] by (intro pt_okI) (simp_all add: d e)
  show "pt_pages k' d = pt_pages k d" using d by (rule pt_pages_cong)
  show "vmap k' d i j = vmap k d i j" if i: "i < 1024" "j < 1024"
  proof (cases "present (ent k d i)")
    case True
    then have t: "table (ent k d i) \<in> pt_pages k d" using i by (auto simp: pt_pages_def)
    have "ent k' (table (ent k d i)) j = ent k (table (ent k d i)) j"
      using i True by (intro ent_cong [OF pt_okD(2) [OF ok]] same [OF t])
    then show ?thesis using True i by (simp add: vmap_def d)
  qed (simp add: vmap_def d i)
qed

text \<open>Writing one entry of a table changes what one page resolves to.\<close>

lemma pt_set_entry:
  assumes ok: "pt_ok k d" and i: "i < 1024" "j < 1024" and pres: "present (ent k d i)"
    and k': "k' = k\<lparr>km_mem := store32 (km_mem k) (unat (table (ent k d i)) + 4 * j) w\<rparr>"
  shows "pt_ok k' d" and "pt_pages k' d = pt_pages k d"
    and "i' < 1024 \<Longrightarrow> j' < 1024 \<Longrightarrow> vmap k' d i' j' = (if i' = i \<and> j' = j then w else vmap k d i' j')"
proof -
  note t = pt_okD(2) [OF ok i(1) pres] and td = pt_okD(3) [OF ok i(1) pres]
  have d: "ent k' d i' = ent k d i'" if "i' < 1024" for i'
    unfolding k' using ent_store [OF t pt_okD(1) [OF ok] i(2) that] td by simp
  have e: "km_end k' = km_end k" by (simp add: k')
  show "pt_ok k' d" using pt_okD [OF ok] by (intro pt_okI) (simp_all add: d e)
  show "pt_pages k' d = pt_pages k d" using d by (rule pt_pages_cong)
  show "vmap k' d i' j' = (if i' = i \<and> j' = j then w else vmap k d i' j')" if i': "i' < 1024" "j' < 1024"
  proof (cases "present (ent k d i')")
    case True
    have "ent k' (table (ent k d i')) j' = (if table (ent k d i) = table (ent k d i') \<and> j = j' then w
        else ent k (table (ent k d i')) j')"
      unfolding k' by (rule ent_store [OF t pt_okD(2) [OF ok i'(1) True] i(2) i'(2)])
    then show ?thesis using True i' pt_okD(4) [OF ok i(1) i'(1) pres True] by (auto simp: vmap_def d)
  next
    case False
    then show ?thesis using pres i' by (auto simp: vmap_def d)
  qed
qed

lemma page_low_bits:
  assumes "page_ok e v"
  shows "take_bit 12 v = 0" and "take_bit 12 (v2p v) = 0"
proof -
  have "unat v mod 4096 = 0" using assms by (simp add: page_ok_def page_mod)
  then show v: "take_bit 12 v = 0" by (simp add: word_unat_eq_iff unsigned_take_bit_eq take_bit_eq_mod unat_mod)
  have "unat (v2p v) = unat v - 4096 * 0x80000"
    using assms unat_sub [of KERNBASE v] by (simp add: page_ok_def v2p_def KERNBASE_def)
  moreover have "4096 dvd unat v" using \<open>unat v mod 4096 = 0\<close> by (rule mod_0_imp_dvd)
  ultimately have "4096 dvd unat (v2p v)" by (simp only: dvd_diff_nat dvd_triv_left)
  then have "unat (v2p v) mod 4096 = 0" by (rule dvd_imp_mod_0)
  then show "take_bit 12 (v2p v) = 0" by (simp add: word_unat_eq_iff unsigned_take_bit_eq take_bit_eq_mod unat_mod)
qed

lemma aligned_bits: "take_bit 12 (a :: u32) = 0 \<Longrightarrow> n < 12 \<Longrightarrow> \<not> bit a n"
  using bit_take_bit_iff [of 12 a n] by simp

lemma PTE_ADDR_or:
  assumes "take_bit 12 a = 0" and "drop_bit 12 f = (0 :: u32)"
  shows "PTE_ADDR (a OR f) = a"
proof -
  have "\<not> bit f n" if "12 \<le> n" for n
    using bit_drop_bit_eq [of 12 f] assms(2) that by (auto simp: fun_eq_iff dest: spec [of _ "n - 12"])
  moreover have "PTE_ADDR w = w AND NOT (mask 12)" for w by (simp add: PTE_ADDR_def mask_eq_exp_minus_1)
  ultimately show ?thesis
    using aligned_bits [OF assms(1)]
    by (intro bit_word_eqI) (auto simp: bit_simps not_less simp del: mask_numeral intro: leI)
qed

lemma present_or: "present (a OR f OR PTE_P)" "present (a OR (PTE_P OR f))"
proof -
  have "bit ((a OR f OR PTE_P) AND PTE_P) 0" "bit ((a OR (PTE_P OR f)) AND PTE_P) 0"
    by (simp_all add: bit_simps PTE_P_def)
  then show "present (a OR f OR PTE_P)" "present (a OR (PTE_P OR f))" unfolding present_def by force+
qed

lemma table_of_new:
  assumes "page_ok e t"
  shows "table (v2p t OR PTE_P OR PTE_W OR PTE_U) = t" and "present (v2p t OR PTE_P OR PTE_W OR PTE_U)"
proof -
  have "PTE_ADDR (v2p t OR (PTE_P OR PTE_W OR PTE_U)) = v2p t"
    by (rule PTE_ADDR_or [OF page_low_bits(2) [OF assms]]) (simp add: PTE_P_def PTE_W_def PTE_U_def)
  then show "table (v2p t OR PTE_P OR PTE_W OR PTE_U) = t"
    by (simp add: table_def p2v_def v2p_def ac_simps)
  show "present (v2p t OR PTE_P OR PTE_W OR PTE_U)" using present_or(2) [of "v2p t" "PTE_W OR PTE_U"] by (simp add: ac_simps)
qed

lemma zero_page_ent:
  assumes "page_ok e t" and "j < 1024"
  shows "ent (zero_page t k) t j = 0"
    and "page_ok e v \<Longrightarrow> v \<noteq> t \<Longrightarrow> ent (zero_page t k) v j = ent k v j"
proof -
  have z: "km_mem (zero_page t k) x = (if x \<in> page_bytes t then 0 else km_mem k x)" for x
    by (auto simp: zero_page_def memset_wr wr_def page_bytes_def PGSIZE_def)
  show "ent (zero_page t k) t j = 0"
    using assms(2) by (simp add: ent_def load32_def z page_bytes_def)
  show "ent (zero_page t k) v j = ent k v j" if "page_ok e v" "v \<noteq> t"
    using page_sep [OF that(1) assms(1) that(2)] by (intro ent_cong [OF that(1) assms(2)]) (auto simp: z)
qed

text \<open>Adding an empty table changes what no page resolves to.\<close>

lemma pt_new_table:
  assumes ok: "pt_ok k d" and i: "i < 1024" and absent: "\<not> present (ent k d i)"
    and t: "page_ok (km_end k) t" "t \<notin> pt_pages k d"
    and k': "k' = (let k = zero_page t k in k\<lparr>km_mem := store32 (km_mem k) (unat d + 4 * i) (v2p t OR PTE_P OR PTE_W OR PTE_U)\<rparr>)"
  shows "pt_ok k' d" and "pt_pages k' d = insert t (pt_pages k d)" and "present (ent k' d i)" and "table (ent k' d i) = t"
    and "i' < 1024 \<Longrightarrow> j' < 1024 \<Longrightarrow> vmap k' d i' j' = vmap k d i' j'"
proof -
  let ?w = "v2p t OR PTE_P OR PTE_W OR PTE_U"
  note d = pt_okD(1) [OF ok]
  have td: "t \<noteq> d" using t(2) by (auto simp: pt_pages_def)
  have ed: "ent k' d i' = (if i' = i then ?w else ent k d i')" if "i' < 1024" for i'
    using ent_store [OF d d i that, of "zero_page t k" ?w] zero_page_ent(2) [OF t(1) that d td [symmetric]]
    by (simp add: k' Let_def)
  have eo: "ent k' v j = (if v = t then 0 else ent k v j)" if "page_ok (km_end k) v" "v \<noteq> d" "j < 1024" for v j
    using ent_store [OF d that(1) i that(3), of "zero_page t k" ?w] zero_page_ent [OF t(1) that(3)] that
    by (simp add: k' Let_def)
  have e: "km_end k' = km_end k" by (simp add: k' Let_def zero_page_def)
  note new = table_of_new [OF t(1)]
  have tnew: "table (ent k d i') \<noteq> t" if "i' < 1024" "present (ent k d i')" for i'
    using t(2) that by (auto simp: pt_pages_def)
  show "present (ent k' d i)" "table (ent k' d i) = t" using ed [OF i] new by simp_all
  show "pt_ok k' d"
  proof (rule pt_okI)
    fix i' j' assume a: "i' < 1024" "j' < 1024" "present (ent k' d i')" "present (ent k' d j')"
      "table (ent k' d i') = table (ent k' d j')"
    show "i' = j'"
    proof (cases "i' = i")
      case True
      then show ?thesis using a ed new(1) tnew [of j'] by (cases "j' = i") auto
    next
      case False
      then show ?thesis using a ed new(1) tnew [of i'] pt_okD(4) [OF ok a(1,2)] by (cases "j' = i") auto
    qed
  qed (use d e t(1) td new(1) pt_okD(2,3) [OF ok] in \<open>auto simp: ed\<close>)
  have t': "i' \<noteq> i" if "present (ent k d i')" for i' using that absent by blast
  show "pt_pages k' d = insert t (pt_pages k d)" (is "_ = ?rhs")
  proof (intro set_eqI iffI)
    fix v assume "v \<in> pt_pages k' d"
    then show "v \<in> ?rhs"
      using ed new(1) by (auto simp: pt_pages_def split: if_splits)
  next
    fix v assume "v \<in> ?rhs"
    then consider "v = t" | "v = d" | i' where "v = table (ent k d i')" "i' < 1024" "present (ent k d i')"
      by (auto simp: pt_pages_def)
    then show "v \<in> pt_pages k' d"
    proof cases
      case 1
      then show ?thesis using ed [OF i] new i by (auto simp: pt_pages_def intro!: exI [of _ i])
    next
      case (3 i')
      then show ?thesis using ed [OF 3(2)] t' by (auto simp: pt_pages_def intro!: exI [of _ i'])
    qed (simp add: pt_pages_def)
  qed
  show "vmap k' d i' j' = vmap k d i' j'" if "i' < 1024" "j' < 1024"
  proof (cases "i' = i")
    case True
    then show ?thesis using ed [OF i] new eo [OF t(1) td that(2)] absent by (simp add: vmap_def)
  next
    case False
    then show ?thesis using ed [OF that(1)] eo [OF pt_okD(2) [OF ok that(1)] pt_okD(3) [OF ok that(1)] that(2)] tnew [OF that(1)]
      by (simp add: vmap_def)
  qed
qed

subsection \<open>Walking and mapping\<close>

lemma vm_okD:
  assumes "vm_ok k d vs"
  shows "pt_ok k d" and "pages_rep k vs" and "set vs \<inter> pt_pages k d = {}"
  using assms by (simp_all add: vm_ok_def)

lemma rd32_pde:
  assumes "pt_ok k d"
  shows "rd32 k (d + 4 * PDX va) = ent k d (unat (PDX va))"
  by (simp add: rd32_def ent_def unat_entry [OF pt_okD(1) [OF assms] unat_index(1)])

lemma table_of_pde: "p2v (PTE_ADDR w) = table w"
  by (simp add: table_def)

lemma walk_present:
  assumes ok: "pt_ok k d" and pres: "present (ent k d (unat (PDX va)))"
  shows "walkpgdir d va alloc k = (table (ent k d (unat (PDX va))) + 4 * PTX va, k)"
  using pres by (simp add: walkpgdir_def rd32_pde [OF ok] present_def table_of_pde)

lemma entry_address:
  assumes ok: "pt_ok k d" and pres: "present (ent k d (unat (PDX va)))"
  shows "table (ent k d (unat (PDX va))) + 4 * PTX va \<noteq> 0"
    and "rd32 k (table (ent k d (unat (PDX va))) + 4 * PTX va) = vlookup k d va"
    and "unat (table (ent k d (unat (PDX va))) + 4 * PTX va) = unat (table (ent k d (unat (PDX va)))) + 4 * unat (PTX va)"
proof -
  note t = pt_okD(2) [OF ok unat_index(1) pres]
  show u: "unat (table (ent k d (unat (PDX va))) + 4 * PTX va) = unat (table (ent k d (unat (PDX va)))) + 4 * unat (PTX va)"
    by (rule unat_entry [OF t unat_index(2)])
  have "0 < unat (table (ent k d (unat (PDX va))))" using t by (simp add: page_ok_bounds)
  then have "0 < unat (table (ent k d (unat (PDX va))) + 4 * PTX va)" unfolding u by simp
  then show "table (ent k d (unat (PDX va))) + 4 * PTX va \<noteq> 0" by force
  show "rd32 k (table (ent k d (unat (PDX va))) + 4 * PTX va) = vlookup k d va"
    unfolding rd32_def u using pres by (simp add: vlookup_def vmap_def ent_def)
qed

text \<open>A walk without allocation finds the entry the page resolves to, or none.\<close>

lemma walk_lookup:
  assumes ok: "pt_ok k d"
  shows "fst (walkpgdir d va False k) = 0 \<Longrightarrow> vlookup k d va = 0"
    and "fst (walkpgdir d va False k) \<noteq> 0 \<Longrightarrow> rd32 k (fst (walkpgdir d va False k)) = vlookup k d va"
    and "fst (walkpgdir d va False k) = 0 \<longleftrightarrow> \<not> present (ent k d (unat (PDX va)))"
proof -
  have none: "fst (walkpgdir d va False k) = 0" "vlookup k d va = 0" if "\<not> present (ent k d (unat (PDX va)))"
    using that by (simp_all add: walkpgdir_def rd32_pde [OF ok] present_def vlookup_def vmap_def)
  show zero: "fst (walkpgdir d va False k) = 0 \<longleftrightarrow> \<not> present (ent k d (unat (PDX va)))"
    using none(1) walk_present [OF ok] entry_address(1) [OF ok] by auto
  show "fst (walkpgdir d va False k) = 0 \<Longrightarrow> vlookup k d va = 0" using zero none(2) by simp
  show "fst (walkpgdir d va False k) \<noteq> 0 \<Longrightarrow> rd32 k (fst (walkpgdir d va False k)) = vlookup k d va"
    using zero walk_present [OF ok] entry_address(2) [OF ok] by simp
qed

text \<open>
  A walk with allocation returns null only when no page is left; otherwise there is a table
  for the page afterwards and nothing resolves differently.
\<close>

lemma walk_alloc:
  assumes ok: "vm_ok k d vs" and walk: "walkpgdir d va True k = (pte, k')"
  shows "if pte = 0 then vs = [] \<and> k' = k
    else \<exists>vs'. vm_ok k' d vs' \<and> set vs' \<subseteq> set vs \<and> length vs \<le> Suc (length vs') \<and> present (ent k' d (unat (PDX va))) \<and>
      pte = table (ent k' d (unat (PDX va))) + 4 * PTX va \<and> same_map k' k d"
proof (cases "present (ent k d (unat (PDX va)))")
  case True
  with walk_present [OF vm_okD(1) [OF ok]] walk entry_address(1) [OF vm_okD(1) [OF ok]] ok
  show ?thesis by (auto simp: same_map_def)
next
  case False
  note pt = vm_okD(1) [OF ok]
  show ?thesis
  proof (cases vs)
    case Nil
    then have "kalloc k = (0, k)" using kalloc_rep [of k vs] vm_okD(2) [OF ok] by simp
    then show ?thesis using walk False Nil by (auto simp: walkpgdir_def rd32_pde [OF pt] present_def)
  next
    case (Cons t ws)
    then obtain k1 where k1: "kalloc k = (t, k1)" "pages_rep k1 ws" "km_mem k1 = km_mem k" "km_end k1 = km_end k"
      using kalloc_rep [of k vs] vm_okD(2) [OF ok] kalloc_mem [of k] by (cases "kalloc k") auto
    have t: "page_ok (km_end k) t" "t \<noteq> 0" "t \<notin> pt_pages k d" "t \<notin> set ws"
      using vm_okD(2,3) [OF ok] Cons page_nonzero by (auto simp: pages_rep_def)
    have pt1: "pt_ok k1 d" "pt_pages k1 d = pt_pages k d" "i < 1024 \<Longrightarrow> j < 1024 \<Longrightarrow> vmap k1 d i j = vmap k d i j" for i j
      using pt_frame [OF pt, of k1] k1(3,4) by simp_all
    have ent1: "ent k1 d i = ent k d i" for i by (simp add: ent_def k1(3))
    let ?k = "wr32 (d + 4 * PDX va) (v2p t OR PTE_P OR PTE_W OR PTE_U) (zero_page t k1)"
    have k'eq: "?k = (let k = zero_page t k1 in k\<lparr>km_mem := store32 (km_mem k) (unat d + 4 * unat (PDX va)) (v2p t OR PTE_P OR PTE_W OR PTE_U)\<rparr>)"
      by (simp add: wr32_def Let_def unat_entry [OF pt_okD(1) [OF pt] unat_index(1)])
    have new: "pt_ok ?k d" "pt_pages ?k d = insert t (pt_pages k1 d)" "present (ent ?k d (unat (PDX va)))"
      "table (ent ?k d (unat (PDX va))) = t" "i < 1024 \<Longrightarrow> j < 1024 \<Longrightarrow> vmap ?k d i j = vmap k1 d i j" for i j
      using pt_new_table [OF pt1(1) unat_index(1) _ _ _ k'eq] False t(1,3) k1(4) pt1(2) ent1 by simp_all
    have pte: "pte = t + 4 * PTX va" "k' = ?k"
      using walk False k1(1) t(2) by (simp_all add: walkpgdir_def rd32_pde [OF pt] present_def Let_def)
    have "unat (t + 4 * PTX va) \<noteq> 0"
      using unat_entry [OF t(1) unat_index(2)] t(1) by (simp add: page_ok_bounds)
    then have "pte \<noteq> 0" unfolding pte by force
    moreover have "pages_rep ?k ws"
    proof -
      have "km_mem ?k x = km_mem k1 x" if "v \<in> set ws" "x \<in> page_bytes v" for v x
      proof -
        have v: "page_ok (km_end k) v" "v \<noteq> t" "v \<noteq> d"
          using that(1) vm_okD(2,3) [OF ok] Cons t(4) by (auto simp: pages_rep_def pt_pages_def)
        have "x \<notin> page_bytes t" using page_sep [OF v(1) t(1) v(2)] that(2) by auto
        moreover have "x \<notin> page_bytes d" using page_sep [OF v(1) pt_okD(1) [OF pt] v(3)] that(2) by auto
        then have "x < unat d + 4 * unat (PDX va) \<or> unat d + 4 * unat (PDX va) + 4 \<le> x"
          using unat_index(1) [of va] by (auto simp: page_bytes_def)
        ultimately show ?thesis unfolding k'eq
          by (auto simp: Let_def zero_page_def memset_wr page_bytes_def PGSIZE_def store32_other wr_def)
      qed
      then show ?thesis using pages_rep_frame [OF k1(2), of "km_mem ?k"]
        by (auto simp: pages_rep_def wr32_def zero_page_def)
    qed
    ultimately show ?thesis
      using new pt1 k1(4) vm_okD(3) [OF ok] Cons t(4) unfolding pte
      by (auto simp: vm_ok_def same_map_def wr32_def zero_page_def intro!: exI [of _ ws])
  qed
qed

text \<open>The page of an address: its directory and table index together are its page number.\<close>

lemma unat_PDX: "unat (PDX va) = unat va div 0x400000"
proof -
  have "PDX va = take_bit 10 (drop_bit 22 va)" by (simp add: PDX_def take_bit_eq_mask mask_eq_exp_minus_1)
  moreover have "unat va div 0x400000 < 1024" using unsigned_less [of va, where 'a = nat] by simp
  ultimately show ?thesis by (simp add: unsigned_take_bit_eq unsigned_drop_bit_eq take_bit_eq_mod drop_bit_eq_div unat_mod unat_div)
qed

lemma unat_PTX: "unat (PTX va) = unat va div 4096 mod 1024"
proof -
  have "PTX va = take_bit 10 (drop_bit 12 va)" by (simp add: PTX_def take_bit_eq_mask mask_eq_exp_minus_1)
  then show ?thesis by (simp add: unsigned_take_bit_eq unsigned_drop_bit_eq take_bit_eq_mod drop_bit_eq_div unat_mod unat_div)
qed

lemma div_4M: "x div 0x400000 = x div 4096 div (1024 :: nat)"
  by (simp add: div_mult2_eq [symmetric])

lemma same_page:
  assumes "unat a = 4096 * n"
  shows "unat (PDX va) = unat (PDX a) \<and> unat (PTX va) = unat (PTX a) \<longleftrightarrow> unat a \<le> unat va \<and> unat va < unat a + 4096"
proof -
  have eq: "x div 1024 = y div 1024 \<and> x mod 1024 = y mod 1024 \<longleftrightarrow> x = y" for x y :: nat
    by (metis mult_div_mod_eq)
  have "unat (PDX va) = unat (PDX a) \<and> unat (PTX va) = unat (PTX a) \<longleftrightarrow> unat va div 4096 = unat a div 4096"
    unfolding unat_PDX unat_PTX div_4M by (rule eq)
  also have "\<dots> \<longleftrightarrow> unat va div 4096 = n" using assms by simp
  also have "\<dots> \<longleftrightarrow> unat a \<le> unat va \<and> unat va < unat a + 4096" using assms by auto
  finally show ?thesis .
qed

lemma set_entry:
  assumes ok: "vm_ok k d vs" and pres: "present (ent k d (unat (PDX a)))" and a: "unat a = 4096 * n"
    and k'_def: "k' = wr32 (table (ent k d (unat (PDX a))) + 4 * PTX a) w k"
  shows "vm_ok k' d vs" and "km_end k' = km_end k"
    and "vlookup k' d va = (if unat a \<le> unat va \<and> unat va < unat a + 4096 then w else vlookup k d va)"
    and "pt_pages k' d = pt_pages k d"
proof -
  let ?t = "table (ent k d (unat (PDX a)))"
  note pt = vm_okD(1) [OF ok]
  have k': "k' = k\<lparr>km_mem := store32 (km_mem k) (unat ?t + 4 * unat (PTX a)) w\<rparr>"
    by (simp add: k'_def wr32_def entry_address(3) [OF pt pres])
  note set = pt_set_entry [OF pt unat_index pres k']
  have "store32 (km_mem k) (unat ?t + 4 * unat (PTX a)) w x = km_mem k x" if "v \<in> set vs" "x \<in> page_bytes v" for v x
  proof -
    have "?t \<in> pt_pages k d" using pres unat_index by (auto simp: pt_pages_def)
    then have v: "page_ok (km_end k) v" "v \<noteq> ?t" using that(1) vm_okD(2,3) [OF ok] by (auto simp: pages_rep_def)
    have "x \<notin> page_bytes ?t" using page_sep [OF v(1) pt_okD(2) [OF pt unat_index(1) pres] v(2)] that(2) by auto
    then show ?thesis using unat_index(2) [of a] by (intro store32_other) (auto simp: page_bytes_def)
  qed
  then have "pages_rep k' vs" unfolding k' by (rule pages_rep_frame [OF vm_okD(2) [OF ok]])
  then show "vm_ok k' d vs" using set(1,2) vm_okD(3) [OF ok] by (simp add: vm_ok_def)
  show "km_end k' = km_end k" by (simp add: k')
  show "pt_pages k' d = pt_pages k d" by (rule set(2))
  show "vlookup k' d va = (if unat a \<le> unat va \<and> unat va < unat a + 4096 then w else vlookup k d va)"
    unfolding vlookup_def set(3) [OF unat_index] same_page [OF a] by (rule refl)
qed

lemma same_map_lookup: "same_map k' k d \<Longrightarrow> vlookup k' d va = vlookup k d va"
  using unat_index by (simp add: same_map_def vlookup_def)

text \<open>What the first \<open>m\<close> rounds of \<open>mappages\<close> do to the map.\<close>

definition mapped :: "kmem \<Rightarrow> kmem \<Rightarrow> u32 \<Rightarrow> u32 \<Rightarrow> nat \<Rightarrow> u32 \<Rightarrow> u32 \<Rightarrow> bool" where
  "mapped k' k d a m pa perm \<longleftrightarrow> (\<forall>va. vlookup k' d va =
     (if unat a \<le> unat va \<and> unat va < unat a + 4096 * m
      then (pa + (PGROUNDDOWN va - a)) OR perm OR PTE_P else vlookup k d va))"

lemma PGROUNDDOWN_page:
  assumes "unat a = 4096 * n" and "unat a \<le> unat va" and "unat va < unat a + 4096"
  shows "PGROUNDDOWN va = a"
proof -
  have "unat (take_bit 12 va) = unat va mod 4096" by (simp add: unsigned_take_bit_eq take_bit_eq_mod unat_mod)
  also have "\<dots> = unat va - unat a"
  proof -
    define r where "r = unat va - unat a"
    then have "unat va = 4096 * n + r" "r < 4096" using assms by simp_all
    then have "unat va mod 4096 = r" by simp
    then show ?thesis by (simp only: r_def)
  qed
  finally have "take_bit 12 va = va - a" using assms(2) by (simp add: word_unat_eq_iff unat_sub word_le_nat_alt)
  then show ?thesis by (simp add: PGROUNDDOWN_eq)
qed

lemma mapped_Suc:
  assumes a: "unat a = 4096 * n" "unat (a + PGSIZE) = unat a + 4096"
    and k1: "\<And>va. vlookup k1 d va = (if unat a \<le> unat va \<and> unat va < unat a + 4096 then pa OR perm OR PTE_P else vlookup k d va)"
    and m: "mapped k' k1 d (a + PGSIZE) m (pa + PGSIZE) perm"
  shows "mapped k' k d a (Suc m) pa perm"
  unfolding mapped_def
proof (intro allI)
  fix va
  have "vlookup k' d va = (if unat (a + PGSIZE) \<le> unat va \<and> unat va < unat (a + PGSIZE) + 4096 * m
      then (pa + PGSIZE + (PGROUNDDOWN va - (a + PGSIZE))) OR perm OR PTE_P else vlookup k1 d va)"
    using m by (simp add: mapped_def)
  then show "vlookup k' d va = (if unat a \<le> unat va \<and> unat va < unat a + 4096 * Suc m
      then (pa + (PGROUNDDOWN va - a)) OR perm OR PTE_P else vlookup k d va)"
    using PGROUNDDOWN_page [OF a(1), of va] unfolding a(2) k1 by (auto simp: algebra_simps)
qed

lemma map_round:
  assumes ok: "vm_ok k d vs" and a: "unat a = 4096 * p" and walk: "walkpgdir d a True k = (pte, k1)"
  shows "pte = 0 \<Longrightarrow> vs = [] \<and> k1 = k"
    and "pte \<noteq> 0 \<Longrightarrow> rd32 k1 pte = vlookup k d a"
    and "pte \<noteq> 0 \<Longrightarrow> \<exists>vs'. vm_ok (wr32 pte w k1) d vs' \<and> set vs' \<subseteq> set vs \<and> length vs \<le> Suc (length vs') \<and> km_end (wr32 pte w k1) = km_end k \<and>
      (\<forall>va. vlookup (wr32 pte w k1) d va = (if unat a \<le> unat va \<and> unat va < unat a + 4096 then w else vlookup k d va))"
proof -
  note walked = walk_alloc [OF ok walk]
  show "pte = 0 \<Longrightarrow> vs = [] \<and> k1 = k" using walked by simp
  assume "pte \<noteq> 0"
  then obtain vs' where vs': "vm_ok k1 d vs'" "set vs' \<subseteq> set vs" "present (ent k1 d (unat (PDX a)))"
    "pte = table (ent k1 d (unat (PDX a))) + 4 * PTX a" "same_map k1 k d" "length vs \<le> Suc (length vs')"
    using walked by auto
  note look = same_map_lookup [OF vs'(5)]
  show "rd32 k1 pte = vlookup k d a"
    unfolding vs'(4) using entry_address(2) [OF vm_okD(1) [OF vs'(1)] vs'(3)] look by simp
  have "wr32 pte w k1 = wr32 (table (ent k1 d (unat (PDX a))) + 4 * PTX a) w k1" by (simp only: vs'(4))
  note set = set_entry [OF vs'(1,3) a this]
  have "km_end k1 = km_end k" using vs'(5) by (simp add: same_map_def)
  then show "\<exists>vs'. vm_ok (wr32 pte w k1) d vs' \<and> set vs' \<subseteq> set vs \<and> length vs \<le> Suc (length vs') \<and> km_end (wr32 pte w k1) = km_end k \<and>
      (\<forall>va. vlookup (wr32 pte w k1) d va = (if unat a \<le> unat va \<and> unat va < unat a + 4096 then w else vlookup k d va))"
    using set(1,2) vs'(2,6) by (intro exI [of _ vs']) (simp add: set(3) look)
qed

text \<open>The possible outcomes of mapping \<open>Suc n\<close> pages from \<open>a\<close> on.\<close>

definition map_outcome :: "u32 \<Rightarrow> u32 \<Rightarrow> nat \<Rightarrow> u32 \<Rightarrow> u32 \<Rightarrow> kmem \<Rightarrow> u32 list \<Rightarrow> (int \<times> kmem) kres \<Rightarrow> bool" where
  "map_outcome d a n pa perm k vs r =
     (case r of
        Inl e \<Rightarrow> e = Panic ''remap'' \<and> (\<exists>va. unat a \<le> unat va \<and> unat va < unat a + 4096 * Suc n \<and> present (vlookup k d va))
      | Inr (c, k') \<Rightarrow> \<exists>vs' m. vm_ok k' d vs' \<and> set vs' \<subseteq> set vs \<and> km_end k' = km_end k \<and> mapped k' k d a m pa perm \<and>
          (c = 0 \<and> m = Suc n \<or> c = -1 \<and> m \<le> n \<and> vs' = [] \<and> length vs \<le> m))"

lemma mapped_0: "mapped k k d a 0 pa perm"
  by (auto simp: mapped_def)

lemma mapped_1:
  assumes a: "unat a = 4096 * n"
    and k1: "\<And>va. vlookup k1 d va = (if unat a \<le> unat va \<and> unat va < unat a + 4096 then pa OR perm OR PTE_P else vlookup k d va)"
  shows "mapped k1 k d a (Suc 0) pa perm"
  using PGROUNDDOWN_page [OF a] by (simp add: mapped_def k1)

lemma map_outcome_step:
  assumes a: "unat a = 4096 * p" "unat (a + PGSIZE) = unat a + 4096" and vs: "set vs' \<subseteq> set vs" "length vs \<le> Suc (length vs')" and e: "km_end k1 = km_end k"
    and k1: "\<And>va. vlookup k1 d va = (if unat a \<le> unat va \<and> unat va < unat a + 4096 then pa OR perm OR PTE_P else vlookup k d va)"
    and rest: "map_outcome d (a + PGSIZE) n (pa + PGSIZE) perm k1 vs' r"
  shows "map_outcome d a (Suc n) pa perm k vs r"
proof (cases r)
  case (Inl x)
  then obtain va where va: "x = Panic ''remap''" "unat a + 4096 \<le> unat va" "unat va < unat a + 4096 + 4096 * Suc n" "present (vlookup k1 d va)"
    using rest a(2) by (auto simp: map_outcome_def)
  then have "present (vlookup k d va)" using k1 [of va] by simp
  then show ?thesis using va Inl by (auto simp: map_outcome_def intro!: exI [of _ va])
next
  case (Inr y)
  obtain c k' where y: "y = (c, k')" by (cases y)
  then obtain ws m where ws: "vm_ok k' d ws" "set ws \<subseteq> set vs'" "km_end k' = km_end k1"
    "mapped k' k1 d (a + PGSIZE) m (pa + PGSIZE) perm" "c = 0 \<and> m = Suc n \<or> c = -1 \<and> m \<le> n \<and> ws = [] \<and> length vs' \<le> m"
    using rest Inr by (auto simp: map_outcome_def)
  have "mapped k' k d a (Suc m) pa perm" by (rule mapped_Suc [OF a k1 ws(4)])
  then have "vm_ok k' d ws \<and> set ws \<subseteq> set vs \<and> km_end k' = km_end k \<and> mapped k' k d a (Suc m) pa perm \<and>
      (c = 0 \<and> Suc m = Suc (Suc n) \<or> c = -1 \<and> Suc m \<le> Suc n \<and> ws = [] \<and> length vs \<le> Suc m)"
    using ws vs e by auto
  then show ?thesis unfolding map_outcome_def Inr y by auto
qed

lemma mappages_stop:
  assumes ok: "vm_ok k d vs" and a: "unat a = 4096 * p" and walk: "walkpgdir d a True k = (pte, k1)"
    and stop: "pte = 0 \<or> present (vlookup k d a)"
  shows "\<exists>r. mappages_loop d a lst pa perm k = Some r \<and> map_outcome d a n pa perm k vs r"
proof (cases "pte = 0")
  case True
  have e: "vs = []" "k1 = k" using map_round(1) [OF ok a walk True] by simp_all
  have "mappages_loop d a lst pa perm k = Some (Inr (-1, k))"
    using True walk e(2) by (subst mappages_loop.simps) simp
  moreover have "vm_ok k d [] \<and> mapped k k d a 0 pa perm" using ok e(1) mapped_0 by simp
  then have "map_outcome d a n pa perm k vs (Inr (-1, k))" unfolding map_outcome_def e(1) by auto
  ultimately show ?thesis by blast
next
  case False
  then have "mappages_loop d a lst pa perm k = Some (Inl (Panic ''remap''))"
    using walk stop map_round(2) [OF ok a walk False] by (subst mappages_loop.simps) (simp add: present_def)
  moreover have "map_outcome d a n pa perm k vs (Inl (Panic ''remap''))"
    using stop False by (auto simp: map_outcome_def intro!: exI [of _ a])
  ultimately show ?thesis by blast
qed

lemma mappages_last:
  assumes ok: "vm_ok k d vs" and a: "unat a = 4096 * p" and walk: "walkpgdir d a True k = (pte, k1)"
    and go: "\<not> (pte = 0 \<or> present (vlookup k d a))"
  shows "\<exists>r. mappages_loop d a a pa perm k = Some r \<and> map_outcome d a 0 pa perm k vs r"
proof -
  let ?k = "wr32 pte (pa OR perm OR PTE_P) k1"
  obtain ws where ws: "vm_ok ?k d ws" "set ws \<subseteq> set vs" "length vs \<le> Suc (length ws)" "km_end ?k = km_end k"
    "\<And>va. vlookup ?k d va = (if unat a \<le> unat va \<and> unat va < unat a + 4096 then pa OR perm OR PTE_P else vlookup k d va)"
    using map_round(3) [OF ok a walk] go by blast
  have "mappages_loop d a a pa perm k = Some (Inr (0, ?k))"
    using go walk map_round(2) [OF ok a walk] by (subst mappages_loop.simps) (simp add: present_def)
  moreover have "map_outcome d a 0 pa perm k vs (Inr (0, ?k))"
    unfolding map_outcome_def using ws(1,2,4) mapped_1 [OF a ws(5)] by auto
  ultimately show ?thesis by blast
qed

lemma mappages_loop_ok:
  assumes "vm_ok k d vs" and "unat a = 4096 * p" and "unat lst = unat a + 4096 * n"
  shows "\<exists>r. mappages_loop d a lst pa perm k = Some r \<and> map_outcome d a n pa perm k vs r"
  using assms
proof (induction n arbitrary: a p k vs pa)
  case (0 a p k vs pa)
  have lst: "lst = a" using 0(3) by (simp add: word_unat_eq_iff)
  obtain pte k1 where walk: "walkpgdir d a True k = (pte, k1)" by fastforce
  show ?case using mappages_stop [OF 0(1,2) walk] mappages_last [OF 0(1,2) walk] unfolding lst by blast
next
  case (Suc n a p k vs pa)
  have a1: "unat (a + PGSIZE) = unat a + 4096"
    using Suc.prems(3) unsigned_less [of lst, where 'a = nat] by (simp add: PGSIZE_def unat_word_ariths)
  have ne: "a \<noteq> lst" using Suc.prems(3) by auto
  obtain pte k1 where walk: "walkpgdir d a True k = (pte, k1)" by fastforce
  note round = map_round [OF Suc.prems(1,2) walk]
  show ?case
  proof (cases "pte = 0 \<or> present (vlookup k d a)")
    case True
    then show ?thesis by (rule mappages_stop [OF Suc.prems(1,2) walk])
  next
    case False
    let ?k = "wr32 pte (pa OR perm OR PTE_P) k1"
    obtain ws where ws: "vm_ok ?k d ws" "set ws \<subseteq> set vs" "length vs \<le> Suc (length ws)" "km_end ?k = km_end k"
      "\<And>va. vlookup ?k d va = (if unat a \<le> unat va \<and> unat va < unat a + 4096 then pa OR perm OR PTE_P else vlookup k d va)"
      using round(3) False by blast
    obtain r where r: "mappages_loop d (a + PGSIZE) lst (pa + PGSIZE) perm ?k = Some r"
      "map_outcome d (a + PGSIZE) n (pa + PGSIZE) perm ?k ws r"
      using Suc.IH [OF ws(1), of "a + PGSIZE" "Suc p"] a1 Suc.prems(2,3) by auto
    have "mappages_loop d a lst pa perm k = Some r"
      using False r(1) ne walk round(2) by (subst mappages_loop.simps) (simp add: present_def)
    then show ?thesis using map_outcome_step [OF Suc.prems(2) a1 ws(2,3,4,5) r(2)] by blast
  qed
qed

subsection \<open>Copying out\<close>

lemma um_okD:
  assumes "um_ok k d"
  shows "pt_ok k d"
    and "user (vlookup k d va) \<Longrightarrow> page_ok (km_end k) (table (vlookup k d va))"
    and "user (vlookup k d va) \<Longrightarrow> table (vlookup k d va) \<notin> pt_pages k d"
    and "user (vlookup k d va) \<Longrightarrow> user (vlookup k d vb) \<Longrightarrow>
        table (vlookup k d va) = table (vlookup k d vb) \<Longrightarrow> unat va div 4096 = unat vb div 4096"
  using assms unfolding um_ok_def by blast+

lemma vlookup_page:
  assumes "unat va div 4096 = unat vb div 4096"
  shows "vlookup k d va = vlookup k d vb"
  unfolding vlookup_def unat_PDX unat_PTX div_4M assms by (rule refl)

lemma unat_PGROUNDDOWN: "unat (PGROUNDDOWN va) = 4096 * (unat va div 4096)"
proof -
  have "unat (take_bit 12 va) = unat va mod 4096" by (simp add: unsigned_take_bit_eq take_bit_eq_mod unat_mod)
  moreover have "take_bit 12 va \<le> va"
    by (simp add: word_le_nat_alt unsigned_take_bit_eq take_bit_eq_mod unat_mod)
  ultimately show ?thesis
    by (simp add: PGROUNDDOWN_eq unat_sub minus_mod_eq_mult_div)
qed

lemma uva2ka_user:
  assumes "pt_ok k d"
  shows "uva2ka d va k = Inr pa \<Longrightarrow> pa \<noteq> 0 \<Longrightarrow> user (vlookup k d va) \<and> pa = table (vlookup k d va)"
    and "uva2ka d va k = Inr 0 \<Longrightarrow> user (vlookup k d va) \<Longrightarrow> table (vlookup k d va) = 0"
  using walk_lookup(1,2) [OF assms, of va]
  by (auto simp: uva2ka_def Let_def user_def present_def table_def split: if_splits)

text \<open>Writing into one user page: only its bytes change, and no translation does.\<close>

lemma user_write:
  assumes ok: "um_ok k d" and us: "user (vlookup k d va)" and n: "unat va mod 4096 + length bs \<le> 4096"
    and k': "k' = k\<lparr>km_mem := wr (km_mem k) (upos k d va) bs\<rparr>"
  shows "um_ok k' d" and "vlookup k' d = vlookup k d"
proof -
  let ?t = "table (vlookup k d va)"
  have "km_mem k' x = km_mem k x" if "v \<in> pt_pages k d" "x \<in> page_bytes v" for v x
  proof -
    have "v \<noteq> ?t" using um_okD(3) [OF ok us] that(1) by blast
    then have "x \<notin> page_bytes ?t"
      using page_sep [OF pt_pages_ok [OF um_okD(1) [OF ok] that(1)] um_okD(2) [OF ok us]] that(2) by auto
    then have "x < upos k d va \<or> upos k d va + length bs \<le> x"
      using n unfolding page_bytes_def upos_def atLeastLessThan_iff by linarith
    then show ?thesis unfolding k' by (simp add: wr_other)
  qed
  moreover have e: "km_end k' = km_end k" by (simp add: k')
  ultimately have frame: "pt_ok k' d" "pt_pages k' d = pt_pages k d"
    "i < 1024 \<Longrightarrow> j < 1024 \<Longrightarrow> vmap k' d i j = vmap k d i j" for i j
    using pt_frame [OF um_okD(1) [OF ok], of k'] by blast+
  show v: "vlookup k' d = vlookup k d" unfolding vlookup_def by (rule ext) (rule frame(3) [OF unat_index])
  have "um_ok k' d \<longleftrightarrow> um_ok k d"
    unfolding um_ok_def v frame(2) e using frame(1) um_okD(1) [OF ok] by simp
  then show "um_ok k' d" using ok by simp
qed

lemma copyout_chunk:
  shows "unat va mod 4096 + copyout_n va buf \<le> 4096" and "copyout_n va buf \<le> length buf"
    and "copyout_n va buf < length buf \<Longrightarrow> unat va mod 4096 + copyout_n va buf = 4096"
proof -
  define r where "r = unat va mod 4096"
  have r: "r < 4096" by (simp add: r_def)
  have off: "unat (va - PGROUNDDOWN va) = r"
    by (simp add: r_def page_offset(1) unsigned_take_bit_eq take_bit_eq_mod unat_mod)
  then have "unat (PGSIZE - (va - PGROUNDDOWN va)) = 4096 - r"
    using r unat_sub [of "va - PGROUNDDOWN va" PGSIZE] by (simp add: PGSIZE_def word_le_nat_alt)
  then have n: "copyout_n va buf = min (4096 - r) (length buf)" by (simp add: copyout_n_def)
  show "unat va mod 4096 + copyout_n va buf \<le> 4096" "copyout_n va buf \<le> length buf"
    "copyout_n va buf < length buf \<Longrightarrow> unat va mod 4096 + copyout_n va buf = 4096"
    unfolding r_def [symmetric] n using r by linarith+
qed

text \<open>What \<open>copyout\<close> may do to memory, and what it has done when it returns 0.\<close>

definition copied :: "u32 \<Rightarrow> u32 \<Rightarrow> u8 list \<Rightarrow> kmem \<Rightarrow> kmem \<Rightarrow> bool" where
  "copied d va buf k k' \<longleftrightarrow> (\<forall>va'. unat va \<le> unat va' \<longrightarrow> unat va' < unat va + length buf \<longrightarrow>
     user (vlookup k d va') \<and> km_mem k' (upos k d va') = buf ! (unat va' - unat va))"

definition copy_frame :: "u32 \<Rightarrow> u32 \<Rightarrow> u8 list \<Rightarrow> kmem \<Rightarrow> kmem \<Rightarrow> bool" where
  "copy_frame d va buf k k' \<longleftrightarrow> (\<forall>x. km_mem k' x = km_mem k x \<or>
     (\<exists>va'. unat va \<le> unat va' \<and> unat va' < unat va + length buf \<and> user (vlookup k d va') \<and> x = upos k d va'))"

lemma same_chunk:
  assumes "unat va \<le> unat va'" and "unat va' < unat va + m" and "unat va mod 4096 + m \<le> 4096"
  shows "unat va' div 4096 = unat va div 4096" and "upos k d va' = upos k d va + (unat va' - unat va)"
proof -
  define q r x where "q = unat va div 4096" and "r = unat va mod 4096" and "x = unat va' - unat va"
  have "unat va = 4096 * q + r" unfolding q_def r_def by simp
  then have eq: "unat va' = 4096 * q + (r + x)" "r + x < 4096" using assms unfolding r_def [symmetric] x_def by linarith+
  then have "unat va' div 4096 = q" "unat va' mod 4096 = r + x" by simp_all
  then show d: "unat va' div 4096 = unat va div 4096" and "upos k d va' = upos k d va + (unat va' - unat va)"
    using vlookup_page [of va' va k d] by (simp_all add: upos_def q_def r_def x_def)
qed

lemma chunk_position:
  assumes ok: "um_ok k d" and us: "user (vlookup k d va)"
  shows "unat (table (vlookup k d va) + (va - PGROUNDDOWN va)) = upos k d va"
proof -
  have "unat (va - PGROUNDDOWN va) = unat va mod 4096"
    by (simp add: page_offset(1) unsigned_take_bit_eq take_bit_eq_mod unat_mod)
  moreover have "unat va mod 4096 < 4096" by simp
  moreover have "unat (table (vlookup k d va)) < 0x8E000000"
    using um_okD(2) [OF ok us] by (simp add: page_ok_bounds)
  ultimately show ?thesis by (simp add: upos_def unat_word_ariths)
qed

lemma upos_inj:
  assumes ok: "um_ok k d" and us: "user (vlookup k d va)" "user (vlookup k d vb)" and eq: "upos k d va = upos k d vb"
  shows "unat va div 4096 = unat vb div 4096"
proof -
  have in_page: "upos k d v \<in> page_bytes (table (vlookup k d v))" for v by (simp add: upos_def page_bytes_def)
  have "table (vlookup k d va) = table (vlookup k d vb)"
    using page_sep [OF um_okD(2) [OF ok us(1)] um_okD(2) [OF ok us(2)]] in_page [of va] in_page [of vb] eq by auto
  then show ?thesis by (rule um_okD(4) [OF ok us])
qed

lemma chunk_no_wrap:
  assumes "unat (va :: u32) mod 4096 + n \<le> 4096"
  shows "unat va + n \<le> 2 ^ 32"
proof -
  define q r where "q = unat va div 4096" and "r = unat va mod 4096"
  have "unat va = 4096 * q + r" unfolding q_def r_def by simp
  moreover have "q \<le> 1048575" unfolding q_def using unsigned_less [of va, where 'a = nat] by simp
  ultimately show ?thesis using assms unfolding r_def [symmetric] by simp
qed

text \<open>One round followed by the rest.\<close>

lemma copy_step:
  assumes ok: "um_ok k d" and us: "user (vlookup k d va)"
    and n: "unat va mod 4096 + n \<le> 4096" "n \<le> length buf"
    and k1: "k1 = k\<lparr>km_mem := wr (km_mem k) (upos k d va) (take n buf)\<rparr>"
    and va1: "drop n buf \<noteq> [] \<Longrightarrow> unat va1 = unat va + n \<and> unat va1 mod 4096 = 0"
    and frame: "copy_frame d va1 (drop n buf) k1 k'"
  shows "copy_frame d va buf k k'" and "copied d va1 (drop n buf) k1 k' \<Longrightarrow> copied d va buf k k'"
proof -
  have len: "length (take n buf) = n" using n(2) by simp
  have v1: "vlookup k1 d = vlookup k d" using user_write(2) [OF ok us _ k1] n(1) len by simp
  then have up: "upos k1 d = upos k d" by (simp add: fun_eq_iff upos_def)
  have later: "unat va1 = unat va + n" "length (drop n buf) = length buf - n" if "unat va' < unat va1 + length (drop n buf)" "unat va1 \<le> unat va'" for va'
    using va1 that by fastforce+
  show "copy_frame d va buf k k'"
    unfolding copy_frame_def
  proof (intro allI)
    fix x
    consider "km_mem k' x = km_mem k1 x"
      | va' where "unat va1 \<le> unat va'" "unat va' < unat va1 + length (drop n buf)" "user (vlookup k d va')" "x = upos k d va'"
      using frame unfolding copy_frame_def v1 up by blast
    then show "km_mem k' x = km_mem k x \<or>
        (\<exists>va'. unat va \<le> unat va' \<and> unat va' < unat va + length buf \<and> user (vlookup k d va') \<and> x = upos k d va')"
    proof cases
      case 1
      show ?thesis
      proof (cases "upos k d va \<le> x \<and> x < upos k d va + n")
        case True
        define y where "y = x - upos k d va"
        then have y: "y < n" "x = upos k d va + y" using True by linarith+
        let ?va = "va + of_nat y"
        have "unat va + n \<le> 2 ^ 32" using n(1) by (rule chunk_no_wrap)
        then have u: "unat ?va = unat va + y" using y(1) by (simp add: unat_word_ariths unat_of_nat)
        then have in_chunk: "unat va \<le> unat ?va" "unat ?va < unat va + n" using y(1) by simp_all
        have "upos k d ?va = x" unfolding same_chunk(2) [OF in_chunk n(1)] using u y(2) by simp
        moreover have "vlookup k d ?va = vlookup k d va" by (rule vlookup_page [OF same_chunk(1) [OF in_chunk n(1)]])
        ultimately show ?thesis using in_chunk us n(2) by (intro disjI2 exI [of _ ?va]) simp
      next
        case False
        then have "x < upos k d va \<or> upos k d va + length (take n buf) \<le> x" unfolding len by linarith
        then have "km_mem k1 x = km_mem k x" unfolding k1 by (simp add: wr_other)
        then show ?thesis using 1 by simp
      qed
    next
      case (2 va')
      then have "unat va \<le> unat va'" "unat va' < unat va + length buf" using later [OF 2(2,1)] n(2) by linarith+
      then show ?thesis using 2(3,4) by blast
    qed
  qed
  show "copied d va buf k k'" if rest: "copied d va1 (drop n buf) k1 k'"
    unfolding copied_def
  proof (intro allI impI)
    fix va' :: u32 assume va': "unat va \<le> unat va'" "unat va' < unat va + length buf"
    show "user (vlookup k d va') \<and> km_mem k' (upos k d va') = buf ! (unat va' - unat va)"
    proof (cases "unat va' < unat va + n")
      case True
      note chunk = same_chunk [OF va'(1) True n(1)]
      have us': "user (vlookup k d va')" using us vlookup_page [OF chunk(1)] by simp
      have "km_mem k' (upos k d va') = km_mem k1 (upos k d va')"
      proof (rule ccontr)
        assume "km_mem k' (upos k d va') \<noteq> km_mem k1 (upos k d va')"
        then obtain vb where vb: "unat va1 \<le> unat vb" "unat vb < unat va1 + length (drop n buf)"
          "user (vlookup k d vb)" "upos k d va' = upos k d vb"
          using frame unfolding copy_frame_def v1 up by blast
        have "unat va' div 4096 = unat vb div 4096" by (rule upos_inj [OF ok us' vb(3,4)])
        moreover have "drop n buf \<noteq> []" using vb(1,2) by force
        then have "unat va1 mod 4096 = 0" using va1 by blast
        then obtain q where q: "unat va1 = 4096 * q" by blast
        moreover have "unat va' < unat va1" using True later(1) [OF vb(2,1)] by simp
        moreover have "q \<le> unat vb div 4096" using vb(1) q by (simp add: less_eq_div_iff_mult_less_eq)
        ultimately have "q \<le> unat va' div 4096" "unat va' < 4096 * q" by simp_all
        then show False by (simp add: less_eq_div_iff_mult_less_eq)
      qed
      also have "\<dots> = wr (km_mem k) (upos k d va) (take n buf) (upos k d va + (unat va' - unat va))"
        unfolding k1 chunk(2) by simp
      also have "\<dots> = take n buf ! (unat va' - unat va)"
        by (rule wr_nth) (use True va'(1) len in linarith)
      finally show ?thesis using us' True va'(1) by simp
    next
      case False
      then have va1': "unat va1 = unat va + n" using va1 va'(2) by auto
      then have "user (vlookup k1 d va') \<and> km_mem k' (upos k1 d va') = drop n buf ! (unat va' - unat va1)"
        using rest False va'(2) unfolding copied_def by simp
      moreover have "drop n buf ! (unat va' - unat va1) = buf ! (unat va' - unat va)"
        using False va' va1' n(2) by simp
      ultimately show ?thesis unfolding v1 up by simp
    qed
  qed
qed

lemma copyout_Nil: "copyout d va [] k = Inr (0, k)"
  by (subst copyout.simps) simp

lemma copyout_round:
  "buf \<noteq> [] \<Longrightarrow> copyout d va buf k =
     bindR (uva2ka d (PGROUNDDOWN va) k) (\<lambda>pa0.
       if pa0 = 0 then Inr (-1, k)
       else copyout d (PGROUNDDOWN va + PGSIZE) (drop (copyout_n va buf) buf)
         (k\<lparr>km_mem := wr (km_mem k) (unat (pa0 + (va - PGROUNDDOWN va))) (take (copyout_n va buf) buf)\<rparr>))"
  by (subst copyout.simps) (simp add: Let_def)

definition copy_outcome :: "u32 \<Rightarrow> u32 \<Rightarrow> u8 list \<Rightarrow> kmem \<Rightarrow> (int \<times> kmem) kres \<Rightarrow> bool" where
  "copy_outcome d va buf k r =
     (case r of
        Inl e \<Rightarrow> e = NullDeref \<and> (\<exists>va'. unat va \<le> unat va' \<and> unat va' < unat va + length buf \<and> vlookup k d va' = 0)
      | Inr (c, k') \<Rightarrow> um_ok k' d \<and> vlookup k' d = vlookup k d \<and> copy_frame d va buf k k' \<and>
          (c = 0 \<and> copied d va buf k k' \<or>
           c = -1 \<and> (\<exists>va'. unat va \<le> unat va' \<and> unat va' < unat va + length buf \<and> \<not> user (vlookup k d va'))))"

lemma copy_outcome_step:
  assumes ok: "um_ok k d" and us: "user (vlookup k d va)"
    and n: "unat va mod 4096 + n \<le> 4096" "n \<le> length buf"
    and k1: "k1 = k\<lparr>km_mem := wr (km_mem k) (upos k d va) (take n buf)\<rparr>"
    and va1: "drop n buf \<noteq> [] \<Longrightarrow> unat va1 = unat va + n \<and> unat va1 mod 4096 = 0"
    and rest: "copy_outcome d va1 (drop n buf) k1 r"
  shows "copy_outcome d va buf k r"
proof -
  have v1: "vlookup k1 d = vlookup k d" using user_write(2) [OF ok us _ k1] n by simp
  have wider: "unat va \<le> unat va'" "unat va' < unat va + length buf"
    if "unat va1 \<le> unat va'" "unat va' < unat va1 + length (drop n buf)" for va' :: u32
  proof -
    have "drop n buf \<noteq> []" using that by force
    then show "unat va \<le> unat va'" "unat va' < unat va + length buf" using va1 that by simp_all
  qed
  show ?thesis
  proof (cases r)
    case (Inl e)
    then show ?thesis using rest wider unfolding copy_outcome_def v1 by auto
  next
    case (Inr x)
    obtain c k' where x: "x = (c, k')" by (cases x)
    have frame: "copy_frame d va1 (drop n buf) k1 k'" using rest by (simp add: copy_outcome_def Inr x)
    note copy = copy_step [OF ok us n k1 va1 frame]
    show ?thesis using rest copy wider unfolding copy_outcome_def v1 Inr x by auto
  qed
qed

lemma next_chunk:
  assumes "unat va + length buf \<le> 0x80000000" and "buf \<noteq> []"
  defines "va1 \<equiv> PGROUNDDOWN va + PGSIZE" and "bs \<equiv> drop (copyout_n va buf) buf"
  shows "bs \<noteq> [] \<Longrightarrow> unat va1 = unat va + copyout_n va buf \<and> unat va1 mod 4096 = 0"
    and "unat va1 + length bs \<le> 0x80000000"
proof -
  have "unat va < 4096 * 0x80000" using assms(1,2) by (cases buf) simp_all
  then have "unat va div 4096 < 0x80000" by simp
  then have va1: "unat va1 = 4096 * (unat va div 4096) + 4096" "unat va1 \<le> 0x80000000"
    by (simp_all add: va1_def PGSIZE_def unat_word_ariths unat_PGROUNDDOWN)
  show page: "unat va1 = unat va + copyout_n va buf \<and> unat va1 mod 4096 = 0" if "bs \<noteq> []"
  proof -
    have "unat va mod 4096 + copyout_n va buf = 4096" using copyout_chunk(3) that by (simp add: bs_def)
    moreover have "4096 * (unat va div 4096) + unat va mod 4096 = unat va" by simp
    moreover have "unat va1 mod 4096 = 0" unfolding va1(1) by simp
    ultimately show ?thesis using va1(1) by linarith
  qed
  then show "unat va1 + length bs \<le> 0x80000000"
    using va1(2) assms(1) copyout_chunk(2) [of va buf] by (cases "bs = []") (simp_all add: bs_def)
qed

lemma copyout_spec:
  assumes "um_ok k d" and "unat va + length buf \<le> 0x80000000"
  shows "copy_outcome d va buf k (copyout d va buf k)"
  using assms
proof (induction d va buf k rule: copyout.induct)
  case (1 d va buf k)
  let ?va0 = "PGROUNDDOWN va" and ?n = "copyout_n va buf"
  note ok = 1(2) and len = 1(3) and IH = 1(1)
  note pt = um_okD(1) [OF ok]
  have same: "vlookup k d ?va0 = vlookup k d va" by (rule vlookup_page) (simp add: unat_PGROUNDDOWN)
  consider "buf = []" | e where "buf \<noteq> []" "uva2ka d ?va0 k = Inl e"
    | "buf \<noteq> []" "uva2ka d ?va0 k = Inr 0" | pa0 where "buf \<noteq> []" "uva2ka d ?va0 k = Inr pa0" "pa0 \<noteq> 0"
    by (cases "uva2ka d ?va0 k") auto
  then show ?case
  proof cases
    case 1
    then show ?thesis using ok by (simp add: copyout_Nil copy_outcome_def copied_def copy_frame_def)
  next
    case (2 e)
    then have "e = NullDeref" "vlookup k d va = 0"
      using walk_lookup(1) [OF pt, of ?va0] same by (auto simp: uva2ka_def Let_def split: if_splits)
    then show ?thesis using 2 by (auto simp: copyout_round copy_outcome_def intro!: exI [of _ va])
  next
    case 3
    then have "\<not> user (vlookup k d va)"
      using uva2ka_user(2) [OF pt, of ?va0] page_nonzero [OF um_okD(2) [OF ok]] same by auto
    then show ?thesis using 3 ok by (auto simp: copyout_round copy_outcome_def copy_frame_def intro!: exI [of _ va])
  next
    case (4 pa0)
    have us: "user (vlookup k d va)" and pa: "pa0 = table (vlookup k d va)"
      using uva2ka_user(1) [OF pt 4(2,3)] same by simp_all
    define k1 where "k1 = k\<lparr>km_mem := wr (km_mem k) (upos k d va) (take ?n buf)\<rparr>"
    have k1eq: "k\<lparr>km_mem := wr (km_mem k) (unat (pa0 + (va - ?va0))) (take ?n buf)\<rparr> = k1"
      by (simp add: k1_def pa chunk_position [OF ok us])
    have ok1: "um_ok k1 d"
      using user_write(1) [OF ok us _ k1_def] copyout_chunk(1,2) [of va buf] by simp
    note rest = IH [OF 4(1) refl refl 4(2,3), unfolded k1eq, OF ok1 next_chunk(2) [OF len 4(1)]]
    have "copyout d va buf k = copyout d (?va0 + PGSIZE) (drop ?n buf) k1"
      using 4 by (simp add: copyout_round k1eq)
    then show ?thesis
      using copy_outcome_step [OF ok us copyout_chunk(1,2) k1_def next_chunk(1) [OF len 4(1)] rest] by simp
  qed
qed

section \<open>Properties\<close>

lemma mappages_range:
  assumes "0 < unat (sz :: u32)" and "unat va + unat sz \<le> 2 ^ 32"
  shows "unat (va + sz - 1) = unat va + unat sz - 1"
proof -
  define x where "x = sz - 1"
  have "unat x = unat sz - 1"
    unfolding x_def using assms(1) unat_sub [of 1 sz] by (simp add: word_le_nat_alt)
  then have "unat (va + x) = unat va + unat sz - 1" using assms by (simp add: unat_word_ariths)
  moreover have "va + sz - 1 = va + x" by (simp add: x_def)
  ultimately show ?thesis by (simp only:)
qed

text \<open>
  C28: \<open>mappages\<close> always returns. For a range of \<open>sz\<close> bytes that does not wrap
  around, either it panics with \<open>remap\<close>, and then a page of the range had been mapped
  before; or it returns -1, and then no free page is left and only pages of the range are
  mapped anew; or it returns 0, and then every address of the pages of the range resolves to
  its physical page with the given permissions and the present bit, and every other address
  resolves as before. The page table stays well formed and apart from the free pages.
\<close>

theorem mappages_maps_range:
  assumes "vm_ok k d vs" and "0 < unat sz" and "unat va + unat sz \<le> 2 ^ 32"
  shows "\<exists>n. n = (unat va + unat sz - 1) div 4096 - unat va div 4096 \<and>
    (case mappages d va sz pa perm k of
       Inl e \<Rightarrow> e = Panic ''remap'' \<and>
         (\<exists>va'. unat (PGROUNDDOWN va) \<le> unat va' \<and> unat va' < unat (PGROUNDDOWN va) + 4096 * Suc n \<and> present (vlookup k d va'))
     | Inr (c, k') \<Rightarrow> \<exists>vs' m. vm_ok k' d vs' \<and> set vs' \<subseteq> set vs \<and> mapped k' k d (PGROUNDDOWN va) m pa perm \<and>
         (c = 0 \<and> m = Suc n \<or> c = -1 \<and> m \<le> n \<and> vs' = [] \<and> length vs \<le> m))"
proof -
  let ?a = "PGROUNDDOWN va" and ?l = "PGROUNDDOWN (va + sz - 1)"
  define n where "n = (unat va + unat sz - 1) div 4096 - unat va div 4096"
  have "unat va div 4096 \<le> (unat va + unat sz - 1) div 4096" using assms(2) by (intro div_le_mono) simp
  then have "unat ?l = unat ?a + 4096 * n"
    by (simp add: unat_PGROUNDDOWN mappages_range [OF assms(2,3)] n_def diff_mult_distrib2)
  then obtain r where r: "mappages_loop d ?a ?l pa perm k = Some r" "map_outcome d ?a n pa perm k vs r"
    using mappages_loop_ok [OF assms(1) unat_PGROUNDDOWN] by blast
  then have "mappages d va sz pa perm k = r" by (simp add: mappages_def loop_kres_def)
  then show ?thesis unfolding n_def [symmetric]
    using r(2) by (cases r) (auto simp: map_outcome_def)
qed

lemma mem0_ent: "km_mem k = (\<lambda>_. 0) \<Longrightarrow> ent k v i = 0"
  by (simp add: ent_def load32_def)

lemma mem0_lookup: "km_mem k = (\<lambda>_. 0) \<Longrightarrow> vlookup k d va = 0"
  by (simp add: vlookup_def vmap_def mem0_ent)

lemma mem0_vm_ok:
  assumes "km_mem k = (\<lambda>_. 0)" and "km_freelist k = t" and "page_ok (km_end k) d" and "page_ok (km_end k) t" and "t \<noteq> d"
  shows "vm_ok k d [t]"
proof -
  have "\<not> present 0" by (simp add: present_def)
  then show ?thesis
    using assms mem0_ent [OF assms(1)] by (auto simp: vm_ok_def pt_ok_def pt_pages_def pages_rep_def load32_def)
qed

theorem mappages_maps_range_witness:
  "\<exists>k k'. mappages 0x80200000 0x1234 0x800 0x300000 PTE_W k = Inr (0, k') \<and>
     vlookup k' 0x80200000 0x1FFF = 0x300003 \<and> vlookup k' 0x80200000 0x2000 = 0"
proof -
  let ?k = "\<lparr>km_mem = \<lambda>_. 0, km_use_lock = False, km_freelist = 0x80201000, km_end = 0x80200000\<rparr>"
  let ?d = "0x80200000 :: u32" and ?r = "mappages 0x80200000 0x1234 0x800 0x300000 PTE_W
    \<lparr>km_mem = \<lambda>_. 0, km_use_lock = False, km_freelist = 0x80201000, km_end = 0x80200000\<rparr>"
  have "vm_ok ?k ?d [0x80201000]"
    by (rule mem0_vm_ok) (simp_all add: page_ok_def PGSIZE_def v2p_def KERNBASE_def PHYSTOP_def)
  note out = mappages_maps_range [OF this, where sz = "0x800" and va = "0x1234" and pa = "0x300000" and perm = PTE_W]
  have none: "\<not> present (vlookup ?k ?d va)" for va by (simp add: mem0_lookup present_def)
  obtain k' where k': "?r = Inr (0, k')" "mapped k' ?k ?d (PGROUNDDOWN 0x1234) (Suc 0) 0x300000 PTE_W"
    using out none by (cases ?r) auto
  have "PGROUNDDOWN 0x1234 = 0x1000" "PGROUNDDOWN 0x1FFF = 0x1000" by (simp_all add: PGROUNDDOWN_def PGSIZE_def)
  then have "vlookup k' ?d 0x1FFF = 0x300003" "vlookup k' ?d 0x2000 = 0"
    using k'(2) unfolding mapped_def by (simp_all add: PTE_W_def PTE_P_def mem0_lookup)
  then show ?thesis using k'(1) by blast
qed

text \<open>
  C29: \<open>copyout\<close> keeps to user memory. It always returns, or faults at an address of the
  range that has no page table. Whatever it returns, only bytes behind user addresses of the
  target range change and no address is translated differently; when it returns 0 every
  address of the range is a user address and the buffer reads back byte by byte through the
  page table; when it returns -1 some address of the range is not a user address.
\<close>

theorem copyout_only_user_memory:
  assumes "um_ok k d" and "unat va + length buf \<le> 0x80000000"
  shows "case copyout d va buf k of
      Inl e \<Rightarrow> e = NullDeref \<and> (\<exists>va'. unat va \<le> unat va' \<and> unat va' < unat va + length buf \<and> vlookup k d va' = 0)
    | Inr (c, k') \<Rightarrow> um_ok k' d \<and> vlookup k' d = vlookup k d \<and> copy_frame d va buf k k' \<and>
        (c = 0 \<and> copied d va buf k k' \<or>
         c = -1 \<and> (\<exists>va'. unat va \<le> unat va' \<and> unat va' < unat va + length buf \<and> \<not> user (vlookup k d va')))"
  using copyout_spec [OF assms] unfolding copy_outcome_def .

lemma one_page_space:
  fixes k :: kmem
  defines "d \<equiv> 0x80200000 :: u32"
  assumes m: "km_mem k = store32 (store32 m0 0x80200000 0x201007) 0x80201000 0x202007" and e: "km_end k = d"
    and m0: "\<And>x. x < 0x80202000 \<Longrightarrow> m0 x = 0"
  shows "um_ok k d" and "vlookup k d va = (if unat va < 4096 then 0x202007 else 0)"
proof -
  have ok: "page_ok d d" "page_ok d 0x80201000" "page_ok d 0x80202000"
    by (simp_all add: d_def page_ok_def PGSIZE_def v2p_def KERNBASE_def PHYSTOP_def)
  have z: "load32 m0 a = 0" if "a + 4 \<le> 0x80202000" for a using that by (simp add: load32_def m0)
  have ed: "ent k d i = (if i = 0 then 0x201007 else 0)" if "i < 1024" for i
    using that by (cases "i = 0") (simp_all add: ent_def m d_def load32_store32_other z)
  have et: "ent k 0x80201000 j = (if j = 0 then 0x202007 else 0)" if "j < 1024" for j
    using that by (cases "j = 0") (simp_all add: ent_def m load32_store32_other z)
  have c: "present 0x201007" "\<not> present 0" "user 0x202007" "\<not> user 0" "table 0x201007 = 0x80201000" "table 0x202007 = 0x80202000"
    by (simp_all add: user_def present_def PTE_P_def PTE_U_def table_def PTE_ADDR_def p2v_def KERNBASE_def)
  have vm: "vmap k d i j = (if i = 0 \<and> j = 0 then 0x202007 else 0)" if "i < 1024" "j < 1024" for i j
    using that by (simp add: vmap_def ed et c)
  show v: "vlookup k d va = (if unat va < 4096 then 0x202007 else 0)" for va
    using same_page [of 0 0 va] by (simp add: vlookup_def vm unat_index unat_PDX [of 0] unat_PTX [of 0])
  have pages: "pt_pages k d = {d, 0x80201000}" using ed c by (auto simp: pt_pages_def split: if_splits intro!: exI [of _ 0])
  have "d \<noteq> 0x80201000" by (simp add: d_def)
  then have "pt_ok k d" using ok c by (intro pt_okI) (auto simp: ed e split: if_splits)
  then show "um_ok k d" unfolding um_ok_def pages v using ok(3) c by (auto simp: e d_def split: if_splits)
qed

theorem copyout_only_user_memory_witness:
  "\<exists>k k'. copyout 0x80200000 0x10 [1, 2, 3] k = Inr (0, k') \<and> km_mem k 0x80202011 = 0 \<and> km_mem k' 0x80202011 = 2"
proof -
  define k where "k = \<lparr>km_mem = store32 (store32 (\<lambda>_. 0) 0x80200000 0x201007) 0x80201000 0x202007,
    km_use_lock = False, km_freelist = 0, km_end = 0x80200000\<rparr>"
  note space = one_page_space [of k "\<lambda>_. 0", unfolded k_def kmem.simps, OF refl refl refl, folded k_def]
  have us: "user 0x202007" "table 0x202007 = 0x80202000"
    by (simp_all add: user_def present_def PTE_P_def PTE_U_def table_def PTE_ADDR_def p2v_def KERNBASE_def)
  have all: "user (vlookup k 0x80200000 va)" "vlookup k 0x80200000 va \<noteq> 0" if "unat va < 0x13" for va
    using that us by (simp_all add: space(2))
  obtain k' where k': "copyout 0x80200000 0x10 [1, 2, 3] k = Inr (0, k')" "copied 0x80200000 0x10 [1, 2, 3] k k'"
    using copyout_only_user_memory [OF space(1), of "0x10" "[1, 2, 3]"] all
    by (cases "copyout 0x80200000 0x10 [1, 2, 3] k") auto
  have "upos k 0x80200000 0x11 = 0x80202011" by (simp add: upos_def space(2) us)
  then have "km_mem k' 0x80202011 = 2" using k'(2) unfolding copied_def by (auto dest!: spec [of _ "0x11"])
  moreover have "km_mem k 0x80202011 = 0" by (simp add: k_def store32_other)
  ultimately show ?thesis using k'(1) by blast
qed

end
