(* ===== verification/Bio.thy ===== *)
theory Bio
  imports Layout
begin

section \<open>Buffer cache and memory disk (bio.c, buf.h, memide.c)\<close>

text \<open>
  Buffers are named by their index in \<open>bcache.buf\<close>; index \<open>NBUF\<close> is
  \<open>bcache.head\<close>. The flag bits of a buffer are three Booleans. The disk driver is the
  synchronous one of \<open>memide.c\<close> (theory \<open>Ide\<close> relates the interrupt-driven
  driver to it): the disk is an array of blocks, and \<open>history\<close> records the order in
  which blocks reach it, so that a crash is a prefix of that order. \<open>woken\<close> records the
  calls to \<open>wakeup\<close>. A call that would sleep on a busy buffer is \<open>Inl (Sleeps _)\<close>.

  The lemmas read the list through \<open>prev\<close> and \<open>next\<close> as a ring, and show that the
  cache is transparent: \<open>view\<close>, the contents of a block as its readers see them, is
  changed only by those who modify a buffer they hold.
\<close>

subsection \<open>Definitions\<close>

definition BSIZE :: nat where "BSIZE = 512"

definition NODEV :: nat where "NODEV = 2 ^ 32 - 1"

record buf =
  b_busy :: bool
  b_valid :: bool
  b_dirty :: bool
  b_dev :: nat
  b_blockno :: nat
  b_prev :: nat
  b_next :: nat
  b_data :: "u8 list"

record bio =
  bufs :: "nat \<Rightarrow> buf"
  memdisk :: "nat \<Rightarrow> u8 list"
  disksize :: nat
  history :: "(nat \<times> u8 list) list"
  woken :: "chan list"

definition upd_buf :: "nat \<Rightarrow> (buf \<Rightarrow> buf) \<Rightarrow> 'a bio_scheme \<Rightarrow> 'a bio_scheme" where
  "upd_buf i f s = s\<lparr>bufs := (bufs s)(i := f (bufs s i))\<rparr>"

definition wake :: "chan \<Rightarrow> 'a bio_scheme \<Rightarrow> 'a bio_scheme" where
  "wake c s = s\<lparr>woken := woken s @ [c]\<rparr>"

text \<open>One round of the loop of \<open>binit\<close>, and \<open>binit\<close> on the zeroed cache.\<close>

definition binit_step :: "nat \<Rightarrow> 'a bio_scheme \<Rightarrow> 'a bio_scheme" where
  "binit_step b s =
     (let s = upd_buf b (\<lambda>x. x\<lparr>b_next := b_next (bufs s NBUF)\<rparr>) s;
          s = upd_buf b (\<lambda>x. x\<lparr>b_prev := NBUF\<rparr>) s;
          s = upd_buf b (\<lambda>x. x\<lparr>b_dev := NODEV\<rparr>) s;
          s = upd_buf (b_next (bufs s NBUF)) (\<lambda>x. x\<lparr>b_prev := b\<rparr>) s
      in upd_buf NBUF (\<lambda>x. x\<lparr>b_next := b\<rparr>) s)"

definition binit :: "'a bio_scheme \<Rightarrow> 'a bio_scheme" where
  "binit s = fold binit_step [0..<NBUF] (upd_buf NBUF (\<lambda>x. x\<lparr>b_prev := NBUF, b_next := NBUF\<rparr>) s)"

definition zero_buf :: buf where
  "zero_buf = \<lparr>b_busy = False, b_valid = False, b_dirty = False, b_dev = 0, b_blockno = 0,
     b_prev = 0, b_next = 0, b_data = replicate BSIZE 0\<rparr>"

text \<open>\<open>iderw\<close> of the memory disk.\<close>

definition iderw :: "nat \<Rightarrow> 'a bio_scheme \<Rightarrow> 'a bio_scheme kres" where
  "iderw b s =
     (let x = bufs s b in
      if \<not> b_busy x then Inl (Panic ''iderw: buf not busy'')
      else if b_valid x \<and> \<not> b_dirty x then Inl (Panic ''iderw: nothing to do'')
      else if b_dev x \<noteq> 1 then Inl (Panic ''iderw: request not for disk 1'')
      else if b_blockno x \<ge> disksize s then Inl (Panic ''iderw: block out of range'')
      else if b_dirty x then
        Inr (upd_buf b (\<lambda>x. x\<lparr>b_dirty := False, b_valid := True\<rparr>)
              (s\<lparr>memdisk := (memdisk s)(b_blockno x := b_data x),
                 history := history s @ [(b_blockno x, b_data x)]\<rparr>))
      else Inr (upd_buf b (\<lambda>y. y\<lparr>b_data := memdisk s (b_blockno x), b_valid := True\<rparr>) s))"

text \<open>The two searches of \<open>bget\<close>: for the block, and for a buffer to recycle.\<close>

partial_function (option) find_next :: "(nat \<Rightarrow> buf) \<Rightarrow> nat \<Rightarrow> nat \<Rightarrow> nat \<Rightarrow> nat option option" where
  "find_next f dev blockno b =
     (if b = NBUF then Some None
      else if b_dev (f b) = dev \<and> b_blockno (f b) = blockno then Some (Some b)
      else find_next f dev blockno (b_next (f b)))"

partial_function (option) find_prev :: "(nat \<Rightarrow> buf) \<Rightarrow> nat \<Rightarrow> nat option option" where
  "find_prev f b =
     (if b = NBUF then Some None
      else if \<not> b_busy (f b) \<and> \<not> b_dirty (f b) then Some (Some b)
      else find_prev f (b_prev (f b)))"

definition bget :: "nat \<Rightarrow> nat \<Rightarrow> 'a bio_scheme \<Rightarrow> (nat \<times> 'a bio_scheme) kres" where
  "bget dev blockno s =
     (case find_next (bufs s) dev blockno (b_next (bufs s NBUF)) of
        None \<Rightarrow> Inl Diverge
      | Some (Some b) \<Rightarrow>
          if \<not> b_busy (bufs s b) then Inr (b, upd_buf b (\<lambda>x. x\<lparr>b_busy := True\<rparr>) s)
          else Inl (Sleeps (ChBuf b))
      | Some None \<Rightarrow>
          (case find_prev (bufs s) (b_prev (bufs s NBUF)) of
             None \<Rightarrow> Inl Diverge
           | Some (Some b) \<Rightarrow>
               Inr (b, upd_buf b (\<lambda>x. x\<lparr>b_dev := dev, b_blockno := blockno, b_busy := True, b_valid := False, b_dirty := False\<rparr>) s)
           | Some None \<Rightarrow> Inl (Panic ''bget: no buffers'')))"

definition bread :: "nat \<Rightarrow> nat \<Rightarrow> 'a bio_scheme \<Rightarrow> (nat \<times> 'a bio_scheme) kres" where
  "bread dev blockno s =
     bindR (bget dev blockno s) (\<lambda>(b, s).
       if \<not> b_valid (bufs s b) then bindR (iderw b s) (\<lambda>s. Inr (b, s)) else Inr (b, s))"

definition bwrite :: "nat \<Rightarrow> 'a bio_scheme \<Rightarrow> 'a bio_scheme kres" where
  "bwrite b s =
     (if \<not> b_busy (bufs s b) then Inl (Panic ''bwrite'')
      else iderw b (upd_buf b (\<lambda>x. x\<lparr>b_dirty := True\<rparr>) s))"

definition brelse :: "nat \<Rightarrow> 'a bio_scheme \<Rightarrow> 'a bio_scheme kres" where
  "brelse b s =
     (if \<not> b_busy (bufs s b) then Inl (Panic ''brelse'')
      else
        let s = upd_buf (b_next (bufs s b)) (\<lambda>x. x\<lparr>b_prev := b_prev (bufs s b)\<rparr>) s;
            s = upd_buf (b_prev (bufs s b)) (\<lambda>x. x\<lparr>b_next := b_next (bufs s b)\<rparr>) s;
            s = upd_buf b (\<lambda>x. x\<lparr>b_next := b_next (bufs s NBUF)\<rparr>) s;
            s = upd_buf b (\<lambda>x. x\<lparr>b_prev := NBUF\<rparr>) s;
            s = upd_buf (b_next (bufs s NBUF)) (\<lambda>x. x\<lparr>b_prev := b\<rparr>) s;
            s = upd_buf NBUF (\<lambda>x. x\<lparr>b_next := b\<rparr>) s;
            s = upd_buf b (\<lambda>x. x\<lparr>b_busy := False\<rparr>) s
        in Inr (wake (ChBuf b) s))"

text \<open>
  The list through \<open>next\<close> and \<open>prev\<close>: following \<open>nx\<close> from \<open>a\<close> visits
  \<open>xs\<close> and arrives at \<open>z\<close>, and \<open>pv\<close> leads all the way back.
\<close>

primrec dseg :: "(nat \<Rightarrow> nat) \<Rightarrow> (nat \<Rightarrow> nat) \<Rightarrow> nat \<Rightarrow> nat list \<Rightarrow> nat \<Rightarrow> bool" where
  "dseg nx pv a [] z \<longleftrightarrow> nx a = z \<and> pv z = a"
| "dseg nx pv a (x # xs) z \<longleftrightarrow> nx a = x \<and> pv x = a \<and> dseg nx pv x xs z"

definition ring :: "(nat \<Rightarrow> buf) \<Rightarrow> nat list \<Rightarrow> bool" where
  "ring f xs \<longleftrightarrow> dseg (\<lambda>i. b_next (f i)) (\<lambda>i. b_prev (f i)) NBUF xs NBUF \<and> distinct xs \<and> set xs = {0..<NBUF}"

text \<open>A buffer without its links, and what the cache keeps of its buffers.\<close>

definition core :: "buf \<Rightarrow> buf" where
  "core x = x\<lparr>b_prev := 0, b_next := 0\<rparr>"

definition buf_ok :: "(nat \<Rightarrow> u8 list) \<Rightarrow> nat \<Rightarrow> buf \<Rightarrow> bool" where
  "buf_ok disk n x \<longleftrightarrow> length (b_data x) = BSIZE \<and>
     (if b_valid x then b_dev x = 1 \<and> b_blockno x < n \<and> (b_busy x \<or> b_dirty x \<or> b_data x = disk (b_blockno x))
      else b_dev x = NODEV \<and> \<not> b_busy x \<and> \<not> b_dirty x)"

definition bio_ok :: "'a bio_scheme \<Rightarrow> bool" where
  "bio_ok s \<longleftrightarrow> (\<exists>xs. ring (bufs s) xs) \<and>
     (\<forall>i<NBUF. buf_ok (memdisk s) (disksize s) (bufs s i)) \<and>
     (\<forall>i<NBUF. \<forall>j<NBUF. b_valid (bufs s i) \<longrightarrow> b_valid (bufs s j) \<longrightarrow>
        b_blockno (bufs s i) = b_blockno (bufs s j) \<longrightarrow> i = j) \<and>
     (\<forall>b<disksize s. length (memdisk s b) = BSIZE)"

definition cached :: "'a bio_scheme \<Rightarrow> nat \<Rightarrow> nat option" where
  "cached s b = List.find (\<lambda>i. b_valid (bufs s i) \<and> b_blockno (bufs s i) = b) [0..<NBUF]"

definition view :: "'a bio_scheme \<Rightarrow> nat \<Rightarrow> u8 list" where
  "view s b = (case cached s b of None \<Rightarrow> memdisk s b | Some i \<Rightarrow> b_data (bufs s i))"

definition clean :: "'a bio_scheme \<Rightarrow> nat set" where
  "clean s = {i. i < NBUF \<and> \<not> b_busy (bufs s i) \<and> \<not> b_dirty (bufs s i)}"

text \<open>
  What \<open>bread\<close>, changing the data of a held buffer, \<open>bwrite\<close> and
  \<open>brelse\<close> leave behind.
\<close>

definition got :: "'a bio_scheme \<Rightarrow> nat \<Rightarrow> nat \<Rightarrow> 'a bio_scheme \<Rightarrow> bool" where
  "got s b i s' \<longleftrightarrow> bio_ok s' \<and> s' = s\<lparr>bufs := bufs s'\<rparr> \<and> (\<forall>j. j \<noteq> i \<longrightarrow> bufs s' j = bufs s j) \<and>
     i < NBUF \<and> \<not> b_busy (bufs s i) \<and> b_busy (bufs s' i) \<and> b_valid (bufs s' i) \<and>
     b_blockno (bufs s' i) = b \<and> b_data (bufs s' i) = view s b \<and>
     b_dirty (bufs s' i) = b_dirty (bufs s i) \<and> (b_dirty (bufs s i) \<longrightarrow> cached s b = Some i) \<and> view s' = view s"

definition set_data :: "nat \<Rightarrow> u8 list \<Rightarrow> 'a bio_scheme \<Rightarrow> 'a bio_scheme" where
  "set_data i d = upd_buf i (\<lambda>x. x\<lparr>b_data := d\<rparr>)"

definition released :: "'a bio_scheme \<Rightarrow> nat \<Rightarrow> 'a bio_scheme \<Rightarrow> bool" where
  "released s i s' \<longleftrightarrow> bio_ok s' \<and> s' = s\<lparr>bufs := bufs s', woken := woken s @ [ChBuf i]\<rparr> \<and>
     (\<forall>j. core (bufs s' j) = core (if j = i then (bufs s j)\<lparr>b_busy := False\<rparr> else bufs s j)) \<and> view s' = view s"

text \<open>The blocks whose buffers are in use, and those whose buffers wait to be written.\<close>

definition held :: "'a bio_scheme \<Rightarrow> nat set" where
  "held s = {b. \<exists>i<NBUF. b_busy (bufs s i) \<and> b_blockno (bufs s i) = b}"

definition dirty :: "'a bio_scheme \<Rightarrow> nat set" where
  "dirty s = {b. \<exists>i<NBUF. b_dirty (bufs s i) \<and> b_blockno (bufs s i) = b}"

section \<open>Lemmas\<close>

subsection \<open>The ring of buffers\<close>

lemma dseg_cong:
  assumes "dseg nx pv a xs z" and "\<And>x. x = a \<or> x \<in> set xs \<Longrightarrow> nx' x = nx x" and "\<And>x. x = z \<or> x \<in> set xs \<Longrightarrow> pv' x = pv x"
  shows "dseg nx' pv' a xs z"
  using assms by (induction xs arbitrary: a) auto

lemma dseg_append: "dseg nx pv a (xs @ y # ys) z \<longleftrightarrow> dseg nx pv a xs y \<and> dseg nx pv y ys z"
  by (induction xs arbitrary: a) auto

lemma dseg_last: "dseg nx pv a xs z \<Longrightarrow> pv z = (if xs = [] then a else last xs)"
  by (induction xs arbitrary: a) auto

lemma dseg_hd: "dseg nx pv a xs z \<Longrightarrow> nx a = (if xs = [] then z else hd xs)"
  by (cases xs) auto

lemma dseg_unlink:
  assumes seg: "dseg nx pv a (xs @ b # ys) z" and dist: "distinct (xs @ b # ys)" "a \<notin> set (xs @ b # ys)" "z \<notin> set (xs @ b # ys)"
  shows "dseg (nx(pv b := nx b)) (pv(nx b := pv b)) a (xs @ ys) z"
proof -
  have l: "dseg nx pv a xs b" and r: "dseg nx pv b ys z" using seg by (simp_all add: dseg_append)
  have pvb: "pv b = (if xs = [] then a else last xs)" and nxb: "nx b = (if ys = [] then z else hd ys)"
    by (rule dseg_last [OF l], rule dseg_hd [OF r])
  have nxb': "nx b \<notin> set xs" using nxb dist by (cases ys) auto
  have pvb': "pv b \<notin> set ys" using pvb dist by (cases xs rule: rev_cases) auto
  have left: "dseg (nx(pv b := nx b)) (pv(nx b := pv b)) a xs' x" if "xs = xs' @ [x]" for xs' x
  proof (rule dseg_cong)
    show "dseg nx pv a xs' x" using l that by (simp add: dseg_append)
  qed (use that pvb nxb' dist in auto)
  have right: "dseg (nx(pv b := nx b)) (pv(nx b := pv b)) (pv b) ys z"
  proof (cases ys)
    case Nil
    then show ?thesis using nxb by simp
  next
    case (Cons y ys')
    have "dseg (nx(pv b := nx b)) (pv(nx b := pv b)) y ys' z"
    proof (rule dseg_cong)
      show "dseg nx pv y ys' z" using r Cons by simp
    qed (use Cons pvb' nxb dist in auto)
    then show ?thesis using Cons nxb by simp
  qed
  show ?thesis
  proof (cases xs rule: rev_cases)
    case Nil
    then show ?thesis using right pvb by simp
  next
    case (snoc xs' x)
    then have "pv b = x" using pvb by simp
    then show ?thesis using left [OF snoc] right by (simp add: snoc dseg_append)
  qed
qed

lemma dseg_push:
  assumes "dseg nx pv a xs z" and "distinct xs" and "b \<notin> set xs" "a \<notin> set xs" "z \<notin> set xs" "b \<noteq> a" "b \<noteq> z"
  shows "dseg (nx(b := nx a, a := b)) (pv(b := a, nx a := b)) a (b # xs) z"
  using assms by (cases xs) (auto intro: dseg_cong)

lemma find_next_list:
  assumes "dseg (\<lambda>i. b_next (f i)) pv a xs NBUF" and "NBUF \<notin> set xs"
  shows "find_next f dev b (b_next (f a)) = Some (List.find (\<lambda>i. b_dev (f i) = dev \<and> b_blockno (f i) = b) xs)"
  using assms
proof (induction xs arbitrary: a)
  case Nil
  then show ?case by (subst find_next.simps) simp
next
  case (Cons x xs)
  then show ?case by (subst find_next.simps) auto
qed

lemma find_prev_list:
  assumes "dseg nx (\<lambda>i. b_prev (f i)) NBUF xs z" and "NBUF \<notin> set xs"
  shows "find_prev f (b_prev (f z)) = Some (List.find (\<lambda>i. \<not> b_busy (f i) \<and> \<not> b_dirty (f i)) (rev xs))"
  using assms
proof (induction xs arbitrary: z rule: rev_induct)
  case Nil
  then show ?case by (subst find_prev.simps) simp
next
  case (snoc x xs)
  then show ?case by (subst find_prev.simps) (auto simp: dseg_append)
qed

subsection \<open>The cache invariant\<close>

lemma bio_okD:
  assumes "bio_ok s"
  shows "\<exists>xs. ring (bufs s) xs"
    and "i < NBUF \<Longrightarrow> buf_ok (memdisk s) (disksize s) (bufs s i)"
    and "i < NBUF \<Longrightarrow> j < NBUF \<Longrightarrow> b_valid (bufs s i) \<Longrightarrow> b_valid (bufs s j) \<Longrightarrow>
      b_blockno (bufs s i) = b_blockno (bufs s j) \<Longrightarrow> i = j"
    and "b < disksize s \<Longrightarrow> length (memdisk s b) = BSIZE"
  using assms unfolding bio_ok_def by blast+

lemma bio_okI:
  assumes "ring (bufs s) xs"
    and "\<And>i. i < NBUF \<Longrightarrow> buf_ok (memdisk s) (disksize s) (bufs s i)"
    and "\<And>i j. i < NBUF \<Longrightarrow> j < NBUF \<Longrightarrow> b_valid (bufs s i) \<Longrightarrow> b_valid (bufs s j) \<Longrightarrow>
      b_blockno (bufs s i) = b_blockno (bufs s j) \<Longrightarrow> i = j"
    and "\<And>b. b < disksize s \<Longrightarrow> length (memdisk s b) = BSIZE"
  shows "bio_ok s"
  using assms unfolding bio_ok_def by blast

lemma cached_Some: "cached s b = Some i \<Longrightarrow> i < NBUF \<and> b_valid (bufs s i) \<and> b_blockno (bufs s i) = b"
  by (auto simp: cached_def dest!: find_SomeD)

lemma cached_None: "cached s b = None \<longleftrightarrow> (\<forall>i<NBUF. b_valid (bufs s i) \<longrightarrow> b_blockno (bufs s i) \<noteq> b)"
  by (auto simp: cached_def find_None_iff)

lemma cachedI:
  assumes "bio_ok s" and "i < NBUF" and "b_valid (bufs s i)"
  shows "cached s (b_blockno (bufs s i)) = Some i"
proof (cases "cached s (b_blockno (bufs s i))")
  case None
  then show ?thesis using assms by (auto simp: cached_None)
next
  case (Some j)
  then show ?thesis using cached_Some [OF Some] bio_okD(3) [OF assms(1)] assms(2,3) by blast
qed

lemma view_valid: "bio_ok s \<Longrightarrow> i < NBUF \<Longrightarrow> b_valid (bufs s i) \<Longrightarrow> view s (b_blockno (bufs s i)) = b_data (bufs s i)"
  by (simp add: view_def cachedI)

lemma view_cong:
  assumes "bio_ok s" and "bio_ok s'" and "memdisk s' b = memdisk s b"
    and "\<And>i. i < NBUF \<Longrightarrow> b_valid (bufs s i) \<Longrightarrow> b_blockno (bufs s i) = b \<Longrightarrow>
      b_valid (bufs s' i) \<and> b_blockno (bufs s' i) = b \<and> b_data (bufs s' i) = b_data (bufs s i) \<or>
      cached s' b = None \<and> b_data (bufs s i) = memdisk s b"
    and "\<And>i. i < NBUF \<Longrightarrow> b_valid (bufs s' i) \<Longrightarrow> b_blockno (bufs s' i) = b \<Longrightarrow>
      b_valid (bufs s i) \<and> b_blockno (bufs s i) = b \<and> b_data (bufs s' i) = b_data (bufs s i) \<or>
      cached s b = None \<and> b_data (bufs s' i) = memdisk s b"
  shows "view s' b = view s b"
proof (cases "cached s b")
  case None
  show ?thesis
  proof (cases "cached s' b")
    case None
    then show ?thesis using \<open>cached s b = None\<close> assms(3) by (simp add: view_def)
  next
    case (Some j)
    then have "b_data (bufs s' j) = memdisk s b"
      using assms(5) [of j] cached_Some [OF Some] None by (auto simp: cached_None)
    then show ?thesis using Some None by (simp add: view_def)
  qed
next
  case (Some i)
  note ci = cached_Some [OF Some]
  show ?thesis
  proof (cases "cached s' b")
    case None
    then have "b_data (bufs s i) = memdisk s b" using assms(4) [of i] ci by (auto simp: cached_None)
    then show ?thesis using None Some assms(3) by (simp add: view_def)
  next
    case (Some j)
    then have "b_valid (bufs s' i)" "b_blockno (bufs s' i) = b" "b_data (bufs s' i) = b_data (bufs s i)"
      using assms(4) [of i] ci by auto
    moreover have "j = i" using calculation ci cached_Some [OF Some] bio_okD(3) [OF assms(2)] by blast
    ultimately show ?thesis using Some \<open>cached s b = Some i\<close> by (simp add: view_def)
  qed
qed

lemma bget_cached:
  assumes ok: "bio_ok s" and c: "cached s b = Some i" and nb: "\<not> b_busy (bufs s i)"
  shows "bget 1 b s = Inr (i, upd_buf i (\<lambda>x. x\<lparr>b_busy := True\<rparr>) s)"
proof -
  obtain xs where xs: "ring (bufs s) xs" using bio_okD(1) [OF ok] by blast
  then have "find_next (bufs s) 1 b (b_next (bufs s NBUF)) =
      Some (List.find (\<lambda>i. b_dev (bufs s i) = 1 \<and> b_blockno (bufs s i) = b) xs)"
    by (intro find_next_list) (auto simp: ring_def)
  moreover have iff: "b_dev (bufs s j) = 1 \<and> b_blockno (bufs s j) = b \<longleftrightarrow> j = i" if "j \<in> set xs" for j
  proof -
    have j: "j < NBUF" using that xs by (simp add: ring_def)
    have "b_dev (bufs s j) = 1 \<longleftrightarrow> b_valid (bufs s j)"
      using bio_okD(2) [OF ok j] by (auto simp: buf_ok_def NODEV_def split: if_splits)
    then show ?thesis using cached_Some [OF c] bio_okD(3) [OF ok, of j i] j by auto
  qed
  moreover have "List.find (\<lambda>j. b_dev (bufs s j) = 1 \<and> b_blockno (bufs s j) = b) xs = Some i"
  proof -
    have "i \<in> set xs" using cached_Some [OF c] xs by (simp add: ring_def)
    then obtain j where "List.find (\<lambda>j. b_dev (bufs s j) = 1 \<and> b_blockno (bufs s j) = b) xs = Some j"
      using iff by (cases "List.find (\<lambda>j. b_dev (bufs s j) = 1 \<and> b_blockno (bufs s j) = b) xs") (auto simp: find_None_iff)
    moreover from this have "j = i" using iff find_SomeD by fast
    ultimately show ?thesis by simp
  qed
  ultimately show ?thesis using nb by (simp add: bget_def)
qed

lemma bget_uncached:
  assumes ok: "bio_ok s" and c: "cached s b = None" and xs: "ring (bufs s) xs"
  shows "bget 1 b s = (case List.find (\<lambda>i. \<not> b_busy (bufs s i) \<and> \<not> b_dirty (bufs s i)) (rev xs) of
      None \<Rightarrow> Inl (Panic ''bget: no buffers'')
    | Some i \<Rightarrow> Inr (i, upd_buf i (\<lambda>x. x\<lparr>b_dev := 1, b_blockno := b, b_busy := True, b_valid := False, b_dirty := False\<rparr>) s))"
proof -
  have "find_next (bufs s) 1 b (b_next (bufs s NBUF)) =
      Some (List.find (\<lambda>i. b_dev (bufs s i) = 1 \<and> b_blockno (bufs s i) = b) xs)"
    using xs by (intro find_next_list) (auto simp: ring_def)
  moreover have "\<not> (b_dev (bufs s j) = 1 \<and> b_blockno (bufs s j) = b)" if "j \<in> set xs" for j
  proof -
    have j: "j < NBUF" using that xs by (simp add: ring_def)
    have "b_dev (bufs s j) = 1 \<longleftrightarrow> b_valid (bufs s j)"
      using bio_okD(2) [OF ok j] by (auto simp: buf_ok_def NODEV_def split: if_splits)
    then show ?thesis using c j by (auto simp: cached_None)
  qed
  then have "List.find (\<lambda>i. b_dev (bufs s i) = 1 \<and> b_blockno (bufs s i) = b) xs = None"
    by (simp add: find_None_iff)
  moreover have "find_prev (bufs s) (b_prev (bufs s NBUF)) =
      Some (List.find (\<lambda>i. \<not> b_busy (bufs s i) \<and> \<not> b_dirty (bufs s i)) (rev xs))"
    using xs by (intro find_prev_list) (auto simp: ring_def)
  ultimately show ?thesis by (simp add: bget_def split: option.split)
qed

lemma bget_fresh:
  assumes ok: "bio_ok s" and c: "cached s b = None" and av: "clean s \<noteq> {}"
  shows "\<exists>i\<in>clean s. bget 1 b s = Inr (i, upd_buf i (\<lambda>x. x\<lparr>b_dev := 1, b_blockno := b, b_busy := True, b_valid := False, b_dirty := False\<rparr>) s)"
proof -
  obtain xs where xs: "ring (bufs s) xs" using bio_okD(1) [OF ok] by blast
  obtain i where i: "List.find (\<lambda>i. \<not> b_busy (bufs s i) \<and> \<not> b_dirty (bufs s i)) (rev xs) = Some i"
    using av xs by (cases "List.find (\<lambda>i. \<not> b_busy (bufs s i) \<and> \<not> b_dirty (bufs s i)) (rev xs)")
      (auto simp: find_None_iff clean_def ring_def)
  then have "i \<in> clean s" using xs by (auto simp: clean_def ring_def dest!: find_SomeD)
  then show ?thesis using bget_uncached [OF ok c xs] i by auto
qed

lemma ring_cong:
  assumes "ring f xs" and "\<And>i. b_next (g i) = b_next (f i) \<and> b_prev (g i) = b_prev (f i)"
  shows "ring g xs"
  using assms by (simp add: ring_def)

lemma bio_upd:
  assumes ok: "bio_ok s" and i: "i < NBUF" and links: "b_next x = b_next (bufs s i)" "b_prev x = b_prev (bufs s i)"
    and x: "buf_ok (memdisk s) (disksize s) x"
    and uniq: "\<And>j. j < NBUF \<Longrightarrow> j \<noteq> i \<Longrightarrow> b_valid x \<Longrightarrow> b_valid (bufs s j) \<Longrightarrow> b_blockno (bufs s j) \<noteq> b_blockno x"
  shows "bio_ok (s\<lparr>bufs := (bufs s)(i := x)\<rparr>)"
proof -
  obtain xs where "ring (bufs s) xs" using bio_okD(1) [OF ok] by blast
  then have "ring (bufs (s\<lparr>bufs := (bufs s)(i := x)\<rparr>)) xs" by (rule ring_cong) (simp add: links)
  then show ?thesis
  proof (rule bio_okI)
    fix a c assume "a < NBUF" "c < NBUF" "b_valid (bufs (s\<lparr>bufs := (bufs s)(i := x)\<rparr>) a)"
      "b_valid (bufs (s\<lparr>bufs := (bufs s)(i := x)\<rparr>) c)"
      "b_blockno (bufs (s\<lparr>bufs := (bufs s)(i := x)\<rparr>) a) = b_blockno (bufs (s\<lparr>bufs := (bufs s)(i := x)\<rparr>) c)"
    then show "a = c"
      using bio_okD(3) [OF ok, of a c] uniq [of a] uniq [of c] by (cases "a = i"; cases "c = i") auto
  qed (use bio_okD(2,4) [OF ok] x in auto)
qed

lemma bread_cached:
  assumes ok: "bio_ok s" and c: "cached s b = Some i" and nb: "\<not> b_busy (bufs s i)"
  shows "\<exists>s'. bread 1 b s = Inr (i, s') \<and> got s b i s'"
proof -
  note ci = cached_Some [OF c]
  let ?x = "(bufs s i)\<lparr>b_busy := True\<rparr>"
  let ?s = "s\<lparr>bufs := (bufs s)(i := ?x)\<rparr>"
  have "bread 1 b s = Inr (i, ?s)"
    using bget_cached [OF assms] ci by (simp add: bread_def upd_buf_def)
  moreover have ok': "bio_ok ?s"
    using ci bio_okD(2) [OF ok] bio_okD(3) [OF ok, of _ i] by (intro bio_upd [OF ok]) (auto simp: buf_ok_def)
  moreover have "view ?s = view s"
  proof (rule ext)
    show "view ?s b' = view s b'" for b'
      by (rule view_cong [OF ok ok']) auto
  qed
  ultimately show ?thesis using nb ci view_valid [OF ok, of i] c by (auto simp: got_def)
qed

lemma bread_fresh:
  assumes ok: "bio_ok s" and c: "cached s b = None" and av: "clean s \<noteq> {}" and b: "b < disksize s"
  shows "\<exists>i\<in>clean s. \<exists>s'. bread 1 b s = Inr (i, s') \<and> got s b i s'"
proof -
  obtain i where i: "i \<in> clean s"
    "bget 1 b s = Inr (i, upd_buf i (\<lambda>x. x\<lparr>b_dev := 1, b_blockno := b, b_busy := True, b_valid := False, b_dirty := False\<rparr>) s)"
    using bget_fresh [OF ok c av] by blast
  then have ci: "i < NBUF" "\<not> b_busy (bufs s i)" "\<not> b_dirty (bufs s i)" by (auto simp: clean_def)
  let ?x = "(bufs s i)\<lparr>b_dev := 1, b_blockno := b, b_busy := True, b_dirty := False, b_data := memdisk s b, b_valid := True\<rparr>"
  let ?s = "s\<lparr>bufs := (bufs s)(i := ?x)\<rparr>"
  have "bread 1 b s = Inr (i, ?s)"
    using b i(2) by (simp add: bread_def upd_buf_def iderw_def Let_def not_le)
  moreover have ok': "bio_ok ?s"
    using ci c b bio_okD(4) [OF ok b] by (intro bio_upd [OF ok]) (auto simp: buf_ok_def cached_None)
  moreover have "view ?s = view s"
  proof (rule ext)
    fix b'
    have old: "b_valid (bufs s i) \<Longrightarrow> b_data (bufs s i) = memdisk s (b_blockno (bufs s i))"
      using bio_okD(2) [OF ok ci(1)] ci by (auto simp: buf_ok_def)
    show "view ?s b' = view s b'"
    proof (rule view_cong [OF ok ok'])
      fix j assume j: "j < NBUF" "b_valid (bufs s j)" "b_blockno (bufs s j) = b'"
      show "b_valid (bufs ?s j) \<and> b_blockno (bufs ?s j) = b' \<and> b_data (bufs ?s j) = b_data (bufs s j) \<or>
          cached ?s b' = None \<and> b_data (bufs s j) = memdisk s b'"
      proof (cases "j = i")
        case True
        have "cached ?s b' = None"
          unfolding cached_None
        proof (intro allI impI)
          fix a assume a: "a < NBUF" "b_valid (bufs ?s a)"
          have "b \<noteq> b'" using c j by (auto simp: cached_None)
          then show "b_blockno (bufs ?s a) \<noteq> b'"
            using a j True bio_okD(3) [OF ok a(1) ci(1)] by (cases "a = i") auto
        qed
        then show ?thesis using old j True by simp
      qed (use j in simp)
    qed (use c in \<open>auto split: if_splits\<close>)
  qed
  moreover have "view s b = memdisk s b" using c by (simp add: view_def)
  ultimately show ?thesis using i(1) ci by (intro bexI [of _ i]) (auto simp: got_def)
qed

lemma bread_ok:
  assumes "bio_ok s" and "b < disksize s" and "\<And>i. cached s b = Some i \<Longrightarrow> \<not> b_busy (bufs s i)"
    and "cached s b = None \<Longrightarrow> clean s \<noteq> {}"
  shows "\<exists>i s'. bread 1 b s = Inr (i, s') \<and> got s b i s'"
  using bread_cached [OF assms(1)] bread_fresh [OF assms(1) _ _ assms(2)] assms(3,4) by (cases "cached s b") blast+

subsection \<open>Using and giving back a buffer\<close>

text \<open>Changing a held buffer's data changes the view of its block only.\<close>

lemma set_data_ok:
  assumes ok: "bio_ok s" and i: "i < NBUF" "b_busy (bufs s i)" "b_valid (bufs s i)" and d: "length d = BSIZE"
  shows "bio_ok (set_data i d s)"
    and "view (set_data i d s) = (view s)(b_blockno (bufs s i) := d)"
proof -
  let ?x = "(bufs s i)\<lparr>b_data := d\<rparr>"
  have eq: "set_data i d s = s\<lparr>bufs := (bufs s)(i := ?x)\<rparr>" by (simp add: set_data_def upd_buf_def)
  show ok': "bio_ok (set_data i d s)"
    unfolding eq using i d bio_okD(2) [OF ok i(1)] bio_okD(3) [OF ok, of _ i]
    by (intro bio_upd [OF ok i(1)]) (auto simp: buf_ok_def)
  show "view (set_data i d s) = (view s)(b_blockno (bufs s i) := d)"
  proof (rule ext)
    fix b
    show "view (set_data i d s) b = ((view s)(b_blockno (bufs s i) := d)) b"
    proof (cases "b = b_blockno (bufs s i)")
      case True
      then show ?thesis using view_valid [OF ok' i(1)] i by (simp add: eq)
    next
      case False
      then have "view (set_data i d s) b = view s b"
        by (intro view_cong [OF ok ok']) (auto simp: eq split: if_splits)
      then show ?thesis using False by simp
    qed
  qed
qed

text \<open>Writing a held buffer puts its data on the disk and leaves the view alone.\<close>

lemma bwrite_ok:
  assumes ok: "bio_ok s" and i: "i < NBUF" "b_busy (bufs s i)" "b_valid (bufs s i)"
  defines "b \<equiv> b_blockno (bufs s i)" and "d \<equiv> b_data (bufs s i)"
  shows "\<exists>s'. bwrite i s = Inr s' \<and> bio_ok s' \<and> view s' = view s \<and>
    s' = s\<lparr>bufs := (bufs s)(i := (bufs s i)\<lparr>b_dirty := False, b_valid := True\<rparr>),
           memdisk := (memdisk s)(b := d), history := history s @ [(b, d)]\<rparr>"
proof -
  have x: "b_dev (bufs s i) = 1" "b < disksize s" "length d = BSIZE"
    using bio_okD(2) [OF ok i(1)] i by (simp_all add: buf_ok_def b_def d_def)
  let ?x = "(bufs s i)\<lparr>b_dirty := False, b_valid := True\<rparr>"
  let ?s = "s\<lparr>bufs := (bufs s)(i := ?x), memdisk := (memdisk s)(b := d), history := history s @ [(b, d)]\<rparr>"
  have "bwrite i s = Inr ?s"
    using i x by (simp add: bwrite_def iderw_def upd_buf_def Let_def not_le b_def d_def)
  moreover have ok': "bio_ok ?s"
  proof -
    obtain xs where "ring (bufs s) xs" using bio_okD(1) [OF ok] by blast
    then have "ring (bufs ?s) xs" by (rule ring_cong) simp
    then show ?thesis
    proof (rule bio_okI)
      fix j assume j: "j < NBUF"
      have "j \<noteq> i \<Longrightarrow> b_valid (bufs s j) \<Longrightarrow> b_blockno (bufs s j) \<noteq> b"
        using bio_okD(3) [OF ok j i(1)] i by (auto simp: b_def)
      then show "buf_ok (memdisk ?s) (disksize ?s) (bufs ?s j)"
        using bio_okD(2) [OF ok j] i by (auto simp: buf_ok_def)
    next
      fix a c assume "a < NBUF" "c < NBUF" "b_valid (bufs ?s a)" "b_valid (bufs ?s c)" "b_blockno (bufs ?s a) = b_blockno (bufs ?s c)"
      then show "a = c" using bio_okD(3) [OF ok, of a c] i by (auto split: if_splits)
    next
      show "length (memdisk ?s b') = BSIZE" if "b' < disksize ?s" for b'
        using that bio_okD(4) [OF ok] x(3) by simp
    qed
  qed
  moreover have "view ?s = view s"
  proof (rule ext)
    fix b'
    show "view ?s b' = view s b'"
    proof (cases "b' = b")
      case True
      then show ?thesis using view_valid [OF ok i(1,3)] view_valid [OF ok' i(1)] by (simp add: b_def)
    next
      case False
      then show ?thesis by (intro view_cong [OF ok ok']) (auto simp: i split: if_splits)
    qed
  qed
  ultimately show ?thesis by blast
qed

text \<open>The links after \<open>brelse\<close>: the buffer is first in the ring.\<close>

definition relink :: "nat \<Rightarrow> (nat \<Rightarrow> nat) \<Rightarrow> (nat \<Rightarrow> nat) \<Rightarrow> (nat \<Rightarrow> nat) \<times> (nat \<Rightarrow> nat)" where
  "relink b nx pv =
     (let pv1 = pv(nx b := pv b); nx1 = nx(pv1 b := nx b); nx2 = nx1(b := nx1 NBUF); pv2 = pv1(b := NBUF);
          pv3 = pv2(nx2 NBUF := b) in (nx2(NBUF := b), pv3))"

lemma relink_ring:
  assumes "dseg nx pv NBUF (xs @ b # ys) NBUF" and "distinct (xs @ b # ys)" and "NBUF \<notin> set (xs @ b # ys)"
  shows "dseg (fst (relink b nx pv)) (snd (relink b nx pv)) NBUF (b # xs @ ys) NBUF"
proof -
  have "nx b \<noteq> b" using assms dseg_hd [of nx pv b ys NBUF] by (cases ys) (auto simp: dseg_append)
  then have pv1: "(pv(nx b := pv b)) b = pv b" by simp
  have seg: "dseg (nx(pv b := nx b)) (pv(nx b := pv b)) NBUF (xs @ ys) NBUF"
    by (rule dseg_unlink) (use assms in auto)
  have b: "b \<noteq> NBUF" "b \<notin> set (xs @ ys)" using assms by auto
  have "dseg ((nx(pv b := nx b))(b := (nx(pv b := nx b)) NBUF, NBUF := b))
     ((pv(nx b := pv b))(b := NBUF, (nx(pv b := nx b)) NBUF := b)) NBUF (b # xs @ ys) NBUF"
    by (rule dseg_push [OF seg]) (use assms b in auto)
  then show ?thesis using b(1) by (simp add: relink_def Let_def pv1)
qed

lemma upd_buf_links:
  "b_next (bufs (upd_buf k (\<lambda>x. x\<lparr>b_prev := p\<rparr>) s) j) = b_next (bufs s j)"
  "b_prev (bufs (upd_buf k (\<lambda>x. x\<lparr>b_prev := p\<rparr>) s) j) = ((\<lambda>j. b_prev (bufs s j))(k := p)) j"
  "b_next (bufs (upd_buf k (\<lambda>x. x\<lparr>b_next := p\<rparr>) s) j) = ((\<lambda>j. b_next (bufs s j))(k := p)) j"
  "b_prev (bufs (upd_buf k (\<lambda>x. x\<lparr>b_next := p\<rparr>) s) j) = b_prev (bufs s j)"
  "b_next (bufs (upd_buf k (\<lambda>x. x\<lparr>b_busy := q\<rparr>) s) j) = b_next (bufs s j)"
  "b_prev (bufs (upd_buf k (\<lambda>x. x\<lparr>b_busy := q\<rparr>) s) j) = b_prev (bufs s j)"
  "core (bufs (upd_buf k (\<lambda>x. x\<lparr>b_prev := p\<rparr>) s) j) = core (bufs s j)"
  "core (bufs (upd_buf k (\<lambda>x. x\<lparr>b_next := p\<rparr>) s) j) = core (bufs s j)"
  by (auto simp: upd_buf_def core_def)

lemma upd_buf_rest: "upd_buf k f s = s\<lparr>bufs := bufs (upd_buf k f s)\<rparr>"
  by (simp add: upd_buf_def)

lemma brelse_links:
  assumes "b_busy (bufs s i)"
  shows "\<exists>s'. brelse i s = Inr s' \<and> s' = s\<lparr>bufs := bufs s', woken := woken s @ [ChBuf i]\<rparr> \<and>
    (\<lambda>j. b_next (bufs s' j)) = fst (relink i (\<lambda>j. b_next (bufs s j)) (\<lambda>j. b_prev (bufs s j))) \<and>
    (\<lambda>j. b_prev (bufs s' j)) = snd (relink i (\<lambda>j. b_next (bufs s j)) (\<lambda>j. b_prev (bufs s j))) \<and>
    (\<forall>j. core (bufs s' j) = core (if j = i then (bufs s j)\<lparr>b_busy := False\<rparr> else bufs s j))"
proof -
  define s1 where "s1 = upd_buf (b_next (bufs s i)) (\<lambda>x. x\<lparr>b_prev := b_prev (bufs s i)\<rparr>) s"
  define s2 where "s2 = upd_buf (b_prev (bufs s1 i)) (\<lambda>x. x\<lparr>b_next := b_next (bufs s1 i)\<rparr>) s1"
  define s3 where "s3 = upd_buf i (\<lambda>x. x\<lparr>b_next := b_next (bufs s2 NBUF)\<rparr>) s2"
  define s4 where "s4 = upd_buf i (\<lambda>x. x\<lparr>b_prev := NBUF\<rparr>) s3"
  define s5 where "s5 = upd_buf (b_next (bufs s4 NBUF)) (\<lambda>x. x\<lparr>b_prev := i\<rparr>) s4"
  define s6 where "s6 = upd_buf NBUF (\<lambda>x. x\<lparr>b_next := i\<rparr>) s5"
  define s7 where "s7 = upd_buf i (\<lambda>x. x\<lparr>b_busy := False\<rparr>) s6"
  note steps = s1_def s2_def s3_def s4_def s5_def s6_def s7_def
  have r: "brelse i s = Inr (wake (ChBuf i) s7)" using assms by (simp add: brelse_def steps Let_def)
  have nx: "(\<lambda>j. b_next (bufs s7 j)) = fst (relink i (\<lambda>j. b_next (bufs s j)) (\<lambda>j. b_prev (bufs s j)))"
    unfolding steps relink_def Let_def upd_buf_links fst_conv by (simp add: fun_eq_iff)
  have pv: "(\<lambda>j. b_prev (bufs s7 j)) = snd (relink i (\<lambda>j. b_next (bufs s j)) (\<lambda>j. b_prev (bufs s j)))"
    unfolding steps relink_def Let_def upd_buf_links snd_conv by (simp add: fun_eq_iff)
  have core6: "core (bufs s6 j) = core (bufs s j)" for j unfolding steps upd_buf_links by simp
  have "core (bufs s7 j) = core (if j = i then (bufs s j)\<lparr>b_busy := False\<rparr> else bufs s j)" for j
  proof (cases "j = i")
    case True
    have "core (bufs s7 i) = (core (bufs s6 i))\<lparr>b_busy := False\<rparr>" by (simp add: s7_def upd_buf_def core_def)
    then show ?thesis using True by (simp add: core6) (simp add: core_def)
  next
    case False
    then show ?thesis using core6 [of j] by (simp add: s7_def upd_buf_def)
  qed
  moreover have "s7 = s\<lparr>bufs := bufs s7\<rparr>" unfolding steps by (simp add: upd_buf_def)
  then have "wake (ChBuf i) s7 = s\<lparr>bufs := bufs s7, woken := woken s @ [ChBuf i]\<rparr>"
    by (metis (no_types, lifting) bio.select_convs(5) bio.surjective bio.update_convs(1) bio.update_convs(5) wake_def)
  ultimately show ?thesis using r nx pv by (intro exI [of _ "wake (ChBuf i) s7"]) (simp add: wake_def)
qed

lemma coreD:
  assumes "core x = core y"
  shows "b_busy x = b_busy y" "b_valid x = b_valid y" "b_dirty x = b_dirty y" "b_dev x = b_dev y"
    "b_blockno x = b_blockno y" "b_data x = b_data y"
  using arg_cong [OF assms, of b_busy] arg_cong [OF assms, of b_valid] arg_cong [OF assms, of b_dirty]
    arg_cong [OF assms, of b_dev] arg_cong [OF assms, of b_blockno] arg_cong [OF assms, of b_data]
  by (simp_all add: core_def)

lemma brelse_ring:
  assumes "ring (bufs s) xs" and "i < NBUF" and "b_busy (bufs s i)" and "brelse i s = Inr s'"
  shows "ring (bufs s') (i # remove1 i xs)"
proof -
  have "i \<in> set xs" using assms(1,2) by (simp add: ring_def)
  then obtain as bs where xs: "xs = as @ i # bs" "i \<notin> set as" by (meson split_list_first)
  have links: "(\<lambda>j. b_next (bufs s' j)) = fst (relink i (\<lambda>j. b_next (bufs s j)) (\<lambda>j. b_prev (bufs s j)))"
    "(\<lambda>j. b_prev (bufs s' j)) = snd (relink i (\<lambda>j. b_next (bufs s j)) (\<lambda>j. b_prev (bufs s j)))"
    using brelse_links [OF assms(3)] assms(4) by auto
  have d: "distinct (as @ i # bs)" "set (as @ i # bs) = {0..<NBUF}"
    using assms(1) unfolding ring_def xs by blast+
  then have "dseg (\<lambda>j. b_next (bufs s' j)) (\<lambda>j. b_prev (bufs s' j)) NBUF (i # as @ bs) NBUF"
    unfolding links using assms(1) by (intro relink_ring) (simp_all add: ring_def xs)
  moreover have "remove1 i xs = as @ bs" using xs by (simp add: remove1_append)
  ultimately show ?thesis using d by (auto simp: ring_def)
qed

lemma brelse_ok:
  assumes ok: "bio_ok s" and i: "i < NBUF" "b_busy (bufs s i)" "b_valid (bufs s i)"
    and saved: "b_dirty (bufs s i) \<or> b_data (bufs s i) = memdisk s (b_blockno (bufs s i))"
  shows "\<exists>s'. brelse i s = Inr s' \<and> released s i s'"
proof -
  obtain s' where s': "brelse i s = Inr s'" "s' = s\<lparr>bufs := bufs s', woken := woken s @ [ChBuf i]\<rparr>"
    and core: "\<And>j. core (bufs s' j) = core (if j = i then (bufs s j)\<lparr>b_busy := False\<rparr> else bufs s j)"
    using brelse_links [OF i(2)] by blast
  obtain xs where "ring (bufs s) xs" using bio_okD(1) [OF ok] by blast
  then have ring: "ring (bufs s') (i # remove1 i xs)" by (rule brelse_ring [OF _ i(1,2) s'(1)])
  have disk: "memdisk s' = memdisk s" "disksize s' = disksize s" by (subst s'(2), simp)+
  have f: "b_valid (bufs s' j) = b_valid (bufs s j)" "b_blockno (bufs s' j) = b_blockno (bufs s j)"
    "b_data (bufs s' j) = b_data (bufs s j)" "b_dirty (bufs s' j) = b_dirty (bufs s j)" "b_dev (bufs s' j) = b_dev (bufs s j)"
    "b_busy (bufs s' j) = (j \<noteq> i \<and> b_busy (bufs s j))" for j
    using coreD [OF core [of j]] by (auto split: if_splits)
  have ok': "bio_ok s'"
  proof (rule bio_okI [OF ring])
    fix j assume j: "j < NBUF"
    show "buf_ok (memdisk s') (disksize s') (bufs s' j)"
      using bio_okD(2) [OF ok j] saved i by (auto simp: buf_ok_def f disk)
  next
    fix a c assume "a < NBUF" "c < NBUF" "b_valid (bufs s' a)" "b_valid (bufs s' c)" "b_blockno (bufs s' a) = b_blockno (bufs s' c)"
    then show "a = c" using bio_okD(3) [OF ok, of a c] by (simp add: f)
  qed (use bio_okD(4) [OF ok] disk in simp)
  have "view s' = view s" by (rule ext) (rule view_cong [OF ok ok'], simp_all add: f disk)
  then show ?thesis using s' ok' core by (auto simp: released_def)
qed

subsection \<open>The contract by blocks\<close>

lemma busy_valid:
  assumes "bio_ok s" and "i < NBUF" and "b_busy (bufs s i) \<or> b_dirty (bufs s i)"
  shows "b_valid (bufs s i)"
  using bio_okD(2) [OF assms(1,2)] assms(3) by (auto simp: buf_ok_def split: if_splits)

lemma held_iff:
  assumes "bio_ok s" and "i < NBUF" and "b_valid (bufs s i)"
  shows "b_blockno (bufs s i) \<in> held s \<longleftrightarrow> b_busy (bufs s i)" and "b_blockno (bufs s i) \<in> dirty s \<longleftrightarrow> b_dirty (bufs s i)"
proof -
  have "j = i" if "j < NBUF" "b_busy (bufs s j) \<or> b_dirty (bufs s j)" "b_blockno (bufs s j) = b_blockno (bufs s i)" for j
    using bio_okD(3) [OF assms(1) that(1) assms(2) busy_valid [OF assms(1) that(1,2)] assms(3) that(3)] .
  then show "b_blockno (bufs s i) \<in> held s \<longleftrightarrow> b_busy (bufs s i)" "b_blockno (bufs s i) \<in> dirty s \<longleftrightarrow> b_dirty (bufs s i)"
    using assms(2) by (auto simp: held_def dirty_def)
qed

lemma clean_card:
  assumes "bio_ok s"
  shows "card (clean s) = NBUF - card (held s \<union> dirty s)"
proof -
  let ?u = "{i. i < NBUF \<and> (b_busy (bufs s i) \<or> b_dirty (bufs s i))}"
  have "inj_on (\<lambda>i. b_blockno (bufs s i)) ?u"
    using bio_okD(3) [OF assms] busy_valid [OF assms] by (intro inj_onI) blast
  moreover have "(\<lambda>i. b_blockno (bufs s i)) ` ?u = held s \<union> dirty s" by (auto simp: held_def dirty_def)
  ultimately have "card (held s \<union> dirty s) = card ?u" using card_image by metis
  moreover have "clean s = {0..<NBUF} - ?u" by (auto simp: clean_def)
  moreover have "finite ?u" "?u \<subseteq> {0..<NBUF}" by auto
  ultimately show ?thesis by (simp add: card_Diff_subset)
qed

lemma bread_block:
  assumes ok: "bio_ok s" and b: "b < disksize s" "b \<notin> held s" and room: "b \<in> dirty s \<or> card (held s \<union> dirty s) < NBUF"
  shows "\<exists>i s'. bread 1 b s = Inr (i, s') \<and> got s b i s'"
proof (rule bread_ok [OF ok b(1)])
  show "\<not> b_busy (bufs s i)" if "cached s b = Some i" for i
    using cached_Some [OF that] b(2) by (auto simp: held_def)
  show "clean s \<noteq> {}" if "cached s b = None"
  proof -
    have "b \<notin> dirty s" using that busy_valid [OF ok] by (auto simp: dirty_def cached_None)
    then have "0 < card (clean s)" using room clean_card [OF ok] by simp
    then show ?thesis by auto
  qed
qed

lemma got_blocks:
  assumes ok: "bio_ok s" and "got s b i s'"
  shows "held s' = insert b (held s)" and "dirty s' = dirty s"
proof -
  note g = assms(2) [unfolded got_def]
  have same: "bufs s' j = bufs s j" if "j \<noteq> i" for j using g that by blast
  show "held s' = insert b (held s)"
  proof (intro set_eqI iffI)
    fix c assume "c \<in> held s'"
    then obtain j where "j < NBUF" "b_busy (bufs s' j)" "b_blockno (bufs s' j) = c" by (auto simp: held_def)
    then show "c \<in> insert b (held s)" using g same [of j] by (cases "j = i") (auto simp: held_def)
  next
    fix c assume "c \<in> insert b (held s)"
    then consider "c = b" | j where "j < NBUF" "b_busy (bufs s j)" "b_blockno (bufs s j) = c" by (auto simp: held_def)
    then show "c \<in> held s'"
    proof cases
      case 1
      then show ?thesis using g by (auto simp: held_def)
    next
      case (2 j)
      then have "j \<noteq> i" using g by auto
      then show ?thesis using 2 same [of j] by (auto simp: held_def intro!: exI [of _ j])
    qed
  qed
  have i: "b_dirty (bufs s i) \<Longrightarrow> b_blockno (bufs s i) = b" using g cached_Some by blast
  show "dirty s' = dirty s"
  proof (intro set_eqI)
    fix c
    have "b_dirty (bufs s' j) \<and> b_blockno (bufs s' j) = c \<longleftrightarrow> b_dirty (bufs s j) \<and> b_blockno (bufs s j) = c" for j
      using g same [of j] i by (cases "j = i") auto
    then show "c \<in> dirty s' \<longleftrightarrow> c \<in> dirty s" by (simp add: dirty_def)
  qed
qed

lemma released_blocks:
  assumes ok: "bio_ok s" and i: "i < NBUF" "b_busy (bufs s i)" and rel: "released s i s'"
  shows "held s' = held s - {b_blockno (bufs s i)}" and "dirty s' = dirty s"
proof -
  have core: "core (bufs s' j) = core (if j = i then (bufs s j)\<lparr>b_busy := False\<rparr> else bufs s j)" for j
    using rel by (simp add: released_def)
  have f: "b_blockno (bufs s' j) = b_blockno (bufs s j)" "b_dirty (bufs s' j) = b_dirty (bufs s j)"
    "b_busy (bufs s' j) = (j \<noteq> i \<and> b_busy (bufs s j))" for j
    using coreD [OF core [of j]] by (auto split: if_splits)
  have "j = i" if "j < NBUF" "b_busy (bufs s j)" "b_blockno (bufs s j) = b_blockno (bufs s i)" for j
    using bio_okD(3) [OF ok that(1) i(1)] busy_valid [OF ok] that i by blast
  then show "held s' = held s - {b_blockno (bufs s i)}" by (auto simp: held_def f)
  show "dirty s' = dirty s" by (simp add: dirty_def f)
qed

lemma mark_dirty_ok:
  assumes ok: "bio_ok s" and i: "i < NBUF" "b_busy (bufs s i)"
  defines "s' \<equiv> upd_buf i (\<lambda>x. x\<lparr>b_dirty := True\<rparr>) s"
  shows "bio_ok s'" and "view s' = view s" and "held s' = held s" and "dirty s' = insert (b_blockno (bufs s i)) (dirty s)"
proof -
  have eq: "s' = s\<lparr>bufs := (bufs s)(i := (bufs s i)\<lparr>b_dirty := True\<rparr>)\<rparr>" by (simp add: s'_def upd_buf_def)
  note v = busy_valid [OF ok i(1) disjI1 [OF i(2)]]
  show ok': "bio_ok s'"
    unfolding eq using i bio_okD(2) [OF ok i(1)] bio_okD(3) [OF ok, of _ i] v
    by (intro bio_upd [OF ok i(1)]) (auto simp: buf_ok_def)
  show "view s' = view s" by (rule ext) (rule view_cong [OF ok ok'], auto simp: eq split: if_splits)
  show "held s' = held s" using i by (auto simp: held_def eq)
  show "dirty s' = insert (b_blockno (bufs s i)) (dirty s)" using i by (auto simp: dirty_def eq)
qed

lemma set_data_blocks: "held (set_data i d s) = held s" "dirty (set_data i d s) = dirty s"
  by (auto simp: held_def dirty_def set_data_def upd_buf_def)

text \<open>A block that no one holds and that is not dirty is on the disk as it is seen.\<close>

lemma view_clean:
  assumes ok: "bio_ok s" and b: "b \<notin> held s" "b \<notin> dirty s"
  shows "view s b = memdisk s b"
proof (cases "cached s b")
  case None
  then show ?thesis by (simp add: view_def)
next
  case (Some i)
  note i = cached_Some [OF Some]
  have "\<not> b_busy (bufs s i)" "\<not> b_dirty (bufs s i)" using i b by (auto simp: held_def dirty_def)
  then have "b_data (bufs s i) = memdisk s b" using bio_okD(2) [OF ok, of i] i by (auto simp: buf_ok_def)
  then show ?thesis using Some by (simp add: view_def)
qed

subsection \<open>Initialisation\<close>

definition links :: "'a bio_scheme \<Rightarrow> (nat \<Rightarrow> nat) \<times> (nat \<Rightarrow> nat)" where
  "links s = ((\<lambda>j. b_next (bufs s j)), (\<lambda>j. b_prev (bufs s j)))"

lemma binit_step_ok:
  assumes "dseg (fst (links s)) (snd (links s)) NBUF xs NBUF" and "distinct xs" and "NBUF \<notin> set xs" and "b \<notin> set xs" and "b \<noteq> NBUF"
  shows "dseg (fst (links (binit_step b s))) (snd (links (binit_step b s))) NBUF (b # xs) NBUF"
    and "core (bufs (binit_step b s) j) = core (if j = b then (bufs s j)\<lparr>b_dev := NODEV\<rparr> else bufs s j)"
    and "binit_step b s = s\<lparr>bufs := bufs (binit_step b s)\<rparr>"
proof -
  have "links (binit_step b s) =
      ((fst (links s))(b := fst (links s) NBUF, NBUF := b), (snd (links s))(b := NBUF, fst (links s) NBUF := b))"
    using assms(5) by (auto simp: links_def binit_step_def Let_def upd_buf_def fun_eq_iff)
  then show "dseg (fst (links (binit_step b s))) (snd (links (binit_step b s))) NBUF (b # xs) NBUF"
    using dseg_push [OF assms(1,2,4,3,3)] assms(5) by simp
  show "core (bufs (binit_step b s) j) = core (if j = b then (bufs s j)\<lparr>b_dev := NODEV\<rparr> else bufs s j)"
    by (auto simp: binit_step_def Let_def upd_buf_def core_def)
  show "binit_step b s = s\<lparr>bufs := bufs (binit_step b s)\<rparr>"
    by (simp add: binit_step_def Let_def upd_buf_def)
qed

lemma core_dev: "core (x\<lparr>b_dev := d\<rparr>) = (core x)\<lparr>b_dev := d\<rparr>"
  by (cases x) (simp add: core_def)

lemma same_rest: "t = s\<lparr>bufs := f\<rparr> \<Longrightarrow> u = t\<lparr>bufs := g\<rparr> \<Longrightarrow> u = s\<lparr>bufs := g\<rparr>"
  by simp

lemma binit_fold:
  assumes "n \<le> NBUF" and "bufs s = (\<lambda>_. zero_buf)"
  defines "t \<equiv> fold binit_step [0..<n] (upd_buf NBUF (\<lambda>x. x\<lparr>b_prev := NBUF, b_next := NBUF\<rparr>) s)"
  shows "dseg (fst (links t)) (snd (links t)) NBUF (rev [0..<n]) NBUF \<and>
    (\<forall>j. core (bufs t j) = core (if j < n then zero_buf\<lparr>b_dev := NODEV\<rparr> else zero_buf)) \<and> t = s\<lparr>bufs := bufs t\<rparr>"
  using assms(1) unfolding t_def
proof (induction n)
  case 0
  have "core (bufs (upd_buf NBUF (\<lambda>x. x\<lparr>b_prev := NBUF, b_next := NBUF\<rparr>) s) j) = core zero_buf" for j
    using assms(2) by (simp add: upd_buf_def core_def)
  moreover have "dseg (fst (links (upd_buf NBUF (\<lambda>x. x\<lparr>b_prev := NBUF, b_next := NBUF\<rparr>) s)))
      (snd (links (upd_buf NBUF (\<lambda>x. x\<lparr>b_prev := NBUF, b_next := NBUF\<rparr>) s))) NBUF [] NBUF"
    by (simp add: links_def upd_buf_def)
  ultimately show ?case using upd_buf_rest by simp
next
  case (Suc n)
  let ?t = "fold binit_step [0..<n] (upd_buf NBUF (\<lambda>x. x\<lparr>b_prev := NBUF, b_next := NBUF\<rparr>) s)"
  have IH: "dseg (fst (links ?t)) (snd (links ?t)) NBUF (rev [0..<n]) NBUF"
    "\<And>j. core (bufs ?t j) = core (if j < n then zero_buf\<lparr>b_dev := NODEV\<rparr> else zero_buf)" "?t = s\<lparr>bufs := bufs ?t\<rparr>"
    using Suc by simp_all
  have core: "core (if j = n then (bufs ?t j)\<lparr>b_dev := NODEV\<rparr> else bufs ?t j) =
      core (if j < Suc n then zero_buf\<lparr>b_dev := NODEV\<rparr> else zero_buf)" for j
    using IH(2) [of j] by (cases "j = n") (simp_all add: core_dev)
  have "fold binit_step [0..<Suc n] (upd_buf NBUF (\<lambda>x. x\<lparr>b_prev := NBUF, b_next := NBUF\<rparr>) s) = binit_step n ?t" by simp
  moreover note binit_step_ok [OF IH(1), of n]
  moreover have "rev [0..<Suc n] = n # rev [0..<n]" by simp
  moreover have "binit_step n ?t = s\<lparr>bufs := bufs (binit_step n ?t)\<rparr>" if "binit_step n ?t = ?t\<lparr>bufs := bufs (binit_step n ?t)\<rparr>"
    using IH(3) that by (rule same_rest)
  ultimately show ?case using Suc.prems core by simp
qed

lemma binit_ok:
  assumes "bufs s = (\<lambda>_. zero_buf)" and "\<And>b. b < disksize s \<Longrightarrow> length (memdisk s b) = BSIZE"
  shows "bio_ok (binit s)" and "view (binit s) = memdisk s" and "clean (binit s) = {0..<NBUF}"
    and "ring (bufs (binit s)) (rev [0..<NBUF])" and "binit s = s\<lparr>bufs := bufs (binit s)\<rparr>" and "b_busy (bufs (binit s) i) = False"
proof -
  note fold = binit_fold [OF order.refl assms(1), folded binit_def]
  show rest: "binit s = s\<lparr>bufs := bufs (binit s)\<rparr>" using fold by simp
  show ring: "ring (bufs (binit s)) (rev [0..<NBUF])" using fold by (simp add: ring_def links_def)
  have f: "\<not> b_busy (bufs (binit s) i)" "\<not> b_dirty (bufs (binit s) i)" "\<not> b_valid (bufs (binit s) i)"
    "b_dev (bufs (binit s) i) = (if i < NBUF then NODEV else 0)" "length (b_data (bufs (binit s) i)) = BSIZE" for i
  proof -
    have "core (bufs (binit s) i) = core (if i < NBUF then zero_buf\<lparr>b_dev := NODEV\<rparr> else zero_buf)" using fold by blast
    from coreD [OF this] show "\<not> b_busy (bufs (binit s) i)" "\<not> b_dirty (bufs (binit s) i)" "\<not> b_valid (bufs (binit s) i)"
      "b_dev (bufs (binit s) i) = (if i < NBUF then NODEV else 0)" "length (b_data (bufs (binit s) i)) = BSIZE"
      by (auto simp: zero_buf_def)
  qed
  have disk: "memdisk (binit s) = memdisk s" "disksize (binit s) = disksize s" by (subst rest, simp)+
  show "bio_ok (binit s)" by (rule bio_okI [OF ring]) (simp_all add: buf_ok_def f assms(2) disk)
  show "view (binit s) = memdisk s"
  proof (rule ext)
    fix b
    have "cached (binit s) b = None" by (simp add: cached_None f)
    then show "view (binit s) b = memdisk s b" by (simp add: view_def disk)
  qed
  show "clean (binit s) = {0..<NBUF}" by (auto simp: clean_def f)
  show "b_busy (bufs (binit s) i) = False" by (simp add: f)
qed

section \<open>Properties\<close>

text \<open>
  C30: the cache is transparent. When the invariant holds, the block's buffer is not in use and
  either the block is cached or some buffer is neither in use nor dirty, \<open>bread\<close> returns
  without sleeping or panicking a buffer that is held, carries the block's number and has the
  block's current contents; no block is seen differently afterwards, no other buffer changes,
  nothing is written to the disk, and a dirty buffer is never given to another block.
\<close>

theorem bread_transparent:
  assumes "bio_ok s" and "b < disksize s" and "\<forall>i<NBUF. b_valid (bufs s i) \<longrightarrow> b_blockno (bufs s i) = b \<longrightarrow> \<not> b_busy (bufs s i)"
    and "cached s b \<noteq> None \<or> clean s \<noteq> {}"
  shows "\<exists>i s'. bread 1 b s = Inr (i, s') \<and> bio_ok s' \<and> i < NBUF \<and> b_busy (bufs s' i) \<and> b_blockno (bufs s' i) = b \<and>
    b_data (bufs s' i) = view s b \<and> view s' = view s \<and> s' = s\<lparr>bufs := (bufs s)(i := bufs s' i)\<rparr> \<and>
    (b_dirty (bufs s i) \<longrightarrow> cached s b = Some i)"
proof -
  obtain i s' where "bread 1 b s = Inr (i, s')" "got s b i s'"
    using bread_ok [OF assms(1,2)] assms(3,4) cached_Some by blast
  moreover have "bufs s' = (bufs s)(i := bufs s' i)" using \<open>got s b i s'\<close> by (auto simp: got_def fun_eq_iff)
  then have "s' = s\<lparr>bufs := (bufs s)(i := bufs s' i)\<rparr>" using \<open>got s b i s'\<close> unfolding got_def by metis
  ultimately show ?thesis unfolding got_def by blast
qed

lemma boot_example:
  "\<exists>s :: bio. bio_ok s \<and> disksize s = 4 \<and> view s = (\<lambda>b. replicate BSIZE (of_nat b)) \<and> clean s = {0..<NBUF} \<and>
     (\<forall>i. \<not> b_busy (bufs s i)) \<and> (\<forall>b. cached s b = None)"
proof -
  define s0 :: bio where
    "s0 = \<lparr>bufs = \<lambda>_. zero_buf, memdisk = \<lambda>b. replicate BSIZE (of_nat b), disksize = 4, history = [], woken = []\<rparr>"
  have s0: "bufs s0 = (\<lambda>_. zero_buf)" "disksize s0 = 4" "memdisk s0 = (\<lambda>b. replicate BSIZE (of_nat b))"
    by (simp_all add: s0_def)
  have len: "length (memdisk s0 b) = BSIZE" for b by (simp add: s0)
  note init = binit_ok [OF s0(1) len]
  have size: "disksize (binit s0) = 4" by (subst init(5)) (simp add: s0)
  have none: "cached (binit s0) b = None" for b
    unfolding cached_None
  proof (intro allI impI)
    fix i assume i: "i < NBUF" "b_valid (bufs (binit s0) i)"
    have "core (bufs (binit s0) i) = core (zero_buf\<lparr>b_dev := NODEV\<rparr>)"
      using binit_fold [OF order.refl s0(1), folded binit_def] i(1) by presburger
    from coreD(2) [OF this] show "b_blockno (bufs (binit s0) i) \<noteq> b" using i(2) by (simp add: zero_buf_def)
  qed
  show ?thesis
    using init(1,3) init(2) [unfolded s0(3)] init(6) size none by blast
qed

theorem bread_transparent_witness:
  "\<exists>(s :: bio) i s'. bread 1 3 s = Inr (i, s') \<and> b_busy (bufs s' i) \<and> b_data (bufs s' i) = replicate 512 3"
proof -
  obtain s :: bio where s: "bio_ok s" "disksize s = 4" "view s = (\<lambda>b. replicate BSIZE (of_nat b))" "clean s = {0..<NBUF}"
    "\<And>i. \<not> b_busy (bufs s i)" using boot_example by blast
  have "clean s \<noteq> {}" by (simp add: s(4) NBUF_def MAXOPBLOCKS_def)
  then have "\<exists>i s'. bread 1 3 s = Inr (i, s') \<and> b_busy (bufs s' i) \<and> b_data (bufs s' i) = view s 3"
    using bread_transparent [OF s(1), of 3] s(2,5) by auto
  then show ?thesis by (auto simp: s(3) BSIZE_def)
qed

text \<open>
  C32: replacement is least recently used. \<open>brelse\<close> puts the buffer first in the ring and
  keeps the order of the others, and when a block is not cached \<open>bget\<close> takes the last
  buffer in the ring that is neither in use nor dirty.
\<close>

theorem bcache_lru:
  assumes "bio_ok s" and "ring (bufs s) xs" and "cached s b = None" and "i < NBUF" and "b_busy (bufs s i)"
  shows "(\<exists>s'. brelse i s = Inr s' \<and> ring (bufs s') (i # remove1 i xs)) \<and>
    map_sum id fst (bget 1 b s) =
      (case List.find (\<lambda>j. j \<in> clean s) (rev xs) of None \<Rightarrow> Inl (Panic ''bget: no buffers'') | Some j \<Rightarrow> Inr j)"
proof -
  have "j < NBUF" if "j \<in> set (rev xs)" for j using that assms(2) by (simp add: ring_def)
  then have "List.find (\<lambda>j. j \<in> clean s) (rev xs) = List.find (\<lambda>i. \<not> b_busy (bufs s i) \<and> \<not> b_dirty (bufs s i)) (rev xs)"
    by (intro find_cong) (simp_all add: clean_def)
  then have "map_sum id fst (bget 1 b s) =
      (case List.find (\<lambda>j. j \<in> clean s) (rev xs) of None \<Rightarrow> Inl (Panic ''bget: no buffers'') | Some j \<Rightarrow> Inr j)"
    unfolding bget_uncached [OF assms(1,3,2)] by (simp split: option.split)
  then show ?thesis using brelse_links [OF assms(5)] brelse_ring [OF assms(2,4,5)] by blast
qed

theorem bcache_lru_witness:
  "\<exists>(s :: bio) xs i. bio_ok s \<and> cached s 2 = None \<and> b_busy (bufs s i) \<and>
     (\<exists>s'. brelse i s = Inr s' \<and> ring (bufs s') (i # remove1 i xs))"
proof -
  obtain s :: bio where s: "bio_ok s" "disksize s = 4" "clean s = {0..<NBUF}" "\<And>b. cached s b = None" using boot_example by blast
  have "clean s \<noteq> {}" by (simp add: s(3) NBUF_def MAXOPBLOCKS_def)
  then obtain i s1 where g: "got s 3 i s1" using bread_ok [OF s(1), of 3] s(2,4) by auto
  then have s1: "bio_ok s1" "i < NBUF" "b_busy (bufs s1 i)" "b_blockno (bufs s1 i) = 3" "\<And>j. j \<noteq> i \<Longrightarrow> bufs s1 j = bufs s j"
    by (auto simp: got_def)
  have none: "cached s1 2 = None"
    unfolding cached_None
  proof (intro allI impI)
    fix j assume "j < NBUF" "b_valid (bufs s1 j)"
    then show "b_blockno (bufs s1 j) \<noteq> 2" using s1(4,5) s(4) by (cases "j = i") (auto simp: cached_None)
  qed
  obtain xs where "ring (bufs s1) xs" using bio_okD(1) [OF s1(1)] by blast
  then show ?thesis using bcache_lru [OF s1(1) _ none s1(2,3)] s1 none by blast
qed

end
