(* ===== verification/Diskfmt.thy ===== *)
theory Diskfmt
  imports Prelude
begin

section \<open>Little-endian integers in byte blocks\<close>

text \<open>
  The kernel reads and writes the structures of \<open>fs.h\<close> and the log header through
  pointers into the bytes of a buffer. Here are the reads and writes of 16- and 32-bit fields
  at an offset of a block, copying a run of bytes out of and into a block, and the lemmas that
  relate them: a field reads back what was written, and disjoint fields do not interfere.
\<close>

subsection \<open>Definitions\<close>

primrec bytes_le :: "nat \<Rightarrow> nat \<Rightarrow> u8 list" where
  "bytes_le 0 v = []"
| "bytes_le (Suc k) v = of_nat v # bytes_le k (v div 256)"

primrec nat_le :: "u8 list \<Rightarrow> nat" where
  "nat_le [] = 0"
| "nat_le (b # bs) = unat b + 256 * nat_le bs"

definition slice :: "nat \<Rightarrow> nat \<Rightarrow> u8 list \<Rightarrow> u8 list" where
  "slice off n d = take n (drop off d)"

definition patch :: "nat \<Rightarrow> u8 list \<Rightarrow> u8 list \<Rightarrow> u8 list" where
  "patch off bs d = take off d @ bs @ drop (off + length bs) d"

definition get16 :: "u8 list \<Rightarrow> nat \<Rightarrow> nat" where "get16 d off = nat_le (slice off 2 d)"
definition get32 :: "u8 list \<Rightarrow> nat \<Rightarrow> nat" where "get32 d off = nat_le (slice off 4 d)"
definition put16 :: "nat \<Rightarrow> nat \<Rightarrow> u8 list \<Rightarrow> u8 list" where "put16 off v d = patch off (bytes_le 2 v) d"
definition put32 :: "nat \<Rightarrow> nat \<Rightarrow> u8 list \<Rightarrow> u8 list" where "put32 off v d = patch off (bytes_le 4 v) d"

text \<open>A 32-bit value read as a signed \<open>int\<close>.\<close>

definition int32 :: "nat \<Rightarrow> int" where
  "int32 v = (if v < 2 ^ 31 then int v else int v - 2 ^ 32)"

section \<open>Lemmas\<close>

lemma length_bytes_le [simp]: "length (bytes_le k v) = k"
  by (induction k arbitrary: v) auto

lemma nat_le_bytes [simp]: "nat_le (bytes_le k v) = v mod 256 ^ k"
proof (induction k arbitrary: v)
  case (Suc k)
  have "v mod (256 * 256 ^ k) = 256 * (v div 256 mod 256 ^ k) + v mod 256" by (rule mod_mult2_eq)
  then show ?case using Suc by (simp add: unat_of_nat)
qed simp

lemma nat_le_less: "nat_le bs < 256 ^ length bs"
proof (induction bs)
  case (Cons b bs)
  have "unat b < 256" using unsigned_less [of b, where 'a = nat] by simp
  then show ?case using Cons by simp
qed simp

lemma length_slice [simp]: "length (slice off n d) = min n (length d - off)"
  by (simp add: slice_def)

lemma length_patch [simp]: "off + length bs \<le> length d \<Longrightarrow> length (patch off bs d) = length d"
  by (simp add: patch_def)

lemma nth_patch:
  assumes "off + length bs \<le> length d" and "i < length d"
  shows "patch off bs d ! i = (if off \<le> i \<and> i < off + length bs then bs ! (i - off) else d ! i)"
  using assms by (auto simp: patch_def nth_append)

lemma slice_nth: "i < n \<Longrightarrow> off + n \<le> length d \<Longrightarrow> slice off n d ! i = d ! (off + i)"
  by (simp add: slice_def)

lemma slice_patch [simp]: "off + length bs \<le> length d \<Longrightarrow> slice off (length bs) (patch off bs d) = bs"
  by (simp add: slice_def patch_def)

lemma slice_patch_other:
  assumes "off + length bs \<le> length d" and "off' + n \<le> off \<or> off + length bs \<le> off'"
  shows "slice off' n (patch off bs d) = slice off' n d"
proof (rule nth_equalityI)
  fix i assume "i < length (slice off' n (patch off bs d))"
  then have i: "i < n" "off' + i < length d" using assms(1) by auto
  then show "slice off' n (patch off bs d) ! i = slice off' n d ! i"
    using assms nth_patch [OF assms(1), of "off' + i"] by (auto simp: slice_def)
qed (use assms in simp)

lemma length_put [simp]:
  "off + 2 \<le> length d \<Longrightarrow> length (put16 off v d) = length d"
  "off + 4 \<le> length d \<Longrightarrow> length (put32 off v d) = length d"
  by (simp_all add: put16_def put32_def)

lemma get_put:
  "off + 2 \<le> length d \<Longrightarrow> v < 2 ^ 16 \<Longrightarrow> get16 (put16 off v d) off = v"
  "off + 4 \<le> length d \<Longrightarrow> v < 2 ^ 32 \<Longrightarrow> get32 (put32 off v d) off = v"
  using slice_patch [of off "bytes_le 2 v" d] slice_patch [of off "bytes_le 4 v" d]
  by (simp_all add: get16_def get32_def put16_def put32_def)

lemma get32_put32_other:
  "off + 4 \<le> length d \<Longrightarrow> off' + 4 \<le> off \<or> off + 4 \<le> off' \<Longrightarrow> get32 (put32 off v d) off' = get32 d off'"
  using slice_patch_other [of off "bytes_le 4 v" d off' 4] by (simp add: get32_def put32_def)

lemma get_put_other:
  "off + 2 \<le> length d \<Longrightarrow> off' + 2 \<le> off \<or> off + 2 \<le> off' \<Longrightarrow> get16 (put16 off v d) off' = get16 d off'"
  "off + 4 \<le> length d \<Longrightarrow> off' + 2 \<le> off \<or> off + 4 \<le> off' \<Longrightarrow> get16 (put32 off v d) off' = get16 d off'"
  "off + 2 \<le> length d \<Longrightarrow> off' + 4 \<le> off \<or> off + 2 \<le> off' \<Longrightarrow> get32 (put16 off v d) off' = get32 d off'"
  using slice_patch_other [of off "bytes_le 2 v" d off' 2] slice_patch_other [of off "bytes_le 4 v" d off' 2]
    slice_patch_other [of off "bytes_le 2 v" d off' 4]
  by (simp_all add: get16_def get32_def put16_def put32_def)

text \<open>An array of words stored one after the other.\<close>

definition put_words :: "nat \<Rightarrow> (nat \<Rightarrow> nat) \<Rightarrow> nat \<Rightarrow> u8 list \<Rightarrow> u8 list" where
  "put_words a f n = fold (\<lambda>i. put32 (a + 4 * i) (f i)) [0..<n]"

lemma put_words_Suc: "put_words a f (Suc n) d = put32 (a + 4 * n) (f n) (put_words a f n d)"
  by (simp add: put_words_def)

lemma put_words:
  assumes "a + 4 * n \<le> length d"
  shows "length (put_words a f n d) = length d"
    and "off + 2 \<le> a \<or> a + 4 * n \<le> off \<Longrightarrow> get16 (put_words a f n d) off = get16 d off"
    and "off + 4 \<le> a \<or> a + 4 * n \<le> off \<Longrightarrow> get32 (put_words a f n d) off = get32 d off"
    and "j < n \<Longrightarrow> f j < 2 ^ 32 \<Longrightarrow> get32 (put_words a f n d) (a + 4 * j) = f j"
proof -
  have len: "length (put_words a f n d) = length d" if "a + 4 * n \<le> length d" for n
    using that by (induction n) (simp_all add: put_words_Suc, simp add: put_words_def)
  then show "length (put_words a f n d) = length d" using assms by simp
  show "off + 2 \<le> a \<or> a + 4 * n \<le> off \<Longrightarrow> get16 (put_words a f n d) off = get16 d off"
    using assms by (induction n) (auto simp: put_words_Suc get_put_other len, auto simp: put_words_def)
  show "off + 4 \<le> a \<or> a + 4 * n \<le> off \<Longrightarrow> get32 (put_words a f n d) off = get32 d off"
    using assms by (induction n) (auto simp: put_words_Suc get32_put32_other len, auto simp: put_words_def)
  show "j < n \<Longrightarrow> f j < 2 ^ 32 \<Longrightarrow> get32 (put_words a f n d) (a + 4 * j) = f j"
    using assms
  proof (induction n)
    case (Suc n)
    then show ?case by (cases "j = n") (simp_all add: put_words_Suc get_put(2) get32_put32_other len)
  qed simp
qed

lemma get32_less: "get32 d off < 2 ^ 32"
proof -
  have "nat_le (slice off 4 d) < 256 ^ length (slice off 4 d)" by (rule nat_le_less)
  also have "\<dots> \<le> 256 ^ 4" by (rule power_increasing) auto
  finally show ?thesis by (simp add: get32_def)
qed

lemma get16_less: "get16 d off < 2 ^ 16"
proof -
  have "nat_le (slice off 2 d) < 256 ^ length (slice off 2 d)" by (rule nat_le_less)
  also have "\<dots> \<le> 256 ^ 2" by (rule power_increasing) auto
  finally show ?thesis by (simp add: get16_def)
qed

lemma int32_small: "v < 2 ^ 31 \<Longrightarrow> int32 v = int v"
  by (simp add: int32_def)

end
