(* ===== verification/Log.thy ===== *)
theory Log
  imports Bio Diskfmt
begin

section \<open>The write-ahead log (log.c)\<close>

text \<open>
  The log on top of the buffer cache: the state of \<open>struct log\<close> extends the state of the
  cache. The log header on disk is a count followed by block numbers. Counters that C keeps
  in an \<open>int\<close> are integers. A crash keeps the disk and nothing else: the machine boots
  with \<open>binit\<close> and \<open>initlog\<close>, which runs the recovery.

  The lemmas describe every routine by what it does to the view of the blocks, to the disk, to
  the set of dirty blocks and to the order of disk writes; the properties show that a
  transaction survives a crash at any point as a whole or not at all.
\<close>

subsection \<open>Definitions\<close>

record log_st = bio +
  lg_start :: nat
  lg_size :: int
  lg_outstanding :: int
  lg_committing :: bool
  lg_dev :: nat
  lh_n :: int
  lh_block :: "nat \<Rightarrow> nat"

text \<open>The super block; \<open>readsb\<close> is in \<open>fs.c\<close>.\<close>

record superblock =
  sb_size :: nat
  sb_nblocks :: nat
  sb_ninodes :: nat
  sb_nlog :: nat
  sb_logstart :: nat
  sb_inodestart :: nat
  sb_bmapstart :: nat

definition superblock_of :: "u8 list \<Rightarrow> superblock" where
  "superblock_of d = \<lparr>sb_size = get32 d 0, sb_nblocks = get32 d 4, sb_ninodes = get32 d 8, sb_nlog = get32 d 12,
     sb_logstart = get32 d 16, sb_inodestart = get32 d 20, sb_bmapstart = get32 d 24\<rparr>"

definition readsb :: "nat \<Rightarrow> 'a bio_scheme \<Rightarrow> (superblock \<times> 'a bio_scheme) kres" where
  "readsb dev s =
     bindR (bread dev 1 s) (\<lambda>(bp, s).
       let sb = superblock_of (b_data (bufs s bp)) in
       bindR (brelse bp s) (\<lambda>s. Inr (sb, s)))"

text \<open>One round of \<open>install_trans\<close>: from the log to the home location.\<close>

definition install_one :: "nat \<Rightarrow> 'a log_st_scheme \<Rightarrow> 'a log_st_scheme kres" where
  "install_one t s =
     bindR (bread (lg_dev s) (lg_start s + t + 1) s) (\<lambda>(lbuf, s).
     bindR (bread (lg_dev s) (lh_block s t) s) (\<lambda>(dbuf, s).
     bindR (bwrite dbuf (set_data dbuf (b_data (bufs s lbuf)) s)) (\<lambda>s.
     bindR (brelse lbuf s) (brelse dbuf))))"

definition install_trans :: "'a log_st_scheme \<Rightarrow> 'a log_st_scheme kres" where
  "install_trans s = foldR install_one [0..<nat (lh_n s)] s"

definition read_head :: "'a log_st_scheme \<Rightarrow> 'a log_st_scheme kres" where
  "read_head s =
     bindR (bread (lg_dev s) (lg_start s) s) (\<lambda>(b, s).
       let d = b_data (bufs s b); n = int32 (get32 d 0) in
       if n > int LOGSIZE then Inl OutOfBounds
       else brelse b (s\<lparr>lh_n := n,
                        lh_block := (\<lambda>i. if int i < n then get32 d (4 + 4 * i) else lh_block s i)\<rparr>))"

definition write_head :: "'a log_st_scheme \<Rightarrow> 'a log_st_scheme kres" where
  "write_head s =
     bindR (bread (lg_dev s) (lg_start s) s) (\<lambda>(b, s).
       let d = fold (\<lambda>i. put32 (4 + 4 * i) (lh_block s i)) [0..<nat (lh_n s)]
                 (put32 0 (nat (lh_n s mod 2 ^ 32)) (b_data (bufs s b))) in
       bindR (bwrite b (set_data b d s)) (brelse b))"

definition recover_from_log :: "'a log_st_scheme \<Rightarrow> 'a log_st_scheme kres" where
  "recover_from_log s =
     bindR (read_head s) (\<lambda>s. bindR (install_trans s) (\<lambda>s. write_head (s\<lparr>lh_n := 0\<rparr>)))"

definition initlog :: "nat \<Rightarrow> 'a log_st_scheme \<Rightarrow> 'a log_st_scheme kres" where
  "initlog dev s =
     (if 4 + 4 * LOGSIZE \<ge> BSIZE then Inl (Panic ''initlog: too big logheader'')
      else bindR (readsb dev s) (\<lambda>(sb, s).
        recover_from_log (s\<lparr>lg_start := sb_logstart sb, lg_size := int (sb_nlog sb), lg_dev := dev\<rparr>)))"

definition begin_op :: "'a log_st_scheme \<Rightarrow> 'a log_st_scheme kres" where
  "begin_op s =
     (if lg_committing s then Inl (Sleeps ChLog)
      else if lh_n s + (lg_outstanding s + 1) * int MAXOPBLOCKS > int LOGSIZE then Inl (Sleeps ChLog)
      else Inr (s\<lparr>lg_outstanding := lg_outstanding s + 1\<rparr>))"

definition write_log_one :: "nat \<Rightarrow> 'a log_st_scheme \<Rightarrow> 'a log_st_scheme kres" where
  "write_log_one t s =
     bindR (bread (lg_dev s) (lg_start s + t + 1) s) (\<lambda>(tobuf, s).
     bindR (bread (lg_dev s) (lh_block s t) s) (\<lambda>(from, s).
     bindR (bwrite tobuf (set_data tobuf (b_data (bufs s from)) s)) (\<lambda>s.
     bindR (brelse from s) (brelse tobuf))))"

definition write_log :: "'a log_st_scheme \<Rightarrow> 'a log_st_scheme kres" where
  "write_log s = foldR write_log_one [0..<nat (lh_n s)] s"

definition commit :: "'a log_st_scheme \<Rightarrow> 'a log_st_scheme kres" where
  "commit s =
     (if lh_n s > 0 then
        bindR (write_log s) (\<lambda>s. bindR (write_head s) (\<lambda>s. bindR (install_trans s) (\<lambda>s.
          write_head (s\<lparr>lh_n := 0\<rparr>))))
      else Inr s)"

definition end_op :: "'a log_st_scheme \<Rightarrow> 'a log_st_scheme kres" where
  "end_op s =
     (let s = s\<lparr>lg_outstanding := lg_outstanding s - 1\<rparr> in
      if lg_committing s then Inl (Panic ''log.committing'')
      else if lg_outstanding s = 0 then
        bindR (commit (s\<lparr>lg_committing := True\<rparr>)) (\<lambda>s. Inr (wake ChLog (s\<lparr>lg_committing := False\<rparr>)))
      else Inr (wake ChLog s))"

text \<open>The slot for a block: the first entry with its number, or the first free one.\<close>

fun log_slot :: "(nat \<Rightarrow> nat) \<Rightarrow> nat \<Rightarrow> nat list \<Rightarrow> nat option" where
  "log_slot f b [] = None"
| "log_slot f b (i # is) = (if f i = b then Some i else log_slot f b is)"

definition log_write :: "nat \<Rightarrow> 'a log_st_scheme \<Rightarrow> 'a log_st_scheme kres" where
  "log_write b s =
     (if lh_n s \<ge> int LOGSIZE \<or> lh_n s \<ge> lg_size s - 1 then Inl (Panic ''too big a transaction'')
      else if lg_outstanding s < 1 then Inl (Panic ''log_write outside of trans'')
      else
        let blockno = b_blockno (bufs s b);
            i = (case log_slot (lh_block s) blockno [0..<nat (lh_n s)] of Some i \<Rightarrow> i | None \<Rightarrow> nat (lh_n s));
            s = s\<lparr>lh_block := (lh_block s)(i := blockno)\<rparr>;
            s = (if int i = lh_n s then s\<lparr>lh_n := lh_n s + 1\<rparr> else s)
        in Inr (upd_buf b (\<lambda>x. x\<lparr>b_dirty := True\<rparr>) s))"

text \<open>No buffer is in use; the effect of a routine that leaves it so.\<close>

definition quiet :: "'a bio_scheme \<Rightarrow> bool" where
  "quiet s \<longleftrightarrow> bio_ok s \<and> held s = {}"

definition eff :: "'a bio_scheme \<Rightarrow> 'a bio_scheme \<Rightarrow> (nat \<Rightarrow> u8 list) \<Rightarrow> (nat \<Rightarrow> u8 list) \<Rightarrow> nat set \<Rightarrow> (nat \<times> u8 list) list \<Rightarrow> bool" where
  "eff s s' V M D H \<longleftrightarrow> quiet s' \<and> view s' = V \<and> memdisk s' = M \<and> dirty s' = D \<and> history s' = H \<and>
     disksize s' = disksize s \<and> bio.more s' = bio.more s"

text \<open>Copying one held buffer to another and giving both back.\<close>

definition copy_rel :: "nat \<Rightarrow> nat \<Rightarrow> 'a bio_scheme \<Rightarrow> 'a bio_scheme kres" where
  "copy_rel x y s = bindR (bwrite y (set_data y (b_data (bufs s x)) s)) (\<lambda>s. bindR (brelse x s) (brelse y))"

section \<open>Lemmas\<close>

subsection \<open>Block operations in a quiet state\<close>

lemma got_rest:
  assumes "got s b i s'"
  shows "memdisk s' = memdisk s" "history s' = history s" "disksize s' = disksize s" "bio.more s' = bio.more s" "woken s' = woken s"
proof -
  have eq: "s' = s\<lparr>bufs := bufs s'\<rparr>" using assms by (simp add: got_def)
  show "memdisk s' = memdisk s" "history s' = history s" "disksize s' = disksize s" "bio.more s' = bio.more s" "woken s' = woken s"
    by (subst eq, simp)+
qed

lemma released_rest:
  assumes "released s i s'"
  shows "memdisk s' = memdisk s" "history s' = history s" "disksize s' = disksize s" "bio.more s' = bio.more s"
proof -
  have eq: "s' = s\<lparr>bufs := bufs s', woken := woken s @ [ChBuf i]\<rparr>" using assms by (simp add: released_def)
  show "memdisk s' = memdisk s" "history s' = history s" "disksize s' = disksize s" "bio.more s' = bio.more s"
    by (subst eq, simp)+
qed

lemma released_buf:
  assumes "released s i s'" and "j \<noteq> i"
  shows "b_busy (bufs s' j) = b_busy (bufs s j)" "b_valid (bufs s' j) = b_valid (bufs s j)" "b_dirty (bufs s' j) = b_dirty (bufs s j)"
    "b_blockno (bufs s' j) = b_blockno (bufs s j)" "b_data (bufs s' j) = b_data (bufs s j)"
proof -
  have "core (bufs s' j) = core (bufs s j)" using assms by (simp add: released_def)
  from coreD [OF this] show "b_busy (bufs s' j) = b_busy (bufs s j)" "b_valid (bufs s' j) = b_valid (bufs s j)"
    "b_dirty (bufs s' j) = b_dirty (bufs s j)" "b_blockno (bufs s' j) = b_blockno (bufs s j)" "b_data (bufs s' j) = b_data (bufs s j)"
    by simp_all
qed

lemma quietD: "quiet s \<Longrightarrow> bio_ok s" "quiet s \<Longrightarrow> held s = {}"
  by (simp_all add: quiet_def)

lemma quiet_view: "quiet s \<Longrightarrow> b \<notin> dirty s \<Longrightarrow> view s b = memdisk s b"
  by (simp add: quiet_def view_clean)

text \<open>Writing one held buffer and giving it back.\<close>

lemma write_release:
  assumes ok: "bio_ok s" and i: "i < NBUF" "b_busy (bufs s i)" and d: "length d = BSIZE" and b: "b_blockno (bufs s i) = b"
  shows "\<exists>s1. bwrite i (set_data i d s) = Inr s1 \<and> bio_ok s1 \<and> view s1 = (view s)(b := d) \<and> memdisk s1 = (memdisk s)(b := d) \<and>
    history s1 = history s @ [(b, d)] \<and> held s1 = held s \<and> dirty s1 = dirty s - {b} \<and> disksize s1 = disksize s \<and>
    bio.more s1 = bio.more s \<and> (\<forall>j. j \<noteq> i \<longrightarrow> bufs s1 j = bufs s j) \<and>
    b_busy (bufs s1 i) \<and> b_valid (bufs s1 i) \<and> b_blockno (bufs s1 i) = b \<and> b_data (bufs s1 i) = d \<and> \<not> b_dirty (bufs s1 i)"
proof -
  note v = busy_valid [OF ok i(1) disjI1 [OF i(2)]]
  let ?t = "set_data i d s"
  have t: "b_busy (bufs ?t i)" "b_valid (bufs ?t i)" "b_blockno (bufs ?t i) = b" "b_data (bufs ?t i) = d"
    "\<And>j. j \<noteq> i \<Longrightarrow> bufs ?t j = bufs s j" "memdisk ?t = memdisk s" "history ?t = history s" "disksize ?t = disksize s" "bio.more ?t = bio.more s"
    using i v b by (simp_all add: set_data_def upd_buf_def)
  note okt = set_data_ok [OF ok i v d]
  obtain s1 where s1: "bwrite i ?t = Inr s1" "bio_ok s1" "view s1 = view ?t"
    "s1 = ?t\<lparr>bufs := (bufs ?t)(i := (bufs ?t i)\<lparr>b_dirty := False, b_valid := True\<rparr>),
        memdisk := (memdisk ?t)(b := d), history := history ?t @ [(b, d)]\<rparr>"
    using bwrite_ok [OF okt(1) i(1) t(1,2)] t(3,4) by auto
  have f: "bufs s1 = (bufs ?t)(i := (bufs ?t i)\<lparr>b_dirty := False, b_valid := True\<rparr>)" "memdisk s1 = (memdisk s)(b := d)"
    "history s1 = history s @ [(b, d)]" "disksize s1 = disksize s" "bio.more s1 = bio.more s"
    by (subst s1(4), simp add: t)+
  have "held s1 = held ?t" using i(1) by (auto simp: held_def f(1))
  moreover have "dirty s1 = dirty ?t - {b}"
  proof (intro set_eqI)
    fix c
    have "b_dirty (bufs s1 j) \<and> b_blockno (bufs s1 j) = c \<longleftrightarrow> c \<noteq> b \<and> b_dirty (bufs ?t j) \<and> b_blockno (bufs ?t j) = c" if "j < NBUF" for j
    proof (cases "j = i")
      case False
      have "b_dirty (bufs ?t j) \<Longrightarrow> b_blockno (bufs ?t j) \<noteq> b"
        using bio_okD(3) [OF okt(1) that i(1)] busy_valid [OF okt(1) that] t(2,3) False by auto
      then show ?thesis using False by (auto simp: f(1))
    qed (use t in \<open>auto simp: f(1)\<close>)
    then show "c \<in> dirty s1 \<longleftrightarrow> c \<in> dirty ?t - {b}" by (auto simp: dirty_def)
  qed
  ultimately show ?thesis using s1(1,2,3) f t okt(2) b by (simp add: set_data_blocks)
qed

lemma copy_tail:
  assumes ok: "bio_ok s" and x: "x < NBUF" "b_busy (bufs s x)" and y: "y < NBUF" "b_busy (bufs s y)" and ne: "x \<noteq> y"
    and saved: "b_dirty (bufs s x) \<or> b_data (bufs s x) = memdisk s (b_blockno (bufs s x))"
    and h: "held s = {b_blockno (bufs s x), b_blockno (bufs s y)}"
  defines "b \<equiv> b_blockno (bufs s y)" and "d \<equiv> b_data (bufs s x)"
  shows "\<exists>s'. copy_rel x y s = Inr s' \<and> eff s s' ((view s)(b := d)) ((memdisk s)(b := d)) (dirty s - {b}) (history s @ [(b, d)])"
proof -
  have vx: "b_valid (bufs s x)" "b_valid (bufs s y)" using busy_valid [OF ok] x y by blast+
  have bne: "b_blockno (bufs s x) \<noteq> b" using bio_okD(3) [OF ok x(1) y(1) vx] ne by (auto simp: b_def)
  have d: "length d = BSIZE" using bio_okD(2) [OF ok x(1)] by (simp add: buf_ok_def d_def)
  obtain s1 where s1: "bwrite y (set_data y d s) = Inr s1" "bio_ok s1" "view s1 = (view s)(b := d)" "memdisk s1 = (memdisk s)(b := d)"
    "history s1 = history s @ [(b, d)]" "held s1 = held s" "dirty s1 = dirty s - {b}" "disksize s1 = disksize s"
    "bio.more s1 = bio.more s" "\<And>j. j \<noteq> y \<Longrightarrow> bufs s1 j = bufs s j"
    "b_busy (bufs s1 y)" "b_valid (bufs s1 y)" "b_blockno (bufs s1 y) = b" "b_data (bufs s1 y) = d" "\<not> b_dirty (bufs s1 y)"
    using write_release [OF ok y d, of b] b_def by blast
  have x1: "bufs s1 x = bufs s x" using s1(10) ne by blast
  then have "b_dirty (bufs s1 x) \<or> b_data (bufs s1 x) = memdisk s1 (b_blockno (bufs s1 x))"
    using saved bne s1(4) by simp
  then obtain s2 where s2: "brelse x s1 = Inr s2" "released s1 x s2"
    using brelse_ok [OF s1(2) x(1)] x1 x(2) vx(1) by auto
  note h2 = released_blocks [OF s1(2) x(1) _ s2(2)] and y2 = released_buf [OF s2(2) ne [symmetric]] and r2 = released_rest [OF s2(2)]
  have ok2: "bio_ok s2" "view s2 = view s1" using s2(2) by (simp_all add: released_def)
  have y2': "b_busy (bufs s2 y)" "b_valid (bufs s2 y)" "b_data (bufs s2 y) = memdisk s2 (b_blockno (bufs s2 y))"
    using y2 s1(4,11,12,13,14) r2(1) by simp_all
  then obtain s3 where s3: "brelse y s2 = Inr s3" "released s2 y s3"
    using brelse_ok [OF ok2(1) y(1)] by blast
  note h3 = released_blocks [OF ok2(1) y(1) y2'(1) s3(2)] and r3 = released_rest [OF s3(2)]
  have "held s3 = {}" using h3(1) h2(1) x1 x(2) y2(4) s1(6,13) h b_def by auto
  moreover have "bio_ok s3" "view s3 = view s2" using s3(2) by (simp_all add: released_def)
  ultimately have "eff s s3 ((view s)(b := d)) ((memdisk s)(b := d)) (dirty s - {b}) (history s @ [(b, d)])"
    using h3(2) h2(2) x1 x(2) r2 r3 s1 ok2 by (simp add: eff_def quiet_def)
  then show ?thesis using s1(1) s2(1) s3(1) by (simp add: copy_rel_def d_def)
qed

lemma gotD:
  assumes "got s b i s'"
  shows "bio_ok s'" "j \<noteq> i \<Longrightarrow> bufs s' j = bufs s j" "i < NBUF" "\<not> b_busy (bufs s i)" "b_busy (bufs s' i)" "b_valid (bufs s' i)"
    "b_blockno (bufs s' i) = b" "b_data (bufs s' i) = view s b" "view s' = view s"
  using assms unfolding got_def by blast+

lemma finite_dirty: "finite (dirty s)"
proof (rule finite_subset)
  show "dirty s \<subseteq> (\<lambda>i. b_blockno (bufs s i)) ` {0..<NBUF}" by (auto simp: dirty_def)
qed simp

text \<open>Nothing here depends on the fields that extend the state of the cache.\<close>

lemma bio_cong:
  assumes "bufs s' = bufs s" "memdisk s' = memdisk s" "disksize s' = disksize s"
  shows "bio_ok s' = bio_ok s" "view s' = view s" "held s' = held s" "dirty s' = dirty s" "quiet s' = quiet s"
proof -
  show "view s' = view s" by (rule ext) (simp only: view_def cached_def assms)
  show "bio_ok s' = bio_ok s" "held s' = held s" "dirty s' = dirty s" "quiet s' = quiet s"
    by (simp_all add: bio_ok_def held_def dirty_def quiet_def assms)
qed

text \<open>Reading a block and giving it back, and writing it in between.\<close>

lemma read_one:
  assumes q: "quiet s" and b: "b < disksize s" and room: "b \<in> dirty s \<or> card (dirty s) < NBUF"
  shows "\<exists>i s1. bread 1 b s = Inr (i, s1) \<and> got s b i s1 \<and> held s1 = {b} \<and> dirty s1 = dirty s \<and>
    (b_dirty (bufs s1 i) \<or> b_data (bufs s1 i) = memdisk s1 b)"
proof -
  note ok = quietD(1) [OF q] and h = quietD(2) [OF q]
  obtain i s1 where s1: "bread 1 b s = Inr (i, s1)" "got s b i s1" using bread_block [OF ok b] h room by auto
  note g = gotD [OF s1(2)] and bl = got_blocks [OF ok s1(2)]
  have "b_dirty (bufs s1 i) \<longleftrightarrow> b \<in> dirty s" using held_iff(2) [OF g(1) g(3,6)] g(7) bl(2) by simp
  then have "b_dirty (bufs s1 i) \<or> b_data (bufs s1 i) = memdisk s1 b"
    using quiet_view [OF q, of b] g(8) got_rest(1) [OF s1(2)] by auto
  then show ?thesis using s1 bl h by auto
qed

lemma release_one:
  assumes ok: "bio_ok s" and i: "i < NBUF" "b_busy (bufs s i)" "b_blockno (bufs s i) = b" and h: "held s = {b}"
    and saved: "b_dirty (bufs s i) \<or> b_data (bufs s i) = memdisk s b"
  shows "\<exists>s'. brelse i s = Inr s' \<and> eff s s' (view s) (memdisk s) (dirty s) (history s)"
proof -
  obtain s' where s': "brelse i s = Inr s'" "released s i s'"
    using brelse_ok [OF ok i(1,2) busy_valid [OF ok i(1)]] saved i by auto
  note r = released_blocks [OF ok i(1,2) s'(2)] and rr = released_rest [OF s'(2)]
  have "bio_ok s'" "view s' = view s" using s'(2) by (simp_all add: released_def)
  then show ?thesis using s'(1) r rr h i(3) by (simp add: eff_def quiet_def)
qed

lemma write_one:
  assumes g: "got s b i s1" and h: "held s1 = {b}" and d: "length d = BSIZE"
  shows "\<exists>s'. bindR (bwrite i (set_data i d s1)) (brelse i) = Inr s' \<and>
    eff s s' ((view s)(b := d)) ((memdisk s)(b := d)) (dirty s1 - {b}) (history s @ [(b, d)])"
proof -
  note gd = gotD [OF g] and gr = got_rest [OF g]
  obtain s2 where s2: "bwrite i (set_data i d s1) = Inr s2" "bio_ok s2" "view s2 = (view s1)(b := d)" "memdisk s2 = (memdisk s1)(b := d)"
    "history s2 = history s1 @ [(b, d)]" "held s2 = held s1" "dirty s2 = dirty s1 - {b}" "disksize s2 = disksize s1" "bio.more s2 = bio.more s1"
    "b_busy (bufs s2 i)" "b_blockno (bufs s2 i) = b" "b_data (bufs s2 i) = d"
    using write_release [OF gd(1,3,5) d gd(7)] by blast
  obtain s3 where "brelse i s2 = Inr s3" "eff s2 s3 (view s2) (memdisk s2) (dirty s2) (history s2)"
    using release_one [OF s2(2) gd(3) s2(10,11)] s2(4,6,12) h by auto
  then show ?thesis using s2 gr gd(9) by (simp add: eff_def)
qed

text \<open>Reading two blocks with no buffer in use.\<close>

lemma read_two:
  assumes q: "quiet s" and ab: "a \<noteq> b" "a < disksize s" "b < disksize s" and room: "card (dirty s) < NBUF" "b \<in> dirty s \<or> Suc (card (dirty s)) < NBUF"
  shows "\<exists>i j s1 s2. bread 1 a s = Inr (i, s1) \<and> bread 1 b s1 = Inr (j, s2) \<and> got s a i s1 \<and> got s1 b j s2 \<and> i \<noteq> j \<and>
    bufs s2 i = bufs s1 i \<and> held s2 = {a, b} \<and> dirty s2 = dirty s \<and>
    (b_dirty (bufs s2 i) \<longleftrightarrow> a \<in> dirty s) \<and> (b_dirty (bufs s2 j) \<longleftrightarrow> b \<in> dirty s)"
proof -
  note ok = quietD(1) [OF q] and h = quietD(2) [OF q]
  have "card (held s \<union> dirty s) < NBUF" using h room by simp
  then obtain i s1 where s1: "bread 1 a s = Inr (i, s1)" "got s a i s1" using bread_block [OF ok ab(2)] h by auto
  note g1 = gotD [OF s1(2)] and b1 = got_blocks [OF ok s1(2)] and r1 = got_rest [OF s1(2)]
  have "card (insert a (dirty s)) \<le> Suc (card (dirty s))" by (simp add: card_insert_if finite_dirty)
  then have "b \<in> dirty s1 \<or> card (held s1 \<union> dirty s1) < NBUF"
    using room(2) by (auto simp: b1 h)
  moreover have "b \<notin> held s1" "b < disksize s1" using ab b1 h r1(3) by simp_all
  ultimately obtain j s2 where s2: "bread 1 b s1 = Inr (j, s2)" "got s1 b j s2"
    using bread_block [OF g1(1), of b] by blast
  note g2 = gotD [OF s2(2)] and b2 = got_blocks [OF g1(1) s2(2)]
  have ij: "i \<noteq> j" using g1(5) g2(4) by blast
  then have same: "bufs s2 i = bufs s1 i" using g2(2) by blast
  have h2: "held s2 = {a, b}" "dirty s2 = dirty s" using b1 b2 h by auto
  have di: "b_dirty (bufs s2 i) \<longleftrightarrow> a \<in> dirty s"
    using held_iff(2) [OF g2(1) g1(3)] g1(6,7) same h2(2) by simp
  have dj: "b_dirty (bufs s2 j) \<longleftrightarrow> b \<in> dirty s"
    using held_iff(2) [OF g2(1) g2(3)] g2(6,7) h2(2) by simp
  show ?thesis using s1 s2 ij same h2 di dj by blast
qed

text \<open>Copying a block onto another, in either direction.\<close>

lemma copy_two:
  assumes q: "quiet s" and ab: "a \<noteq> b" "a < disksize s" "b < disksize s" and room: "card (dirty s) < NBUF" "b \<in> dirty s \<or> Suc (card (dirty s)) < NBUF"
  shows "\<exists>i j s1 s2 s' s''. bread 1 a s = Inr (i, s1) \<and> bread 1 b s1 = Inr (j, s2) \<and> bio.more s1 = bio.more s \<and>
    copy_rel i j s2 = Inr s' \<and> copy_rel j i s2 = Inr s'' \<and>
    eff s s' ((view s)(b := view s a)) ((memdisk s)(b := view s a)) (dirty s - {b}) (history s @ [(b, view s a)]) \<and>
    eff s s'' ((view s)(a := view s b)) ((memdisk s)(a := view s b)) (dirty s - {a}) (history s @ [(a, view s b)])"
proof -
  obtain i j s1 s2 where r: "bread 1 a s = Inr (i, s1)" "bread 1 b s1 = Inr (j, s2)" "got s a i s1" "got s1 b j s2" "i \<noteq> j"
    "bufs s2 i = bufs s1 i" "held s2 = {a, b}" "dirty s2 = dirty s"
    "b_dirty (bufs s2 i) \<longleftrightarrow> a \<in> dirty s" "b_dirty (bufs s2 j) \<longleftrightarrow> b \<in> dirty s"
    using read_two [OF assms] by blast
  note g1 = gotD [OF r(3)] and g2 = gotD [OF r(4)] and r1 = got_rest [OF r(3)] and r2 = got_rest [OF r(4)]
  have i: "b_busy (bufs s2 i)" "b_blockno (bufs s2 i) = a" "b_data (bufs s2 i) = view s a" using g1 r(6) by simp_all
  have j: "b_blockno (bufs s2 j) = b" "b_data (bufs s2 j) = view s b" using g1 g2 by simp_all
  have disk: "memdisk s2 = memdisk s" "view s2 = view s" "history s2 = history s" using r1 r2 g1 g2 by simp_all
  have more: "bio.more s2 = bio.more s" "disksize s2 = disksize s" using r1 r2 by simp_all
  have sv: "b_dirty (bufs s2 i) \<or> b_data (bufs s2 i) = memdisk s2 (b_blockno (bufs s2 i))"
    "b_dirty (bufs s2 j) \<or> b_data (bufs s2 j) = memdisk s2 (b_blockno (bufs s2 j))"
    using r(9,10) quiet_view [OF q] i j disk by auto
  obtain s' where "copy_rel i j s2 = Inr s'"
     "eff s s' ((view s)(b := view s a)) ((memdisk s)(b := view s a)) (dirty s - {b}) (history s @ [(b, view s a)])"
    using copy_tail [OF g2(1) g1(3) i(1) g2(3,5) r(5) sv(1)] i j r(7,8) disk more by (auto simp: eff_def)
  moreover obtain s'' where "copy_rel j i s2 = Inr s''"
     "eff s s'' ((view s)(a := view s b)) ((memdisk s)(a := view s b)) (dirty s - {a}) (history s @ [(a, view s b)])"
    using copy_tail [OF g2(1) g2(3,5) g1(3) i(1) r(5) [symmetric] sv(2)] i j r(7,8) disk more by (auto simp: eff_def insert_commute)
  ultimately show ?thesis using r(1,2) r1(4) by blast
qed

subsection \<open>The routines of the log\<close>

text \<open>The log's fields do not change in block operations.\<close>

lemma log_fields:
  assumes "bio.more s' = bio.more s"
  shows "lg_start s' = lg_start s" "lg_dev s' = lg_dev s" "lh_n s' = lh_n s" "lh_block s' = lh_block s"
    "lg_size s' = lg_size s" "lg_outstanding s' = lg_outstanding s" "lg_committing s' = lg_committing s" "log_st.more s' = log_st.more s"
  using assms by (cases s; cases s'; simp)+

text \<open>The layout the log relies on: its blocks and the home blocks are on the disk and apart.\<close>

definition log_layout :: "nat \<Rightarrow> nat \<Rightarrow> nat \<Rightarrow> nat list \<Rightarrow> bool" where
  "log_layout n start len bs \<longleftrightarrow> start + len \<le> n \<and> length bs < len \<and> length bs < NBUF \<and>
     distinct bs \<and> (\<forall>b\<in>set bs. b < n \<and> \<not> (start \<le> b \<and> b < start + len))"

lemma log_layoutD:
  assumes "log_layout n start len bs" and "t < length bs"
  shows "bs ! t < n" "start + t + 1 < n" "bs ! t \<noteq> start + u + 1 \<or> len \<le> u + 1" "bs ! t \<noteq> start"
proof -
  have "bs ! t \<in> set bs" using assms(2) by simp
  then show "bs ! t < n" "start + t + 1 < n" "bs ! t \<noteq> start + u + 1 \<or> len \<le> u + 1" "bs ! t \<noteq> start"
    using assms unfolding log_layout_def by fastforce+
qed

lemma write_log_one_ok:
  assumes q: "quiet s" and dev: "lg_dev s = 1" and lay: "log_layout (disksize s) (lg_start s) len bs" and t: "t < length bs"
    and b: "lh_block s t = bs ! t" and dirty: "dirty s = set bs"
  defines "a \<equiv> lg_start s + t + 1" and "d \<equiv> view s (bs ! t)"
  shows "\<exists>s'. write_log_one t s = Inr s' \<and> eff s s' ((view s)(a := d)) ((memdisk s)(a := d)) (dirty s) (history s @ [(a, d)])"
proof -
  note l = log_layoutD [OF lay t]
  have tl: "t + 1 < len" using lay t by (simp add: log_layout_def)
  have ne: "a \<noteq> bs ! t" using l(3) [of t] tl by (auto simp: a_def)
  have "a \<notin> set bs" using lay tl by (auto simp: log_layout_def a_def)
  moreover have "card (dirty s) < NBUF" "bs ! t \<in> dirty s"
    using lay t distinct_card [of bs] by (auto simp: dirty log_layout_def)
  ultimately obtain i j s1 s2 s' where r: "bread 1 a s = Inr (i, s1)" "bread 1 (bs ! t) s1 = Inr (j, s2)" "bio.more s1 = bio.more s"
    "copy_rel j i s2 = Inr s'"
    "eff s s' ((view s)(a := d)) ((memdisk s)(a := d)) (dirty s - {a}) (history s @ [(a, d)])"
    using copy_two [OF q ne] l(1,2) unfolding a_def d_def by blast
  have "write_log_one t s = Inr s'"
    using r(1,2,4) log_fields [OF r(3)] dev b by (simp add: write_log_one_def a_def copy_rel_def)
  then show ?thesis using r(5) \<open>a \<notin> set bs\<close> dirty by auto
qed

lemma install_one_ok:
  assumes q: "quiet s" and dev: "lg_dev s = 1" and lay: "log_layout (disksize s) (lg_start s) len bs" and t: "t < length bs"
    and b: "lh_block s t = bs ! t" and room: "card (dirty s) < NBUF" "bs ! t \<in> dirty s \<or> Suc (card (dirty s)) < NBUF"
  defines "a \<equiv> lg_start s + t + 1" and "c \<equiv> bs ! t"
  shows "\<exists>s'. install_one t s = Inr s' \<and> eff s s' ((view s)(c := view s a)) ((memdisk s)(c := view s a)) (dirty s - {c}) (history s @ [(c, view s a)])"
proof -
  note l = log_layoutD [OF lay t]
  have tl: "t + 1 < len" using lay t by (simp add: log_layout_def)
  have ne: "a \<noteq> bs ! t" using l(3) [of t] tl by (auto simp: a_def)
  obtain i j s1 s2 s' where r: "bread 1 a s = Inr (i, s1)" "bread 1 (bs ! t) s1 = Inr (j, s2)" "bio.more s1 = bio.more s"
    "copy_rel i j s2 = Inr s'"
    "eff s s' ((view s)(c := view s a)) ((memdisk s)(c := view s a)) (dirty s - {c}) (history s @ [(c, view s a)])"
    using copy_two [OF q ne _ _ room] l(1,2) unfolding a_def c_def by blast
  have "install_one t s = Inr s'"
    using r(1,2,4) log_fields [OF r(3)] dev b by (simp add: install_one_def a_def copy_rel_def)
  then show ?thesis using r(5) by blast
qed

lemma foldR_snoc: "foldR f (xs @ [x]) s = bindR (foldR f xs s) (f x)"
  by (induction xs arbitrary: s) (simp_all add: bindR_def split: sum.split)

text \<open>What the first \<open>k\<close> rounds of \<open>write_log\<close> and of \<open>install_trans\<close> do.\<close>

definition logged :: "nat \<Rightarrow> nat list \<Rightarrow> (nat \<Rightarrow> u8 list) \<Rightarrow> nat \<Rightarrow> (nat \<Rightarrow> u8 list) \<Rightarrow> nat \<Rightarrow> u8 list" where
  "logged start bs V k = fold (\<lambda>t W. W(start + t + 1 := V (bs ! t))) [0..<k]"

definition installed :: "nat \<Rightarrow> nat list \<Rightarrow> (nat \<Rightarrow> u8 list) \<Rightarrow> nat \<Rightarrow> (nat \<Rightarrow> u8 list) \<Rightarrow> nat \<Rightarrow> u8 list" where
  "installed start bs V k = fold (\<lambda>t W. W(bs ! t := V (start + t + 1))) [0..<k]"

lemma logged_at:
  "logged start bs V k W b = (if start < b \<and> b \<le> start + k then V (bs ! (b - start - 1)) else W b)"
  by (induction k) (auto simp: logged_def le_Suc_eq)

lemma installed_other: "b \<notin> set (take k bs) \<Longrightarrow> k \<le> length bs \<Longrightarrow> installed start bs V k W b = W b"
  by (induction k) (auto simp: installed_def take_Suc_conv_app_nth)

lemma installed_at: "distinct bs \<Longrightarrow> t < k \<Longrightarrow> k \<le> length bs \<Longrightarrow> installed start bs V k W (bs ! t) = V (start + t + 1)"
  by (induction k) (auto simp: installed_def less_Suc_eq nth_eq_iff_index_eq)

lemma write_log_ok:
  assumes q: "quiet s" and dev: "lg_dev s = 1" and lay: "log_layout (disksize s) (lg_start s) len bs"
    and n: "lh_n s = int (length bs)" and bl: "\<And>t. t < length bs \<Longrightarrow> lh_block s t = bs ! t" and dirty: "dirty s = set bs"
  shows "\<exists>s'. write_log s = Inr s' \<and>
    eff s s' (logged (lg_start s) bs (view s) (length bs) (view s)) (logged (lg_start s) bs (view s) (length bs) (memdisk s)) (dirty s)
      (history s @ map (\<lambda>t. (lg_start s + t + 1, view s (bs ! t))) [0..<length bs])"
proof -
  have "\<exists>s'. foldR write_log_one [0..<k] s = Inr s' \<and>
    eff s s' (logged (lg_start s) bs (view s) k (view s)) (logged (lg_start s) bs (view s) k (memdisk s)) (dirty s)
      (history s @ map (\<lambda>t. (lg_start s + t + 1, view s (bs ! t))) [0..<k])" if "k \<le> length bs" for k
    using that
  proof (induction k)
    case 0
    then show ?case using q by (simp add: eff_def logged_def)
  next
    case (Suc k)
    then obtain s1 where s1: "foldR write_log_one [0..<k] s = Inr s1"
      "eff s s1 (logged (lg_start s) bs (view s) k (view s)) (logged (lg_start s) bs (view s) k (memdisk s)) (dirty s)
        (history s @ map (\<lambda>t. (lg_start s + t + 1, view s (bs ! t))) [0..<k])" by auto
    note e = s1(2) [unfolded eff_def]
    have f: "lg_start s1 = lg_start s" "lg_dev s1 = 1" "lh_block s1 k = bs ! k"
      using log_fields [of s1 s] e dev bl Suc.prems by simp_all
    have k: "k < length bs" using Suc.prems by simp
    have same: "view s1 (bs ! k) = view s (bs ! k)"
    proof -
      have "\<not> (lg_start s < bs ! k \<and> bs ! k \<le> lg_start s + k)"
        using lay k nth_mem [OF k] unfolding log_layout_def by fastforce
      then show ?thesis using e by (auto simp: logged_at)
    qed
    obtain s2 where s2: "write_log_one k s1 = Inr s2"
      "eff s1 s2 ((view s1)(lg_start s + k + 1 := view s (bs ! k))) ((memdisk s1)(lg_start s + k + 1 := view s (bs ! k))) (dirty s1)
        (history s1 @ [(lg_start s + k + 1, view s (bs ! k))])"
      using write_log_one_ok [of s1 len bs k] e f lay k dirty same by auto
    have "foldR write_log_one [0..<Suc k] s = Inr s2" using s1(1) s2(1) by (simp add: foldR_snoc)
    moreover have "eff s s2 (logged (lg_start s) bs (view s) (Suc k) (view s)) (logged (lg_start s) bs (view s) (Suc k) (memdisk s)) (dirty s)
        (history s @ map (\<lambda>t. (lg_start s + t + 1, view s (bs ! t))) [0..<Suc k])"
      using s2(2) e by (simp add: eff_def logged_def)
    ultimately show ?case by blast
  qed
  from this [of "length bs"] show ?thesis by (simp add: write_log_def n)
qed

text \<open>
  \<open>install_trans\<close> runs with the home blocks dirty (in \<open>commit\<close>) or with no dirty
  block at all (in recovery).
\<close>

lemma install_trans_ok:
  assumes q: "quiet s" and dev: "lg_dev s = 1" and lay: "log_layout (disksize s) (lg_start s) len bs"
    and n: "lh_n s = int (length bs)" and bl: "\<And>t. t < length bs \<Longrightarrow> lh_block s t = bs ! t" and dirty: "dirty s = set bs \<or> dirty s = {}"
  shows "\<exists>s'. install_trans s = Inr s' \<and>
    eff s s' (installed (lg_start s) bs (view s) (length bs) (view s)) (installed (lg_start s) bs (view s) (length bs) (memdisk s)) {}
      (history s @ map (\<lambda>t. (bs ! t, view s (lg_start s + t + 1))) [0..<length bs])"
proof -
  have "\<exists>s'. foldR install_one [0..<k] s = Inr s' \<and>
    eff s s' (installed (lg_start s) bs (view s) k (view s)) (installed (lg_start s) bs (view s) k (memdisk s)) (dirty s - set (take k bs))
      (history s @ map (\<lambda>t. (bs ! t, view s (lg_start s + t + 1))) [0..<k])" if "k \<le> length bs" for k
    using that
  proof (induction k)
    case 0
    then show ?case using q by (simp add: eff_def installed_def)
  next
    case (Suc k)
    then obtain s1 where s1: "foldR install_one [0..<k] s = Inr s1"
      "eff s s1 (installed (lg_start s) bs (view s) k (view s)) (installed (lg_start s) bs (view s) k (memdisk s)) (dirty s - set (take k bs))
        (history s @ map (\<lambda>t. (bs ! t, view s (lg_start s + t + 1))) [0..<k])" by auto
    note e = s1(2) [unfolded eff_def]
    have f: "lg_start s1 = lg_start s" "lg_dev s1 = 1" "lh_block s1 k = bs ! k"
      using log_fields [of s1 s] e dev bl Suc.prems by simp_all
    have k: "k < length bs" using Suc.prems by simp
    have dist: "distinct bs" "length bs < NBUF" using lay by (simp_all add: log_layout_def)
    have "bs ! k \<notin> set (take k bs)" using dist(1) k by (auto simp: in_set_conv_nth nth_eq_iff_index_eq)
    then have room: "bs ! k \<in> dirty s1 \<or> Suc (card (dirty s1)) < NBUF" and room': "card (dirty s1) < NBUF"
      using dirty e k card_mono [of "set bs" "dirty s1"] distinct_card [OF dist(1)] dist(2) by (auto simp: NBUF_def MAXOPBLOCKS_def)
    have same: "view s1 (lg_start s + k + 1) = view s (lg_start s + k + 1)"
    proof -
      have "lg_start s + k + 1 \<notin> set (take k bs)"
        using lay k by (auto simp: log_layout_def dest!: in_set_takeD)
      then have "installed (lg_start s) bs (view s) k (view s) (lg_start s + k + 1) = view s (lg_start s + k + 1)"
        using k by (intro installed_other) simp_all
      then show ?thesis using e by simp
    qed
    obtain s2 where s2: "install_one k s1 = Inr s2"
      "eff s1 s2 ((view s1)(bs ! k := view s (lg_start s + k + 1))) ((memdisk s1)(bs ! k := view s (lg_start s + k + 1))) (dirty s1 - {bs ! k})
        (history s1 @ [(bs ! k, view s (lg_start s + k + 1))])"
      using install_one_ok [of s1 len bs k] e f lay k room room' same by auto
    have "foldR install_one [0..<Suc k] s = Inr s2" using s1(1) s2(1) by (simp add: foldR_snoc)
    moreover have "eff s s2 (installed (lg_start s) bs (view s) (Suc k) (view s)) (installed (lg_start s) bs (view s) (Suc k) (memdisk s))
        (dirty s - set (take (Suc k) bs)) (history s @ map (\<lambda>t. (bs ! t, view s (lg_start s + t + 1))) [0..<Suc k])"
    proof -
      have "dirty s2 = dirty s - set (take (Suc k) bs)" using s2(2) e k by (auto simp: eff_def take_Suc_conv_app_nth)
      then show ?thesis using s2(2) e by (simp add: eff_def installed_def)
    qed
    ultimately show ?case by blast
  qed
  from this [of "length bs"] dirty show ?thesis by (auto simp: install_trans_def n)
qed

text \<open>The header block that \<open>write_head\<close> builds.\<close>

definition header :: "nat list \<Rightarrow> u8 list \<Rightarrow> u8 list" where
  "header bs d = fold (\<lambda>i. put32 (4 + 4 * i) (bs ! i)) [0..<length bs] (put32 0 (length bs) d)"

lemma header_fold:
  assumes "k \<le> length bs" and "length bs \<le> LOGSIZE" and "length d = BSIZE"
  defines "h \<equiv> fold (\<lambda>i. put32 (4 + 4 * i) (bs ! i)) [0..<k] (put32 0 (length bs) d)"
  shows "length h = BSIZE" and "get32 h 0 = length bs" and "\<forall>b\<in>set bs. b < 2 ^ 32 \<Longrightarrow> t < k \<Longrightarrow> get32 h (4 + 4 * t) = bs ! t"
proof -
  have "length h = BSIZE \<and> get32 h 0 = length bs \<and> ((\<forall>b\<in>set bs. b < 2 ^ 32) \<longrightarrow> (\<forall>t<k. get32 h (4 + 4 * t) = bs ! t))"
    using assms(1) unfolding h_def
  proof (induction k)
    case 0
    then show ?case using assms(2,3) by (simp add: get_put LOGSIZE_def MAXOPBLOCKS_def BSIZE_def)
  next
    case (Suc k)
    let ?h = "fold (\<lambda>i. put32 (4 + 4 * i) (bs ! i)) [0..<k] (put32 0 (length bs) d)"
    have IH: "length ?h = BSIZE" "get32 ?h 0 = length bs" "(\<forall>b\<in>set bs. b < 2 ^ 32) \<Longrightarrow> t < k \<Longrightarrow> get32 ?h (4 + 4 * t) = bs ! t" for t
      using Suc by simp_all
    have off: "4 + 4 * k + 4 \<le> length ?h" using Suc.prems assms(2) by (simp add: IH LOGSIZE_def MAXOPBLOCKS_def BSIZE_def)
    have k: "bs ! k \<in> set bs" using Suc.prems by simp
    have "get32 (put32 (4 + 4 * k) (bs ! k) ?h) (4 + 4 * t) = bs ! t" if "\<forall>b\<in>set bs. b < 2 ^ 32" "t < Suc k" for t
      using get_put(2) [OF off] get32_put32_other [OF off, of "4 + 4 * t"] IH(3) [OF that(1), of t] that k by (cases "t = k") auto
    then show ?case using off IH(1,2) get32_put32_other [OF off, of 0] by simp
  qed
  then show "length h = BSIZE" "get32 h 0 = length bs" "\<forall>b\<in>set bs. b < 2 ^ 32 \<Longrightarrow> t < k \<Longrightarrow> get32 h (4 + 4 * t) = bs ! t"
    by blast+
qed

lemmas header_get = header_fold [OF order.refl, folded header_def]

lemma write_head_ok:
  assumes q: "quiet s" and dev: "lg_dev s = 1" and st: "lg_start s < disksize s" "lg_start s \<notin> dirty s"
    and n: "lh_n s = int (length bs)" "length bs \<le> LOGSIZE" and bl: "\<And>t. t < length bs \<Longrightarrow> lh_block s t = bs ! t"
    and room: "card (dirty s) < NBUF"
  defines "h \<equiv> header bs (view s (lg_start s))"
  shows "\<exists>s'. write_head s = Inr s' \<and>
    eff s s' ((view s)(lg_start s := h)) ((memdisk s)(lg_start s := h)) (dirty s) (history s @ [(lg_start s, h)])"
proof -
  obtain i s1 where s1: "bread 1 (lg_start s) s = Inr (i, s1)" "got s (lg_start s) i s1" "held s1 = {lg_start s}" "dirty s1 = dirty s"
    using read_one [OF q st(1)] room by blast
  note g = gotD [OF s1(2)] and f = log_fields [OF got_rest(4) [OF s1(2)]]
  have len: "length (view s (lg_start s)) = BSIZE"
    using bio_okD(2) [OF g(1,3)] g(8) by (simp add: buf_ok_def)
  have "fold (\<lambda>i. put32 (4 + 4 * i) (lh_block s i)) [0..<length bs] d = fold (\<lambda>i. put32 (4 + 4 * i) (bs ! i)) [0..<length bs] d" for d
    using bl by (intro fold_cong) auto
  moreover have "nat (lh_n s mod 2 ^ 32) = length bs"
    using n by (simp add: LOGSIZE_def MAXOPBLOCKS_def)
  ultimately have "fold (\<lambda>i. put32 (4 + 4 * i) (lh_block s i)) [0..<nat (lh_n s)] (put32 0 (nat (lh_n s mod 2 ^ 32)) (view s (lg_start s))) = h"
    by (simp add: h_def header_def n)
  then have "write_head s = bindR (bwrite i (set_data i h s1)) (brelse i)"
    using s1(1) dev f g(8) by (simp add: write_head_def Let_def)
  moreover have "length h = BSIZE" unfolding h_def by (rule header_get(1) [OF n(2) len])
  moreover have "dirty s - {lg_start s} = dirty s" using st(2) by simp
  ultimately show ?thesis using write_one [OF s1(2,3)] s1(4) by metis
qed

lemma read_head_ok:
  assumes q: "quiet s" and dev: "lg_dev s = 1" and st: "lg_start s < disksize s" and room: "card (dirty s) < NBUF"
  defines "h \<equiv> view s (lg_start s)"
  assumes n: "get32 h 0 \<le> LOGSIZE"
  shows "\<exists>s'. read_head s = Inr s' \<and> quiet s' \<and> view s' = view s \<and> memdisk s' = memdisk s \<and> dirty s' = dirty s \<and>
    history s' = history s \<and> disksize s' = disksize s \<and> lg_start s' = lg_start s \<and> lg_dev s' = lg_dev s \<and>
    lh_n s' = int (get32 h 0) \<and> (\<forall>i<get32 h 0. lh_block s' i = get32 h (4 + 4 * i))"
proof -
  obtain i s1 where s1: "bread 1 (lg_start s) s = Inr (i, s1)" "got s (lg_start s) i s1" "held s1 = {lg_start s}" "dirty s1 = dirty s"
    "b_dirty (bufs s1 i) \<or> b_data (bufs s1 i) = memdisk s1 (lg_start s)"
    using read_one [OF q st] room by blast
  note g = gotD [OF s1(2)] and gr = got_rest [OF s1(2)] and f = log_fields [OF got_rest(4) [OF s1(2)]]
  have n32: "int32 (get32 h 0) = int (get32 h 0)" using n by (intro int32_small) (simp add: LOGSIZE_def MAXOPBLOCKS_def)
  define s2 where "s2 = s1\<lparr>lh_n := int (get32 h 0),
    lh_block := (\<lambda>j. if j < get32 h 0 then get32 h (4 + 4 * j) else lh_block s1 j)\<rparr>"
  have b2: "bufs s2 = bufs s1" "memdisk s2 = memdisk s1" "disksize s2 = disksize s1" "history s2 = history s1" by (simp_all add: s2_def)
  note c2 = bio_cong [OF b2(1,2,3)]
  obtain s3 where s3: "brelse i s2 = Inr s3" "eff s2 s3 (view s2) (memdisk s2) (dirty s2) (history s2)"
    using release_one [of s2 i "lg_start s"] g c2 b2 s1(3,5) by auto
  have "read_head s = Inr s3"
    using s1(1) s3(1) dev f g(8) n n32 by (simp add: read_head_def Let_def h_def [symmetric] s2_def cong: if_cong)
  moreover have "lg_start s3 = lg_start s" "lg_dev s3 = lg_dev s" "lh_n s3 = int (get32 h 0)" "\<forall>i<get32 h 0. lh_block s3 i = get32 h (4 + 4 * i)"
    using log_fields [of s3 s2] s3(2) f by (simp_all add: eff_def s2_def)
  ultimately show ?thesis using s3(2) c2 b2 g(9) gr s1(4) by (auto simp: eff_def)
qed

text \<open>A committed transaction: every home block is on the disk as it was seen, the header is clear.\<close>

definition log_writes :: "nat \<Rightarrow> nat list \<Rightarrow> (nat \<Rightarrow> u8 list) \<Rightarrow> (nat \<times> u8 list) list" where
  "log_writes start bs V = map (\<lambda>t. (start + t + 1, V (bs ! t))) [0..<length bs]"

definition home_writes :: "nat list \<Rightarrow> (nat \<Rightarrow> u8 list) \<Rightarrow> (nat \<times> u8 list) list" where
  "home_writes bs V = map (\<lambda>b. (b, V b)) bs"

definition commit_writes :: "nat \<Rightarrow> nat list \<Rightarrow> (nat \<Rightarrow> u8 list) \<Rightarrow> (nat \<times> u8 list) list" where
  "commit_writes start bs V =
     (let h = header bs (V start) in
      log_writes start bs V @ [(start, h)] @ home_writes bs V @ [(start, header [] h)])"

text \<open>The state in which \<open>commit\<close> runs: the blocks of the transaction are the dirty ones.\<close>

definition trans_ok :: "nat \<Rightarrow> nat list \<Rightarrow> 'a log_st_scheme \<Rightarrow> bool" where
  "trans_ok len bs s \<longleftrightarrow> quiet s \<and> lg_dev s = 1 \<and> log_layout (disksize s) (lg_start s) len bs \<and>
     lh_n s = int (length bs) \<and> (\<forall>t<length bs. lh_block s t = bs ! t) \<and> dirty s = set bs"

lemma trans_okD:
  assumes "trans_ok len bs s"
  shows "quiet s" "lg_dev s = 1" "log_layout (disksize s) (lg_start s) len bs" "lh_n s = int (length bs)"
    "t < length bs \<Longrightarrow> lh_block s t = bs ! t" "dirty s = set bs"
  using assms unfolding trans_ok_def by blast+

lemma layout_facts:
  assumes "log_layout n start len bs"
  shows "start < n" "start \<notin> set bs" "card (set bs) < NBUF" "length bs \<le> LOGSIZE" "0 < len" "log_layout n start len []"
  using assms distinct_card [of bs] by (auto simp: log_layout_def NBUF_def LOGSIZE_def)

text \<open>After the log and the header are written, installing gives back what was seen.\<close>

lemma installed_logged:
  assumes lay: "log_layout n start len bs" and b: "b < start \<or> start + len \<le> b"
    and V'_def: "V' = (logged start bs V (length bs) V)(start := h)"
  shows "installed start bs V' (length bs) V' b = V b" and "t < length bs \<Longrightarrow> V' (start + t + 1) = V (bs ! t)"
proof -
  show at: "V' (start + t + 1) = V (bs ! t)" if "t < length bs" for t
    using that by (simp add: V'_def logged_at)
  show "installed start bs V' (length bs) V' b = V b"
  proof (cases "b \<in> set bs")
    case True
    then obtain t where t: "t < length bs" "b = bs ! t" by (auto simp: in_set_conv_nth)
    then show ?thesis using installed_at [of bs t "length bs" start V' V'] at lay by (simp add: log_layout_def)
  next
    case False
    then have "installed start bs V' (length bs) V' b = V' b" by (intro installed_other) simp_all
    also have "\<dots> = V b" using b lay by (auto simp: V'_def logged_at log_layout_def)
    finally show ?thesis .
  qed
qed

lemma commit_ok:
  assumes tr: "trans_ok len bs s" and ne: "bs \<noteq> []"
  shows "\<exists>s'. commit s = Inr s' \<and> trans_ok len [] s' \<and> disksize s' = disksize s \<and> lg_start s' = lg_start s \<and>
    lg_size s' = lg_size s \<and> lg_outstanding s' = lg_outstanding s \<and> lg_committing s' = lg_committing s \<and>
    (\<forall>b. b < lg_start s \<or> lg_start s + len \<le> b \<longrightarrow> view s' b = view s b) \<and>
    history s' = history s @ commit_writes (lg_start s) bs (view s)"
proof -
  note t = trans_okD [OF tr]
  note lf = layout_facts [OF t(3)]
  let ?st = "lg_start s" and ?n = "length bs" and ?V = "view s"
  obtain s1 where s1: "write_log s = Inr s1"
    "eff s s1 (logged ?st bs ?V ?n ?V) (logged ?st bs ?V ?n (memdisk s)) (dirty s) (history s @ log_writes ?st bs ?V)"
    using write_log_ok [OF t] unfolding log_writes_def by blast
  note e1 = s1(2) [unfolded eff_def] note f1 = log_fields [of s1 s]
  define h where "h = header bs (?V ?st)"
  have h1: "view s1 ?st = ?V ?st" using e1 by (simp add: logged_at)
  obtain s2 where s2: "write_head s1 = Inr s2"
    "eff s1 s2 ((view s1)(?st := h)) ((memdisk s1)(?st := h)) (dirty s1) (history s1 @ [(?st, h)])"
    using write_head_ok [of s1 bs] e1 f1 t lf h1 by (auto simp: h_def)
  note e2 = s2(2) [unfolded eff_def] note f2 = log_fields [of s2 s1]
  define V2 where "V2 = (logged ?st bs ?V ?n ?V)(?st := h)"
  have V2: "view s2 = V2" using e1 e2 by (simp add: V2_def)
  have t2: "lg_dev s2 = 1" "lg_start s2 = ?st" "lh_n s2 = int ?n" "\<And>t. t < ?n \<Longrightarrow> lh_block s2 t = bs ! t" "dirty s2 = set bs" "disksize s2 = disksize s"
    using e1 e2 f1 f2 t by simp_all
  obtain s3 where s3: "install_trans s2 = Inr s3"
    "eff s2 s3 (installed ?st bs V2 ?n V2) (installed ?st bs V2 ?n (memdisk s2)) {}
      (history s2 @ map (\<lambda>t. (bs ! t, V2 (?st + t + 1))) [0..<?n])"
    using install_trans_ok [of s2 len bs] e2 t2 t(3) V2 by auto
  note e3 = s3(2) [unfolded eff_def] note f3 = log_fields [of s3 s2]
  define s4 where "s4 = s3\<lparr>lh_n := 0\<rparr>"
  have b4: "bufs s4 = bufs s3" "memdisk s4 = memdisk s3" "disksize s4 = disksize s3" by (simp_all add: s4_def)
  note c4 = bio_cong [OF b4]
  have st3: "view s3 ?st = h"
  proof -
    have "installed ?st bs V2 ?n V2 ?st = V2 ?st" using lf(2) by (intro installed_other) simp_all
    then show ?thesis using e3 by (simp add: V2_def)
  qed
  obtain s5 where s5: "write_head s4 = Inr s5"
    "eff s4 s5 ((view s3)(?st := header [] h)) ((memdisk s3)(?st := header [] h)) {} (history s3 @ [(?st, header [] h)])"
    using write_head_ok [of s4 "[]"] c4 b4 e3 f3 t2 lf st3 by (auto simp: s4_def NBUF_def MAXOPBLOCKS_def LOGSIZE_def)
  note e5 = s5(2) [unfolded eff_def] note f5 = log_fields [of s5 s4]
  have "commit s = Inr s5" using s1(1) s2(1) s3(1) s5(1) t(4) ne by (simp add: commit_def s4_def)
  moreover have "trans_ok len [] s5"
    using e5 f5 f3 e3 t2 lf(6) b4 by (simp add: trans_ok_def s4_def)
  moreover have "disksize s5 = disksize s" "lg_start s5 = ?st" "lg_size s5 = lg_size s" "lg_outstanding s5 = lg_outstanding s" "lg_committing s5 = lg_committing s"
    using e1 e2 e3 e5 f1 f2 f3 f5 b4 by (simp_all add: s4_def)
  moreover have "view s5 b = view s b" if "b < ?st \<or> ?st + len \<le> b" for b
    using installed_logged(1) [OF t(3) that V2_def] that lf(5) e3 e5 by auto
  moreover have "map (\<lambda>t. (bs ! t, V2 (?st + t + 1))) [0..<?n] = home_writes bs ?V"
  proof -
    have "map (\<lambda>t. (bs ! t, V2 (?st + t + 1))) [0..<?n] = map (\<lambda>t. (bs ! t, ?V (bs ! t))) [0..<?n]"
      unfolding V2_def by (intro map_cong) (auto simp: logged_at)
    also have "\<dots> = map (\<lambda>b. (b, ?V b)) (map ((!) bs) [0..<?n])" by (simp add: comp_def)
    finally show ?thesis by (simp add: home_writes_def map_nth)
  qed
  then have "history s5 = history s @ commit_writes ?st bs ?V"
    using e1 e2 e3 e5 by (simp add: s4_def commit_writes_def Let_def h_def)
  ultimately show ?thesis by blast
qed

subsection \<open>Recovery\<close>

lemma readsb_ok:
  assumes q: "quiet s" and b: "1 < disksize s" and room: "card (dirty s) < NBUF"
  shows "\<exists>s'. readsb 1 s = Inr (superblock_of (view s 1), s') \<and> eff s s' (view s) (memdisk s) (dirty s) (history s)"
proof -
  obtain i s1 where s1: "bread 1 1 s = Inr (i, s1)" "got s 1 i s1" "held s1 = {1}" "dirty s1 = dirty s"
    "b_dirty (bufs s1 i) \<or> b_data (bufs s1 i) = memdisk s1 1"
    using read_one [OF q b] room by blast
  note g = gotD [OF s1(2)] and gr = got_rest [OF s1(2)]
  obtain s2 where s2: "brelse i s1 = Inr s2" "eff s1 s2 (view s1) (memdisk s1) (dirty s1) (history s1)"
    using release_one [OF g(1,3,5,7) s1(3,5)] by blast
  have "readsb 1 s = Inr (superblock_of (view s 1), s2)" using s1(1) s2(1) g(8) by (simp add: readsb_def Let_def)
  then show ?thesis using s2(2) g(9) gr s1(4) by (simp add: eff_def)
qed

lemma recover_ok:
  assumes q: "quiet s" and dev: "lg_dev s = 1" and dirty: "dirty s = {}"
  defines "h \<equiv> view s (lg_start s)"
  assumes n: "get32 h 0 = length bs" and bl: "\<And>t. t < length bs \<Longrightarrow> get32 h (4 + 4 * t) = bs ! t"
    and lay: "log_layout (disksize s) (lg_start s) len bs"
  defines "V \<equiv> (installed (lg_start s) bs (view s) (length bs) (view s))(lg_start s := header [] h)"
  shows "\<exists>s'. recover_from_log s = Inr s' \<and> trans_ok len [] s' \<and> view s' = V \<and> lg_start s' = lg_start s \<and> disksize s' = disksize s"
proof -
  note lf = layout_facts [OF lay]
  have room: "card (dirty s) < NBUF" using dirty by (simp add: NBUF_def MAXOPBLOCKS_def)
  obtain s1 where s1: "read_head s = Inr s1" "quiet s1" "view s1 = view s" "memdisk s1 = memdisk s" "dirty s1 = dirty s"
    "disksize s1 = disksize s" "lg_start s1 = lg_start s" "lg_dev s1 = lg_dev s" "lh_n s1 = int (length bs)"
    "\<And>i. i < length bs \<Longrightarrow> lh_block s1 i = bs ! i"
    using read_head_ok [OF q dev lf(1) room] n bl lf(4) unfolding h_def by auto
  obtain s2 where s2: "install_trans s1 = Inr s2" "eff s1 s2 (installed (lg_start s) bs (view s) (length bs) (view s))
      (installed (lg_start s) bs (view s) (length bs) (memdisk s)) {} (history s1 @ map (\<lambda>t. (bs ! t, view s (lg_start s + t + 1))) [0..<length bs])"
    using install_trans_ok [of s1 len bs] s1 dev lay dirty by auto
  note e2 = s2(2) [unfolded eff_def] note f2 = log_fields [of s2 s1]
  define s3 where "s3 = s2\<lparr>lh_n := 0\<rparr>"
  have b3: "bufs s3 = bufs s2" "memdisk s3 = memdisk s2" "disksize s3 = disksize s2" by (simp_all add: s3_def)
  note c3 = bio_cong [OF b3]
  have st: "view s2 (lg_start s) = h"
    using e2 installed_other [of "lg_start s" "length bs" bs] lf(2) by (simp add: h_def)
  obtain s4 where s4: "write_head s3 = Inr s4"
    "eff s3 s4 ((view s2)(lg_start s := header [] h)) ((memdisk s2)(lg_start s := header [] h)) {} (history s3 @ [(lg_start s, header [] h)])"
    using write_head_ok [of s3 "[]"] c3 b3 e2 f2 s1 dev lf st by (auto simp: s3_def NBUF_def MAXOPBLOCKS_def LOGSIZE_def)
  note e4 = s4(2) [unfolded eff_def] note f4 = log_fields [of s4 s3]
  have "recover_from_log s = Inr s4" using s1(1) s2(1) s4(1) by (simp add: recover_from_log_def s3_def)
  moreover have "trans_ok len [] s4" using e4 f4 f2 e2 s1 dev lf(6) b3 by (simp add: trans_ok_def s3_def)
  moreover have "view s4 = V" using e4 e2 by (simp add: V_def)
  moreover have "lg_start s4 = lg_start s" "disksize s4 = disksize s" using e4 f4 f2 e2 s1 b3 by (simp_all add: s3_def)
  ultimately show ?thesis by blast
qed

text \<open>Rebooting with the given disk: the memory of the cache and of the log is zero.\<close>

definition reboot :: "(nat \<Rightarrow> u8 list) \<Rightarrow> 'a log_st_scheme \<Rightarrow> 'a log_st_scheme" where
  "reboot D s = s\<lparr>bufs := \<lambda>_. zero_buf, memdisk := D, history := [], woken := [], lg_start := 0, lg_size := 0,
     lg_outstanding := 0, lg_committing := False, lg_dev := 0, lh_n := 0, lh_block := \<lambda>_. 0\<rparr>"

lemma boot_recovers:
  assumes len: "\<And>b. b < disksize s \<Longrightarrow> length (D b) = BSIZE" and one: "1 < disksize s"
    and sb: "sb_logstart (superblock_of (D 1)) = start"
    and n: "get32 (D start) 0 = length bs" and bl: "\<And>t. t < length bs \<Longrightarrow> get32 (D start) (4 + 4 * t) = bs ! t"
    and lay: "log_layout (disksize s) start len bs"
  shows "\<exists>s'. initlog 1 (binit (reboot D s)) = Inr s' \<and> trans_ok len [] s' \<and>
    memdisk s' = (installed start bs D (length bs) D)(start := header [] (D start)) \<and>
    lg_start s' = start \<and> disksize s' = disksize s"
proof -
  let ?r = "reboot D s"
  have r: "bufs ?r = (\<lambda>_. zero_buf)" "memdisk ?r = D" "disksize ?r = disksize s" by (simp_all add: reboot_def)
  note b = binit_ok [of ?r, OF r(1), unfolded r(2,3), OF len]
  have rest: "disksize (binit ?r) = disksize s" by (subst b(5)) (simp_all add: reboot_def)
  have nd: "\<not> b_dirty (bufs (binit ?r) i)" if "i < NBUF" for i
  proof -
    have "i \<in> clean (binit ?r)" using b(3) that by simp
    then show ?thesis by (simp add: clean_def)
  qed
  have q: "quiet (binit ?r)" "dirty (binit ?r) = {}" using b(1,6) nd by (auto simp: quiet_def held_def dirty_def)
  obtain s1 where s1: "readsb 1 (binit ?r) = Inr (superblock_of (D 1), s1)"
    "eff (binit ?r) s1 (view (binit ?r)) (memdisk (binit ?r)) {} (history (binit ?r))"
    using readsb_ok [OF q(1)] q(2) rest one b(2) by (auto simp: NBUF_def MAXOPBLOCKS_def)
  note e1 = s1(2) [unfolded eff_def]
  define s2 where "s2 = s1\<lparr>lg_start := start, lg_size := int (sb_nlog (superblock_of (D 1))), lg_dev := 1\<rparr>"
  have b2: "bufs s2 = bufs s1" "memdisk s2 = memdisk s1" "disksize s2 = disksize s1" by (simp_all add: s2_def)
  note c2 = bio_cong [OF b2]
  have v2: "view s2 = D" "quiet s2" "dirty s2 = {}" "disksize s2 = disksize s" "lg_dev s2 = 1" "lg_start s2 = start"
    using c2 e1 b(2) b2 rest by (simp_all add: s2_def)
  obtain s3 where s3: "recover_from_log s2 = Inr s3" "trans_ok len [] s3"
    "view s3 = (installed start bs D (length bs) D)(start := header [] (D start))" "lg_start s3 = start" "disksize s3 = disksize s"
    using recover_ok [OF v2(2,5,3), of bs len] v2 n bl lay by auto
  have "4 + 4 * LOGSIZE < BSIZE" by (simp add: LOGSIZE_def MAXOPBLOCKS_def BSIZE_def)
  then have "initlog 1 (binit ?r) = Inr s3" using s1(1) s3(1) sb by (simp add: initlog_def s2_def)
  moreover have "memdisk s3 = view s3"
    using quiet_view [OF trans_okD(1) [OF s3(2)]] trans_okD(6) [OF s3(2)] by (simp add: fun_eq_iff)
  ultimately show ?thesis using s3 by auto
qed

subsection \<open>Logging a block\<close>

lemma log_slot_Some: "log_slot f b is = Some i \<Longrightarrow> i \<in> set is \<and> f i = b"
  by (induction "is") (auto split: if_splits)

lemma log_slot_None: "log_slot f b is = None \<longleftrightarrow> (\<forall>i\<in>set is. f i \<noteq> b)"
  by (induction "is") auto

text \<open>The blocks of the transaction after \<open>log_write\<close>.\<close>

definition absorb :: "nat \<Rightarrow> nat list \<Rightarrow> nat list" where
  "absorb b bs = (if b \<in> set bs then bs else bs @ [b])"

lemma set_absorb: "set (absorb b bs) = insert b (set bs)"
  by (auto simp: absorb_def)

lemma log_write_header:
  assumes n: "lh_n s = int (length bs)" and bl: "\<And>t. t < length bs \<Longrightarrow> lh_block s t = bs ! t"
    and room: "length bs < LOGSIZE" "int (length bs) < lg_size s - 1" and out: "1 \<le> lg_outstanding s" and b: "b_blockno (bufs s i) = b"
  shows "\<exists>s'. log_write i s = Inr (upd_buf i (\<lambda>x. x\<lparr>b_dirty := True\<rparr>) s') \<and> s' = s\<lparr>lh_n := lh_n s', lh_block := lh_block s'\<rparr> \<and>
    lh_n s' = int (length (absorb b bs)) \<and> (\<forall>t<length (absorb b bs). lh_block s' t = absorb b bs ! t)"
proof (cases "b \<in> set bs")
  case True
  then obtain t where t: "t < length bs" "bs ! t = b" by (auto simp: in_set_conv_nth)
  then have "log_slot (lh_block s) b [0..<length bs] \<noteq> None" using bl by (auto simp: log_slot_None)
  then obtain j where j: "log_slot (lh_block s) b [0..<length bs] = Some j" by blast
  then have j': "j < length bs" "lh_block s j = b" using log_slot_Some by fastforce+
  have "log_write i s = Inr (upd_buf i (\<lambda>x. x\<lparr>b_dirty := True\<rparr>) s)"
    using n room out j j' b by (simp add: log_write_def Let_def fun_upd_idem)
  then show ?thesis using True n bl by (intro exI [of _ s]) (simp add: absorb_def)
next
  case False
  then have "log_slot (lh_block s) b [0..<length bs] = None" using bl by (auto simp: log_slot_None)
  then have "log_write i s = Inr (upd_buf i (\<lambda>x. x\<lparr>b_dirty := True\<rparr>)
      (s\<lparr>lh_block := (lh_block s)(length bs := b), lh_n := int (length bs) + 1\<rparr>))"
    using n room out b by (simp add: log_write_def Let_def)
  then show ?thesis using False n bl
    by (intro exI [of _ "s\<lparr>lh_block := (lh_block s)(length bs := b), lh_n := int (length bs) + 1\<rparr>"])
      (auto simp: absorb_def nth_append less_Suc_eq)
qed

text \<open>Reading, changing, logging and giving back a block.\<close>

lemma log_write_ok:
  assumes tr: "trans_ok len bs s" and b: "b < disksize s" "b < lg_start s \<or> lg_start s + len \<le> b" and d: "length d = BSIZE"
    and room: "length bs + 1 < len" "length bs + 1 < NBUF" "lg_size s = int len" and out: "1 \<le> lg_outstanding s"
  shows "\<exists>i s1 s2 s'. bread 1 b s = Inr (i, s1) \<and> b_data (bufs s1 i) = view s b \<and> log_write i (set_data i d s1) = Inr s2 \<and> brelse i s2 = Inr s' \<and>
    trans_ok len (absorb b bs) s' \<and> view s' = (view s)(b := d) \<and> memdisk s' = memdisk s \<and> history s' = history s \<and>
    lg_start s' = lg_start s \<and> lg_size s' = lg_size s \<and> lg_outstanding s' = lg_outstanding s \<and> disksize s' = disksize s \<and>
    log_st.more s' = log_st.more s"
proof -
  note t = trans_okD [OF tr]
  note lf = layout_facts [OF t(3)]
  obtain i s1 where s1: "bread 1 b s = Inr (i, s1)" "got s b i s1" "held s1 = {b}" "dirty s1 = dirty s"
    using read_one [OF t(1) b(1)] lf(3) t(6) by auto
  note g = gotD [OF s1(2)] and gr = got_rest [OF s1(2)] and gf = log_fields [OF got_rest(4) [OF s1(2)]]
  define s2 where "s2 = set_data i d s1"
  have s2: "bio_ok s2" "view s2 = (view s)(b := d)" "held s2 = {b}" "dirty s2 = set bs"
    using set_data_ok [OF g(1,3,5,6) d] g(7,9) set_data_blocks [of i d s1] s1(3,4) t(6) by (simp_all add: s2_def)
  have f2: "lh_n s2 = int (length bs)" "\<And>t. t < length bs \<Longrightarrow> lh_block s2 t = bs ! t" "lg_size s2 = int len" "lg_outstanding s2 = lg_outstanding s"
    "lg_dev s2 = 1" "lg_start s2 = lg_start s" "b_blockno (bufs s2 i) = b" "b_busy (bufs s2 i)" "memdisk s2 = memdisk s" "history s2 = history s" "disksize s2 = disksize s"
    "log_st.more s2 = log_st.more s"
    using gf gr g t room(3) by (simp_all add: s2_def set_data_def upd_buf_def)
  obtain s3 where s3: "log_write i s2 = Inr (upd_buf i (\<lambda>x. x\<lparr>b_dirty := True\<rparr>) s3)" "s3 = s2\<lparr>lh_n := lh_n s3, lh_block := lh_block s3\<rparr>"
    "lh_n s3 = int (length (absorb b bs))" "\<And>t. t < length (absorb b bs) \<Longrightarrow> lh_block s3 t = absorb b bs ! t"
    using log_write_header [OF f2(1,2) _ _ _ f2(7)] room out f2(3,4) by (auto simp: NBUF_def LOGSIZE_def)
  have b3: "bufs s3 = bufs s2" "memdisk s3 = memdisk s2" "disksize s3 = disksize s2" "history s3 = history s2"
    "lg_dev s3 = 1" "lg_start s3 = lg_start s" "lg_size s3 = int len" "lg_outstanding s3 = lg_outstanding s"
    "log_st.more s3 = log_st.more s"
    by (subst s3(2), simp add: f2)+
  note c3 = bio_cong [OF b3(1,2,3)]
  define s4 where "s4 = upd_buf i (\<lambda>x. x\<lparr>b_dirty := True\<rparr>) s3"
  have "bio_ok s3" "b_busy (bufs s3 i)" "b_blockno (bufs s3 i) = b" using c3 s2 b3 f2 by simp_all
  note m = mark_dirty_ok [OF this(1) g(3) this(2), folded s4_def]
  have s4: "bio_ok s4" "view s4 = (view s)(b := d)" "held s4 = {b}" "dirty s4 = insert b (set bs)"
    using m c3 s2 \<open>b_blockno (bufs s3 i) = b\<close> by simp_all
  have i4: "b_busy (bufs s4 i)" "b_blockno (bufs s4 i) = b" "b_dirty (bufs s4 i)" "bio.more s4 = bio.more s3"
    "memdisk s4 = memdisk s" "history s4 = history s" "disksize s4 = disksize s"
    using b3 f2 by (simp_all add: s4_def upd_buf_def)
  obtain s' where s': "brelse i s4 = Inr s'" "eff s4 s' (view s4) (memdisk s4) (dirty s4) (history s4)"
    using release_one [OF s4(1) g(3) i4(1,2) s4(3)] i4(3) by blast
  note e = s'(2) [unfolded eff_def] note lg = log_fields [of s' s3]
  have "log_layout (disksize s) (lg_start s) len (absorb b bs)"
    using t(3) b room by (auto simp: log_layout_def absorb_def)
  then have "trans_ok len (absorb b bs) s'"
    using e lg s3(3,4) i4 b3 s4 by (simp add: trans_ok_def set_absorb)
  then show ?thesis using s1(1) g(8) s3(1) s'(1) e lg i4 b3 s4(2) room(3) by (auto simp: s2_def s4_def)
qed

subsection \<open>Crashes\<close>

definition apply_writes :: "(nat \<times> u8 list) list \<Rightarrow> (nat \<Rightarrow> u8 list) \<Rightarrow> nat \<Rightarrow> u8 list" where
  "apply_writes ws = fold (\<lambda>(b, d) M. M(b := d)) ws"

lemma apply_writes_append: "apply_writes (xs @ ys) M = apply_writes ys (apply_writes xs M)"
  by (simp add: apply_writes_def)

lemma apply_writes_other: "b \<notin> fst ` set ws \<Longrightarrow> apply_writes ws M b = M b"
  by (induction ws arbitrary: M) (auto simp: apply_writes_def)

lemma apply_writes_snoc: "apply_writes (ws @ [(c, d)]) M b = (if b = c then d else apply_writes ws M b)"
  by (simp add: apply_writes_def)

lemma apply_writes_in:
  assumes "\<And>b d. (b, d) \<in> set ws \<Longrightarrow> d = V b" and "b \<in> fst ` set ws"
  shows "apply_writes ws M b = V b"
  using assms
proof (induction ws rule: rev_induct)
  case (snoc w ws)
  then show ?case by (cases w) (auto simp: apply_writes_snoc)
qed simp

lemma apply_writes_length:
  assumes "length (M b) = BSIZE" and "\<And>b d. (b, d) \<in> set ws \<Longrightarrow> length d = BSIZE"
  shows "length (apply_writes ws M b) = BSIZE"
  using assms(2)
proof (induction ws rule: rev_induct)
  case Nil
  then show ?case using assms(1) by (simp add: apply_writes_def)
next
  case (snoc w ws)
  then show ?case by (cases w) (auto simp: apply_writes_snoc)
qed

lemma apply_log_writes:
  "apply_writes (log_writes start bs V) M = logged start bs V (length bs) M"
  by (simp add: apply_writes_def log_writes_def logged_def fold_map comp_def)

lemma prefix_commit:
  assumes "L @ [x] @ H @ [y] = P @ Q"
  shows "(\<exists>R. L = P @ R) \<or> (\<exists>P' R. P = L @ [x] @ P' \<and> H = P' @ R) \<or> P = L @ [x] @ H @ [y]"
proof -
  from assms obtain R where "L = P @ R \<or> P = L @ R \<and> [x] @ H @ [y] = R @ Q"
    by (auto simp: append_eq_append_conv2)
  then consider R where "L = P @ R" | R where "P = L @ R" "[x] @ H @ [y] = R @ Q" "R \<noteq> []"
    by (cases "R = []") auto
  then show ?thesis
  proof cases
    case (2 R)
    then obtain R' where R': "R = x # R'" "H @ [y] = R' @ Q" by (cases R) auto
    show ?thesis
    proof (cases Q rule: rev_cases)
      case Nil
      then show ?thesis using 2 R' by simp
    next
      case (snoc Q' z)
      then have "H = R' @ Q'" using R'(2) by simp
      then show ?thesis using 2 R' by auto
    qed
  qed blast
qed

lemma length_view:
  assumes "bio_ok s" and "b < disksize s"
  shows "length (view s b) = BSIZE"
proof (cases "cached s b")
  case None
  then show ?thesis using bio_okD(4) [OF assms] by (simp add: view_def)
next
  case (Some i)
  then show ?thesis using cached_Some [OF Some] bio_okD(2) [OF assms(1), of i] by (simp add: view_def buf_ok_def)
qed

text \<open>The disk before a commit: no transaction in the log, the super block outside all of it.\<close>

definition disk_ready :: "nat \<Rightarrow> nat list \<Rightarrow> 'a log_st_scheme \<Rightarrow> bool" where
  "disk_ready len bs s \<longleftrightarrow> get32 (memdisk s (lg_start s)) 0 = 0 \<and> sb_logstart (superblock_of (memdisk s 1)) = lg_start s \<and>
     1 < lg_start s \<and> 1 \<notin> set bs \<and> disksize s \<le> 2 ^ 32"

lemma commit_writes_parts:
  assumes tr: "trans_ok len bs s" and w: "(b, d) \<in> set (commit_writes (lg_start s) bs (view s))"
  shows "length d = BSIZE" and "b \<in> set bs \<or> lg_start s \<le> b \<and> b < lg_start s + len"
proof -
  note t = trans_okD [OF tr]
  have len: "length (view s b) = BSIZE" if "b \<in> insert (lg_start s) (set bs)" for b
    using that length_view [OF quietD(1) [OF t(1)]] t(3) by (auto simp: log_layout_def)
  have h: "length (header bs (view s (lg_start s))) = BSIZE" "length (header [] (header bs (view s (lg_start s)))) = BSIZE"
    using header_get(1) layout_facts(4) [OF t(3)] len by simp_all
  show "length d = BSIZE" "b \<in> set bs \<or> lg_start s \<le> b \<and> b < lg_start s + len"
    using w len h t(3) by (auto simp: commit_writes_def Let_def log_writes_def home_writes_def log_layout_def)
qed

lemma ready_boot:
  assumes tr: "trans_ok len bs s" and ready: "disk_ready len bs s" and pre: "set P \<subseteq> set (commit_writes (lg_start s) bs (view s))"
    and D: "D = apply_writes P (memdisk s)" and cs: "cs = [] \<or> cs = bs"
    and n: "get32 (D (lg_start s)) 0 = length cs" and bl: "\<And>t. t < length cs \<Longrightarrow> get32 (D (lg_start s)) (4 + 4 * t) = cs ! t"
  shows "\<exists>r. initlog 1 (binit (reboot D s)) = Inr r \<and> trans_ok len [] r \<and>
    memdisk r = (installed (lg_start s) cs D (length cs) D)(lg_start s := header [] (D (lg_start s)))"
proof -
  note t = trans_okD [OF tr]
  have lay: "log_layout (disksize s) (lg_start s) len cs" using t(3) cs layout_facts(6) by auto
  have len: "length (D b) = BSIZE" if "b < disksize s" for b
    unfolding D using pre commit_writes_parts(1) [OF tr] bio_okD(4) [OF quietD(1) [OF t(1)] that]
    by (intro apply_writes_length) auto
  have "1 \<notin> fst ` set P"
  proof
    assume "1 \<in> fst ` set P"
    then obtain d where "(1, d) \<in> set (commit_writes (lg_start s) bs (view s))" using pre by auto
    from commit_writes_parts(2) [OF tr this] show False using ready by (auto simp: disk_ready_def)
  qed
  then have "D 1 = memdisk s 1" unfolding D by (rule apply_writes_other)
  moreover have "1 < disksize s" using ready t(3) by (auto simp: disk_ready_def log_layout_def)
  ultimately show ?thesis
    using boot_recovers [of s D "lg_start s" cs len] len n bl lay ready by (auto simp: disk_ready_def)
qed

lemma crash_recovers:
  assumes tr: "trans_ok len bs s" and ready: "disk_ready len bs s" and W: "commit_writes (lg_start s) bs (view s) = P @ Q"
  shows "\<exists>r. initlog 1 (binit (reboot (apply_writes P (memdisk s)) s)) = Inr r \<and> trans_ok len [] r \<and>
       ((\<forall>b. b < lg_start s \<or> lg_start s + len \<le> b \<longrightarrow> memdisk r b = memdisk s b) \<or>
        (\<forall>b. b < lg_start s \<or> lg_start s + len \<le> b \<longrightarrow> memdisk r b = view s b))"
proof -
  note t = trans_okD [OF tr]
  note lf = layout_facts [OF t(3)]
  let ?st = "lg_start s" and ?V = "view s" and ?M = "memdisk s"
  define h where "h = header bs (?V ?st)"
  define D where "D = apply_writes P ?M"
  have sub: "set P \<subseteq> set (commit_writes ?st bs ?V)" unfolding W by simp
  have out: "?M b = ?V b" if "b \<notin> set bs" for b using quiet_view [OF t(1)] that t(6) by simp
  have lens: "length (?V ?st) = BSIZE" "length h = BSIZE"
    using length_view [OF quietD(1) [OF t(1)] lf(1)] header_get(1) [OF lf(4)] by (simp_all add: h_def)
  have b32: "\<forall>b\<in>set bs. b < 2 ^ 32" using t(3) ready by (auto simp: log_layout_def disk_ready_def)
  have hget: "get32 h 0 = length bs" "\<And>t. t < length bs \<Longrightarrow> get32 h (4 + 4 * t) = bs ! t" "get32 (header [] h) 0 = length ([] :: nat list)"
    using header_get(2,3) [OF lf(4) lens(1)] header_get(2) [of "[]" h] lens(2) b32 by (simp_all add: h_def)
  consider R where "log_writes ?st bs ?V = P @ R"
    | P' R where "P = log_writes ?st bs ?V @ [(?st, h)] @ P'" "home_writes bs ?V = P' @ R"
    | "P = log_writes ?st bs ?V @ [(?st, h)] @ home_writes bs ?V @ [(?st, header [] h)]"
    using prefix_commit [OF W [unfolded commit_writes_def Let_def, folded h_def]] by blast
  then show ?thesis
  proof cases
    case (1 R)
    have inlog: "?st < b \<and> b < ?st + len" if "b \<in> fst ` set P" for b
    proof -
      have "b \<in> fst ` set (log_writes ?st bs ?V)" using that 1 by auto
      then show ?thesis using t(3) by (auto simp: log_writes_def log_layout_def)
    qed
    have "D ?st = ?M ?st" unfolding D_def using inlog by (intro apply_writes_other) auto
    then obtain r where "initlog 1 (binit (reboot D s)) = Inr r" "trans_ok len [] r" "memdisk r = D(?st := header [] (D ?st))"
      using ready_boot [OF tr ready sub D_def, of "[]"] ready by (auto simp: disk_ready_def installed_def)
    moreover have "D b = ?M b" if "b < ?st \<or> ?st + len \<le> b" for b
    proof -
      have "b \<notin> fst ` set P" using inlog that by (meson le_less_trans less_asym not_le)
      then show ?thesis unfolding D_def by (rule apply_writes_other)
    qed
    ultimately show ?thesis using lf(5) by (auto simp: D_def)
  next
    case (2 P' R)
    have P': "d = ?V b" "b \<in> set bs" if "(b, d) \<in> set P'" for b d
    proof -
      have "(b, d) \<in> set (home_writes bs ?V)" using that 2(2) by simp
      then show "d = ?V b" "b \<in> set bs" by (auto simp: home_writes_def)
    qed
    have Deq: "D = apply_writes P' ((logged ?st bs ?V (length bs) ?M)(?st := h))"
      by (simp add: D_def 2(1) apply_writes_append apply_log_writes) (simp add: apply_writes_def)
    have Dst: "D ?st = h" unfolding Deq using P'(2) lf(2) apply_writes_other [of ?st P'] by fastforce
    have Dlog: "D (?st + t + 1) = ?V (bs ! t)" if "t < length bs" for t
    proof -
      have "?st + t + 1 \<notin> set bs" using t(3) that by (auto simp: log_layout_def)
      then have "?st + t + 1 \<notin> fst ` set P'" using P'(2) by auto
      then show ?thesis using that by (simp add: Deq apply_writes_other logged_at)
    qed
    obtain r where r: "initlog 1 (binit (reboot D s)) = Inr r" "trans_ok len [] r"
      "memdisk r = (installed ?st bs D (length bs) D)(?st := header [] h)"
      using ready_boot [OF tr ready sub D_def, of bs] hget Dst by auto
    have "memdisk r b = ?V b" if b: "b < ?st \<or> ?st + len \<le> b" for b
    proof (cases "b \<in> set bs")
      case True
      then obtain u where u: "u < length bs" "b = bs ! u" by (auto simp: in_set_conv_nth)
      then show ?thesis using r(3) b lf(5) installed_at [of bs u "length bs" ?st D D] Dlog [OF u(1)] t(3) by (auto simp: log_layout_def)
    next
      case False
      then have "b \<notin> fst ` set P'" using P'(2) by auto
      then have "D b = ?M b" using b t(3) lf(5) by (auto simp: Deq apply_writes_other logged_at log_layout_def)
      then show ?thesis using r(3) b lf(5) False out by (auto simp: installed_other)
    qed
    then show ?thesis using r(1,2) unfolding D_def by blast
  next
    case 3
    have Deq: "D = (apply_writes (home_writes bs ?V) ((logged ?st bs ?V (length bs) ?M)(?st := h)))(?st := header [] h)"
      by (simp add: D_def 3 apply_writes_append apply_log_writes) (simp add: apply_writes_def)
    obtain r where r: "initlog 1 (binit (reboot D s)) = Inr r" "trans_ok len [] r" "memdisk r = D(?st := header [] (D ?st))"
      using ready_boot [OF tr ready sub D_def, of "[]"] hget(3) Deq by (auto simp: installed_def)
    have "memdisk r b = ?V b" if b: "b < ?st \<or> ?st + len \<le> b" for b
    proof (cases "b \<in> set bs")
      case True
      then have "apply_writes (home_writes bs ?V) M b = ?V b" for M
        by (intro apply_writes_in) (auto simp: home_writes_def image_iff)
      then show ?thesis using r(3) b lf(5) by (auto simp: Deq)
    next
      case False
      then have "b \<notin> fst ` set (home_writes bs ?V)" by (auto simp: home_writes_def)
      then have "D b = ?M b" using b t(3) lf(5) by (auto simp: Deq apply_writes_other logged_at log_layout_def)
      then show ?thesis using r(3) b lf(5) out [OF False] by auto
    qed
    then show ?thesis using r(1,2) unfolding D_def by blast
  qed
qed

section \<open>Properties\<close>

text \<open>
  C3: transactions are atomic across crashes. \<open>commit\<close> returns, having written to the
  disk, in this order, the new blocks into the log, the header, the new blocks home and the
  empty header. If the machine stops after any prefix of these writes, then booting from the
  disk runs the recovery to its end, and afterwards every block outside the log has its
  contents from before the transaction, or every such block has its contents from after it.
\<close>

theorem commit_crash_atomic:
  assumes tr: "trans_ok len bs s" and ne: "bs \<noteq> []" and ready: "disk_ready len bs s"
  shows "\<exists>s' W. commit s = Inr s' \<and> history s' = history s @ W \<and>
    (\<forall>b. b < lg_start s \<or> lg_start s + len \<le> b \<longrightarrow> memdisk s' b = view s b) \<and>
    (\<forall>P Q. W = P @ Q \<longrightarrow> (\<exists>r. initlog 1 (binit (reboot (apply_writes P (memdisk s)) s)) = Inr r \<and> trans_ok len [] r \<and>
       ((\<forall>b. b < lg_start s \<or> lg_start s + len \<le> b \<longrightarrow> memdisk r b = memdisk s b) \<or>
        (\<forall>b. b < lg_start s \<or> lg_start s + len \<le> b \<longrightarrow> memdisk r b = view s b))))"
proof -
  obtain s' where s': "commit s = Inr s'" "trans_ok len [] s'"
    "\<And>b. b < lg_start s \<or> lg_start s + len \<le> b \<Longrightarrow> view s' b = view s b"
    "history s' = history s @ commit_writes (lg_start s) bs (view s)"
    using commit_ok [OF tr ne] by blast
  have "memdisk s' b = view s' b" for b
    using quiet_view [OF trans_okD(1) [OF s'(2)]] trans_okD(6) [OF s'(2)] by simp
  then have "memdisk s' b = view s b" if "b < lg_start s \<or> lg_start s + len \<le> b" for b
    using s'(3) that by simp
  then show ?thesis
    by (intro exI [of _ s'] exI [of _ "commit_writes (lg_start s) bs (view s)"] conjI allI impI s'(1,4) crash_recovers [OF tr ready])
qed

lemma trans_example:
  "\<exists>s :: log_st. trans_ok 8 [15] s \<and> disk_ready 8 [15] s \<and> memdisk s 15 = replicate BSIZE 0 \<and> view s 15 = replicate BSIZE 7 \<and>
     lg_start s = 2"
proof -
  define z where "z = replicate BSIZE (0 :: u8)"
  define D where "D = (\<lambda>b :: nat. if b = 1 then put32 16 2 z else z)"
  define s0 :: log_st where "s0 = \<lparr>bufs = \<lambda>_. zero_buf, memdisk = D, disksize = 20, history = [], woken = [], lg_start = 0, lg_size = 0,
    lg_outstanding = 0, lg_committing = False, lg_dev = 0, lh_n = 0, lh_block = \<lambda>_. 0\<rparr>"
  have z: "length z = BSIZE" "get32 z 0 = 0" by (simp_all add: z_def get32_def slice_def BSIZE_def eval_nat_numeral)
  have sb: "sb_logstart (superblock_of (D 1)) = 2" using get_put(2) [of 16 z 2] z(1) by (simp add: D_def superblock_of_def BSIZE_def)
  have lay: "log_layout 20 2 8 []" by (simp add: log_layout_def NBUF_def MAXOPBLOCKS_def)
  have len: "length (D b) = BSIZE" for b using z(1) by (simp add: D_def BSIZE_def)
  have s0: "disksize s0 = 20" and D2: "D 2 = z" by (simp_all add: s0_def D_def)
  have "\<exists>s1. initlog 1 (binit (reboot D s0)) = Inr s1 \<and> trans_ok 8 [] s1 \<and>
    memdisk s1 = (installed 2 [] D (length ([] :: nat list)) D)(2 := header [] (D 2)) \<and> lg_start s1 = 2 \<and> disksize s1 = disksize s0"
    using len sb by (intro boot_recovers) (simp_all add: s0 D2 z(2) lay)
  then obtain s1 :: log_st where s1: "trans_ok 8 [] s1" "memdisk s1 = (installed 2 [] D (length ([] :: nat list)) D)(2 := header [] (D 2))"
    "lg_start s1 = 2" "disksize s1 = disksize s0" by blast
  have disk: "memdisk s1 1 = D 1" "memdisk s1 15 = z" "get32 (memdisk s1 2) 0 = 0"
    using s1(2) header_get(2) [of "[]" z] z(1) by (simp_all add: installed_def D_def)
  define s2 where "s2 = s1\<lparr>lg_size := 8, lg_outstanding := 1\<rparr>"
  have b2: "bufs s2 = bufs s1" "memdisk s2 = memdisk s1" "disksize s2 = disksize s1" by (simp_all add: s2_def)
  have s2: "trans_ok 8 [] s2" "lg_start s2 = 2" "disksize s2 = 20"
    using s1 bio_cong [OF b2] by (simp_all add: trans_ok_def s2_def s0_def)
  have out2: "lg_size s2 = int 8" "1 \<le> lg_outstanding s2" by (simp_all add: s2_def)
  obtain s' :: log_st where s': "trans_ok 8 (absorb 15 []) s'" "view s' = (view s2)(15 := replicate BSIZE 7)" "memdisk s' = memdisk s2" "lg_start s' = lg_start s2" "disksize s' = disksize s2"
    using log_write_ok [OF s2(1), of 15 "replicate BSIZE 7"] s2(2,3) out2 by (auto simp: NBUF_def MAXOPBLOCKS_def)
  have "disk_ready 8 [15] s'" using s' s2 disk sb b2 by (simp add: disk_ready_def)
  then show ?thesis using s' s2(2) b2 disk by (intro exI [of _ s']) (simp add: absorb_def z_def)
qed

theorem commit_crash_atomic_witness:
  "\<exists>(s :: log_st) s' r. commit s = Inr s' \<and> memdisk s 15 = replicate BSIZE 0 \<and> memdisk s' 15 = replicate BSIZE 7 \<and>
     initlog 1 (binit (reboot (memdisk s) s)) = Inr r"
proof -
  obtain s :: log_st where s: "trans_ok 8 [15] s" "disk_ready 8 [15] s" "memdisk s 15 = replicate BSIZE 0" "view s 15 = replicate BSIZE 7"
    "lg_start s = 2" using trans_example by blast
  obtain s' W where w: "commit s = Inr s'" "\<And>b. b < lg_start s \<or> lg_start s + 8 \<le> b \<Longrightarrow> memdisk s' b = view s b"
    "\<And>P Q. W = P @ Q \<Longrightarrow> \<exists>r. initlog 1 (binit (reboot (apply_writes P (memdisk s)) s)) = Inr r"
    using commit_crash_atomic [OF s(1) _ s(2)] by blast
  have "memdisk s' 15 = replicate BSIZE 7" using w(2) [of 15] s(4,5) by simp
  moreover obtain r where "initlog 1 (binit (reboot (memdisk s) s)) = Inr r"
    using w(3) [of "[]" W] by (auto simp: apply_writes_def)
  ultimately show ?thesis using w(1) s(3) by blast
qed

text \<open>
  C31: logging a block records it once. Inside a transaction with room for one more block,
  reading a block outside the log, changing it, \<open>log_write\<close> and \<open>brelse\<close> all
  succeed; the block's new contents are seen by every later reader, the disk is unchanged, the
  block is added to the transaction unless it is already part of it, and its buffer is pinned
  until the commit.
\<close>

theorem log_write_absorbs:
  assumes "trans_ok len bs s" and "b < disksize s" and "b < lg_start s \<or> lg_start s + len \<le> b" and "length d = BSIZE"
    and "length bs + 1 < len" and "length bs + 1 < NBUF" and "lg_size s = int len" and "1 \<le> lg_outstanding s"
  shows "\<exists>i s1 s2 s'. bread 1 b s = Inr (i, s1) \<and> log_write i (set_data i d s1) = Inr s2 \<and> brelse i s2 = Inr s' \<and>
    trans_ok len (if b \<in> set bs then bs else bs @ [b]) s' \<and> view s' = (view s)(b := d) \<and> memdisk s' = memdisk s"
  using log_write_ok [OF assms] unfolding absorb_def by blast

theorem log_write_absorbs_witness:
  "\<exists>(s :: log_st) i s1 s2 s'. bread 1 15 s = Inr (i, s1) \<and> log_write i (set_data i (replicate BSIZE 9) s1) = Inr s2 \<and>
     brelse i s2 = Inr s' \<and> trans_ok 8 [15] s' \<and> view s' 15 = replicate BSIZE 9"
proof -
  obtain s :: log_st where s: "trans_ok 8 [15] s" "lg_start s = 2" using trans_example by blast
  define s2 where "s2 = s\<lparr>lg_size := 8, lg_outstanding := 1\<rparr>"
  have b2: "bufs s2 = bufs s" "memdisk s2 = memdisk s" "disksize s2 = disksize s" by (simp_all add: s2_def)
  have s2: "trans_ok 8 [15] s2" "lg_start s2 = 2" using s bio_cong [OF b2] by (simp_all add: trans_ok_def s2_def)
  have "15 < disksize s2" "lg_size s2 = int 8" "1 \<le> lg_outstanding s2"
    using trans_okD(3) [OF s2(1)] by (simp_all add: log_layout_def s2_def)
  then obtain i s3 s4 s' where "bread 1 15 s2 = Inr (i, s3)" "log_write i (set_data i (replicate BSIZE 9) s3) = Inr s4" "brelse i s4 = Inr s'"
    "trans_ok 8 (if 15 \<in> set [15] then [15] else [15] @ [15]) s'" "view s' = (view s2)(15 := replicate BSIZE 9)"
    using log_write_absorbs [OF s2(1), of 15 "replicate BSIZE 9"] s2(2) by (auto simp: NBUF_def MAXOPBLOCKS_def)
  moreover from this have "trans_ok 8 [15] s'" "view s' 15 = replicate BSIZE 9" by simp_all
  ultimately show ?thesis by blast
qed



end
