(* ===== verification/Fs.thy ===== *)
theory Fs
  imports Log
begin

unbundle bit_operations_syntax

section \<open>The file system (fs.c, fs.h, file.h, stat.h)\<close>

text \<open>
  Block allocation, the inode cache, inode contents, directories and path names, over the log.
  The super block and the inode cache extend the state of the log. An inode is named by its
  index in \<open>icache.inode\<close>; a nullable inode pointer is an option. Fields that C keeps in
  an unsigned integer are natural numbers, those in a \<open>short\<close> are integers; the places
  where an unsigned sum may wrap around say so. A destination buffer is the list of the bytes
  that are stored into it. The table \<open>devsw\<close> of device functions is an argument of the
  routines that call through it; theory \<open>Console\<close> has its one entry.
\<close>

subsection \<open>Definitions: on-disk and in-memory structures\<close>

definition ROOTINO :: nat where "ROOTINO = 1"
definition NDIRECT :: nat where "NDIRECT = 12"
definition NINDIRECT :: nat where "NINDIRECT = BSIZE div 4"
definition MAXFILE :: nat where "MAXFILE = NDIRECT + NINDIRECT"
definition IPB :: nat where "IPB = BSIZE div 64"
definition BPB :: nat where "BPB = BSIZE * 8"
definition DIRSIZ :: nat where "DIRSIZ = 14"
definition T_DIR :: int where "T_DIR = 1"
definition T_FILE :: int where "T_FILE = 2"
definition T_DEV :: int where "T_DEV = 3"

definition IBLOCK :: "nat \<Rightarrow> superblock \<Rightarrow> nat" where
  "IBLOCK i sb = i div IPB + sb_inodestart sb"

definition BBLOCK :: "nat \<Rightarrow> superblock \<Rightarrow> nat" where
  "BBLOCK b sb = b div BPB + sb_bmapstart sb"

text \<open>A 16-bit value read as a signed \<open>short\<close>.\<close>

definition int16 :: "nat \<Rightarrow> int" where
  "int16 v = (if v < 2 ^ 15 then int v else int v - 2 ^ 16)"

record dinode =
  di_type :: int
  di_major :: int
  di_minor :: int
  di_nlink :: int
  di_size :: nat
  di_addrs :: "nat \<Rightarrow> nat"

text \<open>The inode at byte \<open>p\<close> of a block, and storing its fields there.\<close>

definition dinode_at :: "u8 list \<Rightarrow> nat \<Rightarrow> dinode" where
  "dinode_at d p = \<lparr>di_type = int16 (get16 d p), di_major = int16 (get16 d (p + 2)), di_minor = int16 (get16 d (p + 4)),
     di_nlink = int16 (get16 d (p + 6)), di_size = get32 d (p + 8), di_addrs = (\<lambda>i. if i \<le> NDIRECT then get32 d (p + 12 + 4 * i) else 0)\<rparr>"

definition put_dinode :: "nat \<Rightarrow> dinode \<Rightarrow> u8 list \<Rightarrow> u8 list" where
  "put_dinode p x d =
     (let d = put16 p (nat (di_type x mod 2 ^ 16)) d;
          d = put16 (p + 2) (nat (di_major x mod 2 ^ 16)) d;
          d = put16 (p + 4) (nat (di_minor x mod 2 ^ 16)) d;
          d = put16 (p + 6) (nat (di_nlink x mod 2 ^ 16)) d;
          d = put32 (p + 8) (di_size x) d
      in fold (\<lambda>i. put32 (p + 12 + 4 * i) (di_addrs x i)) [0..<NDIRECT + 1] d)"

record inode =
  i_dev :: nat
  i_inum :: nat
  i_ref :: int
  i_busy :: bool
  i_valid :: bool
  i_d :: dinode

record fs_st = log_st +
  fs_sb :: superblock
  inodes :: "nat \<Rightarrow> inode"

record stat =
  st_type :: int
  st_dev :: nat
  st_ino :: nat
  st_nlink :: int
  st_size :: nat

record 's devsw =
  dev_read :: "(nat \<Rightarrow> nat \<Rightarrow> 's \<Rightarrow> (int \<times> u8 list \<times> 's) kres) option"
  dev_write :: "(nat \<Rightarrow> u8 list \<Rightarrow> 's \<Rightarrow> (int \<times> 's) kres) option"

definition upd_inode :: "nat \<Rightarrow> (inode \<Rightarrow> inode) \<Rightarrow> 'a fs_st_scheme \<Rightarrow> 'a fs_st_scheme" where
  "upd_inode i f s = s\<lparr>inodes := (inodes s)(i := f (inodes s i))\<rparr>"

definition upd_dinode :: "nat \<Rightarrow> (dinode \<Rightarrow> dinode) \<Rightarrow> 'a fs_st_scheme \<Rightarrow> 'a fs_st_scheme" where
  "upd_dinode i f = upd_inode i (\<lambda>x. x\<lparr>i_d := f (i_d x)\<rparr>)"

subsection \<open>Definitions: blocks\<close>

definition bzero :: "nat \<Rightarrow> nat \<Rightarrow> 'a fs_st_scheme \<Rightarrow> 'a fs_st_scheme kres" where
  "bzero dev bno s =
     bindR (bread dev bno s) (\<lambda>(bp, s).
     bindR (log_write bp (set_data bp (replicate BSIZE 0) s)) (brelse bp))"

text \<open>The bit of block \<open>bi\<close> in a bitmap block; setting and clearing it.\<close>

definition bm_get :: "u8 list \<Rightarrow> nat \<Rightarrow> bool" where
  "bm_get d bi \<longleftrightarrow> d ! (bi div 8) AND push_bit (bi mod 8) 1 \<noteq> 0"

definition bm_set :: "nat \<Rightarrow> u8 list \<Rightarrow> u8 list" where
  "bm_set bi d = d[bi div 8 := d ! (bi div 8) OR push_bit (bi mod 8) 1]"

definition bm_clear :: "nat \<Rightarrow> u8 list \<Rightarrow> u8 list" where
  "bm_clear bi d = d[bi div 8 := d ! (bi div 8) AND NOT (push_bit (bi mod 8) 1)]"

text \<open>The outer loop of \<open>balloc\<close>, over the first blocks of the bitmap blocks.\<close>

fun balloc_loop :: "nat \<Rightarrow> nat list \<Rightarrow> 'a fs_st_scheme \<Rightarrow> (nat \<times> 'a fs_st_scheme) kres" where
  "balloc_loop dev [] s = Inl (Panic ''balloc: out of blocks'')"
| "balloc_loop dev (b # bs) s =
     bindR (bread dev (BBLOCK b (fs_sb s)) s) (\<lambda>(bp, s).
       case List.find (\<lambda>bi. \<not> bm_get (b_data (bufs s bp)) bi) [0..<min BPB (sb_size (fs_sb s) - b)] of
         Some bi \<Rightarrow>
           bindR (log_write bp (set_data bp (bm_set bi (b_data (bufs s bp))) s)) (\<lambda>s.
           bindR (brelse bp s) (\<lambda>s.
           bindR (bzero dev (b + bi) s) (\<lambda>s. Inr (b + bi, s))))
       | None \<Rightarrow> bindR (brelse bp s) (balloc_loop dev bs))"

definition balloc :: "nat \<Rightarrow> 'a fs_st_scheme \<Rightarrow> (nat \<times> 'a fs_st_scheme) kres" where
  "balloc dev s = balloc_loop dev (map (\<lambda>k. k * BPB) [0..<(sb_size (fs_sb s) + BPB - 1) div BPB]) s"

definition bfree :: "nat \<Rightarrow> nat \<Rightarrow> 'a fs_st_scheme \<Rightarrow> 'a fs_st_scheme kres" where
  "bfree dev b s =
     bindR (readsb dev s) (\<lambda>(sb, s). let s = s\<lparr>fs_sb := sb\<rparr> in
     bindR (bread dev (BBLOCK b sb) s) (\<lambda>(bp, s).
       let bi = b mod BPB; d = b_data (bufs s bp) in
       if \<not> bm_get d bi then Inl (Panic ''freeing free block'')
       else bindR (log_write bp (set_data bp (bm_clear bi d) s)) (brelse bp)))"

subsection \<open>Definitions: inodes\<close>

text \<open>\<open>iinit\<close> without its message on the console.\<close>

definition iinit :: "nat \<Rightarrow> 'a fs_st_scheme \<Rightarrow> 'a fs_st_scheme kres" where
  "iinit dev s = bindR (readsb dev s) (\<lambda>(sb, s). Inr (s\<lparr>fs_sb := sb\<rparr>))"

definition iget :: "nat \<Rightarrow> nat \<Rightarrow> 'a fs_st_scheme \<Rightarrow> (nat \<times> 'a fs_st_scheme) kres" where
  "iget dev inum s =
     (case List.find (\<lambda>i. i_ref (inodes s i) > 0 \<and> i_dev (inodes s i) = dev \<and> i_inum (inodes s i) = inum) [0..<NINODE] of
        Some ip \<Rightarrow> Inr (ip, upd_inode ip (\<lambda>x. x\<lparr>i_ref := i_ref x + 1\<rparr>) s)
      | None \<Rightarrow>
          (case List.find (\<lambda>i. i_ref (inodes s i) = 0) [0..<NINODE] of
             None \<Rightarrow> Inl (Panic ''iget: no inodes'')
           | Some ip \<Rightarrow>
               Inr (ip, upd_inode ip (\<lambda>x. x\<lparr>i_dev := dev, i_inum := inum, i_ref := 1, i_busy := False, i_valid := False\<rparr>) s)))"

fun ialloc_loop :: "nat \<Rightarrow> int \<Rightarrow> nat list \<Rightarrow> 'a fs_st_scheme \<Rightarrow> (nat \<times> 'a fs_st_scheme) kres" where
  "ialloc_loop dev type [] s = Inl (Panic ''ialloc: no inodes'')"
| "ialloc_loop dev type (inum # is) s =
     bindR (bread dev (IBLOCK inum (fs_sb s)) s) (\<lambda>(bp, s).
       let d = b_data (bufs s bp); p = 64 * (inum mod IPB) in
       if get16 d p = 0 then
         bindR (log_write bp (set_data bp (put16 p (nat (type mod 2 ^ 16)) (patch p (replicate 64 0) d)) s)) (\<lambda>s.
         bindR (brelse bp s) (iget dev inum))
       else bindR (brelse bp s) (ialloc_loop dev type is))"

definition ialloc :: "nat \<Rightarrow> int \<Rightarrow> 'a fs_st_scheme \<Rightarrow> (nat \<times> 'a fs_st_scheme) kres" where
  "ialloc dev type s = ialloc_loop dev type [1..<sb_ninodes (fs_sb s)] s"

definition iupdate :: "nat \<Rightarrow> 'a fs_st_scheme \<Rightarrow> 'a fs_st_scheme kres" where
  "iupdate ip s =
     (let x = inodes s ip in
      bindR (bread (i_dev x) (IBLOCK (i_inum x) (fs_sb s)) s) (\<lambda>(bp, s).
      bindR (log_write bp (set_data bp (put_dinode (64 * (i_inum x mod IPB)) (i_d x) (b_data (bufs s bp))) s)) (brelse bp)))"

definition idup :: "nat \<Rightarrow> 'a fs_st_scheme \<Rightarrow> nat \<times> 'a fs_st_scheme" where
  "idup ip s = (ip, upd_inode ip (\<lambda>x. x\<lparr>i_ref := i_ref x + 1\<rparr>) s)"

definition ilock :: "nat \<Rightarrow> 'a fs_st_scheme \<Rightarrow> 'a fs_st_scheme kres" where
  "ilock ip s =
     (if i_ref (inodes s ip) < 1 then Inl (Panic ''ilock'')
      else if i_busy (inodes s ip) then Inl (Sleeps (ChInode ip))
      else let s = upd_inode ip (\<lambda>x. x\<lparr>i_busy := True\<rparr>) s; x = inodes s ip in
        if i_valid x then Inr s
        else bindR (bread (i_dev x) (IBLOCK (i_inum x) (fs_sb s)) s) (\<lambda>(bp, s).
          let di = dinode_at (b_data (bufs s bp)) (64 * (i_inum x mod IPB));
              s = upd_inode ip (\<lambda>x. x\<lparr>i_d := di\<rparr>) s in
          bindR (brelse bp s) (\<lambda>s.
            let s = upd_inode ip (\<lambda>x. x\<lparr>i_valid := True\<rparr>) s in
            if di_type di = 0 then Inl (Panic ''ilock: no type'') else Inr s)))"

definition iunlock :: "nat \<Rightarrow> 'a fs_st_scheme \<Rightarrow> 'a fs_st_scheme kres" where
  "iunlock ip s =
     (if \<not> i_busy (inodes s ip) \<or> i_ref (inodes s ip) < 1 then Inl (Panic ''iunlock'')
      else Inr (wake (ChInode ip) (upd_inode ip (\<lambda>x. x\<lparr>i_busy := False\<rparr>) s)))"

definition addr_of :: "nat \<Rightarrow> nat \<Rightarrow> 'a fs_st_scheme \<Rightarrow> nat" where
  "addr_of ip i s = di_addrs (i_d (inodes s ip)) i"

definition set_addr :: "nat \<Rightarrow> nat \<Rightarrow> nat \<Rightarrow> 'a fs_st_scheme \<Rightarrow> 'a fs_st_scheme" where
  "set_addr ip i a = upd_dinode ip (\<lambda>d. d\<lparr>di_addrs := (di_addrs d)(i := a)\<rparr>)"

definition itrunc_direct :: "nat \<Rightarrow> nat \<Rightarrow> 'a fs_st_scheme \<Rightarrow> 'a fs_st_scheme kres" where
  "itrunc_direct ip i s =
     (if addr_of ip i s \<noteq> 0 then
        bindR (bfree (i_dev (inodes s ip)) (addr_of ip i s) s) (\<lambda>s. Inr (set_addr ip i 0 s))
      else Inr s)"

definition itrunc_indirect :: "nat \<Rightarrow> nat \<Rightarrow> nat \<Rightarrow> 'a fs_st_scheme \<Rightarrow> 'a fs_st_scheme kres" where
  "itrunc_indirect ip bp j s =
     (let a = get32 (b_data (bufs s bp)) (4 * j) in
      if a \<noteq> 0 then bfree (i_dev (inodes s ip)) a s else Inr s)"

definition itrunc :: "nat \<Rightarrow> 'a fs_st_scheme \<Rightarrow> 'a fs_st_scheme kres" where
  "itrunc ip s =
     bindR (foldR (itrunc_direct ip) [0..<NDIRECT] s) (\<lambda>s.
     bindR (if addr_of ip NDIRECT s \<noteq> 0 then
              bindR (bread (i_dev (inodes s ip)) (addr_of ip NDIRECT s) s) (\<lambda>(bp, s).
              bindR (foldR (itrunc_indirect ip bp) [0..<NINDIRECT] s) (\<lambda>s.
              bindR (brelse bp s) (\<lambda>s.
              bindR (bfree (i_dev (inodes s ip)) (addr_of ip NDIRECT s) s) (\<lambda>s.
                Inr (set_addr ip NDIRECT 0 s)))))
            else Inr s) (\<lambda>s.
     iupdate ip (upd_dinode ip (\<lambda>d. d\<lparr>di_size := 0\<rparr>) s)))"

definition iput :: "nat \<Rightarrow> 'a fs_st_scheme \<Rightarrow> 'a fs_st_scheme kres" where
  "iput ip s =
     (let x = inodes s ip in
      bindR (if i_ref x = 1 \<and> i_valid x \<and> di_nlink (i_d x) = 0 then
               if i_busy x then Inl (Panic ''iput busy'')
               else
                 bindR (itrunc ip (upd_inode ip (\<lambda>x. x\<lparr>i_busy := True\<rparr>) s)) (\<lambda>s.
                 bindR (iupdate ip (upd_dinode ip (\<lambda>d. d\<lparr>di_type := 0\<rparr>) s)) (\<lambda>s.
                   Inr (wake (ChInode ip) (upd_inode ip (\<lambda>x. x\<lparr>i_busy := False, i_valid := False\<rparr>) s))))
             else Inr s) (\<lambda>s.
        Inr (upd_inode ip (\<lambda>x. x\<lparr>i_ref := i_ref x - 1\<rparr>) s)))"

definition iunlockput :: "nat \<Rightarrow> 'a fs_st_scheme \<Rightarrow> 'a fs_st_scheme kres" where
  "iunlockput ip s = bindR (iunlock ip s) (iput ip)"

subsection \<open>Definitions: inode contents\<close>

definition bmap :: "nat \<Rightarrow> nat \<Rightarrow> 'a fs_st_scheme \<Rightarrow> (nat \<times> 'a fs_st_scheme) kres" where
  "bmap ip bn s =
     (if bn < NDIRECT then
        if addr_of ip bn s = 0 then
          bindR (balloc (i_dev (inodes s ip)) s) (\<lambda>(addr, s). Inr (addr, set_addr ip bn addr s))
        else Inr (addr_of ip bn s, s)
      else let bn = bn - NDIRECT in
        if bn < NINDIRECT then
          bindR (if addr_of ip NDIRECT s = 0 then
                   bindR (balloc (i_dev (inodes s ip)) s) (\<lambda>(addr, s). Inr (addr, set_addr ip NDIRECT addr s))
                 else Inr (addr_of ip NDIRECT s, s)) (\<lambda>(addr, s).
          bindR (bread (i_dev (inodes s ip)) addr s) (\<lambda>(bp, s).
          bindR (if get32 (b_data (bufs s bp)) (4 * bn) = 0 then
                   bindR (balloc (i_dev (inodes s ip)) s) (\<lambda>(addr, s).
                   bindR (log_write bp (set_data bp (put32 (4 * bn) addr (b_data (bufs s bp))) s)) (\<lambda>s.
                     Inr (addr, s)))
                 else Inr (get32 (b_data (bufs s bp)) (4 * bn), s)) (\<lambda>(addr, s).
          bindR (brelse bp s) (\<lambda>s. Inr (addr, s)))))
        else Inl (Panic ''bmap: out of range''))"

definition stati :: "nat \<Rightarrow> 'a fs_st_scheme \<Rightarrow> stat" where
  "stati ip s =
     (let x = inodes s ip in
      \<lparr>st_type = di_type (i_d x), st_dev = i_dev x, st_ino = i_inum x, st_nlink = di_nlink (i_d x), st_size = di_size (i_d x)\<rparr>)"

text \<open>The bytes moved in one round of \<open>readi\<close> and \<open>writei\<close>.\<close>

definition chunk :: "nat \<Rightarrow> nat \<Rightarrow> nat" where
  "chunk off n = min n (BSIZE - off mod BSIZE)"

lemma chunk_bounds: "0 < n \<Longrightarrow> 0 < chunk off n" "chunk off n \<le> n"
  by (simp_all add: chunk_def BSIZE_def)

function readi_loop :: "nat \<Rightarrow> nat \<Rightarrow> nat \<Rightarrow> 'a fs_st_scheme \<Rightarrow> (u8 list \<times> 'a fs_st_scheme) kres" where
  "readi_loop ip off n s =
     (if n = 0 then Inr ([], s)
      else
        bindR (bmap ip (off div BSIZE) s) (\<lambda>(addr, s).
        bindR (bread (i_dev (inodes s ip)) addr s) (\<lambda>(bp, s).
          let m = chunk off n; bytes = slice (off mod BSIZE) m (b_data (bufs s bp)) in
          bindR (brelse bp s) (\<lambda>s.
          bindR (readi_loop ip (off + m) (n - m) s) (\<lambda>(rest, s). Inr (bytes @ rest, s))))))"
  by pat_completeness auto

termination readi_loop
  by (relation "measure (\<lambda>(ip, off, n, s). n)") (simp_all add: chunk_bounds)

declare readi_loop.simps [simp del]

definition readi :: "(nat \<Rightarrow> 'a fs_st_scheme devsw) \<Rightarrow> nat \<Rightarrow> nat \<Rightarrow> nat \<Rightarrow> 'a fs_st_scheme \<Rightarrow> (int \<times> u8 list \<times> 'a fs_st_scheme) kres" where
  "readi devsw ip off n s =
     (let d = i_d (inodes s ip) in
      if di_type d = T_DEV then
        if di_major d < 0 \<or> di_major d \<ge> int NDEV then Inr (-1, [], s)
        else (case dev_read (devsw (nat (di_major d))) of
                None \<Rightarrow> Inr (-1, [], s)
              | Some f \<Rightarrow> f ip n s)
      else if off > di_size d \<or> (off + n) mod 2 ^ 32 < off then Inr (-1, [], s)
      else
        let n = (if off + n > di_size d then di_size d - off else n) in
        bindR (readi_loop ip off n s) (\<lambda>(bytes, s). Inr (int32 n, bytes, s)))"

function writei_loop :: "nat \<Rightarrow> nat \<Rightarrow> u8 list \<Rightarrow> 'a fs_st_scheme \<Rightarrow> 'a fs_st_scheme kres" where
  "writei_loop ip off src s =
     (if src = [] then Inr s
      else
        bindR (bmap ip (off div BSIZE) s) (\<lambda>(addr, s).
        bindR (bread (i_dev (inodes s ip)) addr s) (\<lambda>(bp, s).
          let m = chunk off (length src) in
          bindR (log_write bp (set_data bp (patch (off mod BSIZE) (take m src) (b_data (bufs s bp))) s)) (\<lambda>s.
          bindR (brelse bp s) (writei_loop ip (off + m) (drop m src))))))"
  by pat_completeness auto

termination writei_loop
  by (relation "measure (\<lambda>(ip, off, src, s). length src)") (simp_all add: chunk_bounds)

declare writei_loop.simps [simp del]

definition writei :: "(nat \<Rightarrow> 'a fs_st_scheme devsw) \<Rightarrow> nat \<Rightarrow> u8 list \<Rightarrow> nat \<Rightarrow> 'a fs_st_scheme \<Rightarrow> (int \<times> 'a fs_st_scheme) kres" where
  "writei devsw ip src off s =
     (let d = i_d (inodes s ip); n = length src in
      if di_type d = T_DEV then
        if di_major d < 0 \<or> di_major d \<ge> int NDEV then Inr (-1, s)
        else (case dev_write (devsw (nat (di_major d))) of
                None \<Rightarrow> Inr (-1, s)
              | Some f \<Rightarrow> f ip src s)
      else if off > di_size d \<or> (off + n) mod 2 ^ 32 < off then Inr (-1, s)
      else if off + n > MAXFILE * BSIZE then Inr (-1, s)
      else
        bindR (writei_loop ip off src s) (\<lambda>s.
          if n > 0 \<and> off + n > di_size (i_d (inodes s ip)) then
            bindR (iupdate ip (upd_dinode ip (\<lambda>d. d\<lparr>di_size := off + n\<rparr>) s)) (\<lambda>s. Inr (int32 n, s))
          else Inr (int32 n, s)))"

subsection \<open>Definitions: directories\<close>

text \<open>\<open>strncmp\<close> on two byte arrays; past the end of a list stands the terminating NUL.\<close>

definition ch :: "u8 list \<Rightarrow> u8" where
  "ch s = (if s = [] then 0 else hd s)"

fun strncmp_l :: "u8 list \<Rightarrow> u8 list \<Rightarrow> nat \<Rightarrow> int" where
  "strncmp_l p q 0 = 0"
| "strncmp_l p q (Suc n) =
     (if ch p \<noteq> 0 \<and> ch p = ch q then strncmp_l (tl p) (tl q) n else uint (ch p) - uint (ch q))"

definition namecmp :: "u8 list \<Rightarrow> u8 list \<Rightarrow> int" where
  "namecmp s t = strncmp_l s t DIRSIZ"

definition DIRENT :: nat where "DIRENT = 2 + DIRSIZ"

definition de_inum :: "u8 list \<Rightarrow> nat" where "de_inum de = get16 de 0"
definition de_name :: "u8 list \<Rightarrow> u8 list" where "de_name de = slice 2 DIRSIZ de"

text \<open>\<open>strncpy\<close> into the name field and the number, as the bytes of the entry.\<close>

definition mk_dirent :: "nat \<Rightarrow> u8 list \<Rightarrow> u8 list" where
  "mk_dirent inum name =
     bytes_le 2 inum @ take DIRSIZ (takeWhile (\<lambda>c. c \<noteq> 0) name) @ replicate (DIRSIZ - length (takeWhile (\<lambda>c. c \<noteq> 0) name)) 0"

text \<open>The offsets of the entries of a directory of the given size.\<close>

definition dir_offs :: "nat \<Rightarrow> nat list" where
  "dir_offs sz = map (\<lambda>k. DIRENT * k) [0..<(sz + DIRENT - 1) div DIRENT]"

fun dirlookup_loop :: "(nat \<Rightarrow> 'a fs_st_scheme devsw) \<Rightarrow> nat \<Rightarrow> u8 list \<Rightarrow> nat list \<Rightarrow> 'a fs_st_scheme \<Rightarrow>
    ((nat \<times> nat) option \<times> 'a fs_st_scheme) kres" where
  "dirlookup_loop devsw dp name [] s = Inr (None, s)"
| "dirlookup_loop devsw dp name (off # offs) s =
     bindR (readi devsw dp off DIRENT s) (\<lambda>(r, de, s).
       if r \<noteq> int DIRENT then Inl (Panic ''dirlink read'')
       else if de_inum de = 0 then dirlookup_loop devsw dp name offs s
       else if namecmp name (de_name de) = 0 then
         bindR (iget (i_dev (inodes s dp)) (de_inum de) s) (\<lambda>(ip, s). Inr (Some (ip, off), s))
       else dirlookup_loop devsw dp name offs s)"

text \<open>The inode and the offset of its entry (which callers that pass no \<open>poff\<close> ignore).\<close>

definition dirlookup :: "(nat \<Rightarrow> 'a fs_st_scheme devsw) \<Rightarrow> nat \<Rightarrow> u8 list \<Rightarrow> 'a fs_st_scheme \<Rightarrow>
    ((nat \<times> nat) option \<times> 'a fs_st_scheme) kres" where
  "dirlookup devsw dp name s =
     (if di_type (i_d (inodes s dp)) \<noteq> T_DIR then Inl (Panic ''dirlookup not DIR'')
      else dirlookup_loop devsw dp name (dir_offs (di_size (i_d (inodes s dp)))) s)"

fun dirlink_loop :: "(nat \<Rightarrow> 'a fs_st_scheme devsw) \<Rightarrow> nat \<Rightarrow> nat list \<Rightarrow> 'a fs_st_scheme \<Rightarrow>
    (nat option \<times> 'a fs_st_scheme) kres" where
  "dirlink_loop devsw dp [] s = Inr (None, s)"
| "dirlink_loop devsw dp (off # offs) s =
     bindR (readi devsw dp off DIRENT s) (\<lambda>(r, de, s).
       if r \<noteq> int DIRENT then Inl (Panic ''dirlink read'')
       else if de_inum de = 0 then Inr (Some off, s)
       else dirlink_loop devsw dp offs s)"

definition dirlink :: "(nat \<Rightarrow> 'a fs_st_scheme devsw) \<Rightarrow> nat \<Rightarrow> u8 list \<Rightarrow> nat \<Rightarrow> 'a fs_st_scheme \<Rightarrow> (int \<times> 'a fs_st_scheme) kres" where
  "dirlink devsw dp name inum s =
     bindR (dirlookup devsw dp name s) (\<lambda>(r, s).
       case r of
         Some (ip, _) \<Rightarrow> bindR (iput ip s) (\<lambda>s. Inr (-1, s))
       | None \<Rightarrow>
           let offs = dir_offs (di_size (i_d (inodes s dp))) in
           bindR (dirlink_loop devsw dp offs s) (\<lambda>(off, s).
             let off = (case off of Some off \<Rightarrow> off | None \<Rightarrow> DIRENT * length offs) in
             bindR (writei devsw dp (mk_dirent inum name) off s) (\<lambda>(r, s).
               if r \<noteq> int DIRENT then Inl (Panic ''dirlink'') else Inr (0, s))))"

subsection \<open>Definitions: path names\<close>

definition slash :: u8 where "slash = 47"

text \<open>The next element of the path, cut to \<open>DIRSIZ\<close> bytes, and the rest of the path.\<close>

definition skipelem :: "u8 list \<Rightarrow> (u8 list \<times> u8 list) option" where
  "skipelem path =
     (let s = dropWhile (\<lambda>c. c = slash) path in
      if s = [] then None
      else let elem = takeWhile (\<lambda>c. c \<noteq> slash) s; rest = dropWhile (\<lambda>c. c \<noteq> slash) s in
           Some (take DIRSIZ elem, dropWhile (\<lambda>c. c = slash) rest))"

lemma skipelem_shorter: "skipelem path = Some (name, rest) \<Longrightarrow> length rest < length path"
proof -
  assume r: "skipelem path = Some (name, rest)"
  let ?s = "dropWhile (\<lambda>c. c = slash) path"
  have ne: "?s \<noteq> []" and rest: "rest = dropWhile (\<lambda>c. c = slash) (dropWhile (\<lambda>c. c \<noteq> slash) ?s)"
    using r by (auto simp: skipelem_def Let_def split: if_splits)
  have "hd ?s \<noteq> slash" using hd_dropWhile [OF ne] by simp
  then have eq: "dropWhile (\<lambda>c. c \<noteq> slash) ?s = dropWhile (\<lambda>c. c \<noteq> slash) (tl ?s)" using ne by (cases ?s) auto
  have "length rest \<le> length (dropWhile (\<lambda>c. c \<noteq> slash) (tl ?s))" unfolding rest eq by (rule length_dropWhile_le)
  also have "\<dots> \<le> length (tl ?s)" by (rule length_dropWhile_le)
  also have "\<dots> < length ?s" using ne by (cases ?s) auto
  also have "\<dots> \<le> length path" by (rule length_dropWhile_le)
  finally show ?thesis .
qed

function namex_loop :: "(nat \<Rightarrow> 'a fs_st_scheme devsw) \<Rightarrow> nat \<Rightarrow> u8 list \<Rightarrow> bool \<Rightarrow> u8 list \<Rightarrow> 'a fs_st_scheme \<Rightarrow>
    ((nat \<times> u8 list) option \<times> 'a fs_st_scheme) kres" where
  "namex_loop devsw ip path parent name s =
     (case skipelem path of
        None \<Rightarrow>
          if parent then bindR (iput ip s) (\<lambda>s. Inr (None, s)) else Inr (Some (ip, name), s)
      | Some (name, path) \<Rightarrow>
          bindR (ilock ip s) (\<lambda>s.
            if di_type (i_d (inodes s ip)) \<noteq> T_DIR then bindR (iunlockput ip s) (\<lambda>s. Inr (None, s))
            else if parent \<and> path = [] then bindR (iunlock ip s) (\<lambda>s. Inr (Some (ip, name), s))
            else bindR (dirlookup devsw ip name s) (\<lambda>(r, s).
              case r of
                None \<Rightarrow> bindR (iunlockput ip s) (\<lambda>s. Inr (None, s))
              | Some (nxt, _) \<Rightarrow> bindR (iunlockput ip s) (namex_loop devsw nxt path parent name))))"
  by pat_completeness auto

termination namex_loop
  by (relation "measure (\<lambda>(devsw, ip, path, parent, name, s). length path)") (auto dest: skipelem_shorter)

declare namex_loop.simps [simp del]

text \<open>The inode, and the last element copied into \<open>name\<close>.\<close>

definition namex :: "(nat \<Rightarrow> 'a fs_st_scheme devsw) \<Rightarrow> nat \<Rightarrow> u8 list \<Rightarrow> bool \<Rightarrow> 'a fs_st_scheme \<Rightarrow>
    ((nat \<times> u8 list) option \<times> 'a fs_st_scheme) kres" where
  "namex devsw cwd path parent s =
     bindR (if ch path = slash then iget ROOTDEV ROOTINO s else Inr (idup cwd s)) (\<lambda>(ip, s).
       namex_loop devsw ip path parent [] s)"

definition namei :: "(nat \<Rightarrow> 'a fs_st_scheme devsw) \<Rightarrow> nat \<Rightarrow> u8 list \<Rightarrow> 'a fs_st_scheme \<Rightarrow> (nat option \<times> 'a fs_st_scheme) kres" where
  "namei devsw cwd path s =
     bindR (namex devsw cwd path False s) (\<lambda>(r, s). Inr (map_option fst r, s))"

definition nameiparent :: "(nat \<Rightarrow> 'a fs_st_scheme devsw) \<Rightarrow> nat \<Rightarrow> u8 list \<Rightarrow> 'a fs_st_scheme \<Rightarrow>
    ((nat \<times> u8 list) option \<times> 'a fs_st_scheme) kres" where
  "nameiparent devsw cwd path s = namex devsw cwd path True s"

end
