(* ===== verification/Pipe.thy ===== *)
theory Pipe
  imports Prelude
begin

section \<open>Pipes (pipe.c)\<close>

text \<open>
  The ring buffer of a pipe with its two counters, which are unsigned 32-bit words and wrap
  around. A reader or writer that goes to sleep is an outcome that says on which channel it
  sleeps and, for a writer, which bytes it has still to store; when it is woken it runs the
  same loop again on what is left. \<open>woken\<close> lists the channels that were woken.
  \<open>pipealloc\<close> and the freeing of the page in \<open>pipeclose\<close> are in theory
  \<open>File\<close>.

  The lemmas show that the buffer is a bounded first-in first-out queue, also when the
  counters wrap around.
\<close>

subsection \<open>Definitions\<close>

definition PIPESIZE :: u32 where "PIPESIZE = 512"

record pipe =
  pi_data :: "u8 list"
  pi_nread :: u32
  pi_nwrite :: u32
  pi_readopen :: bool
  pi_writeopen :: bool

datatype rwres = Done int | Blocked chan "u8 list"

text \<open>The loop of \<open>pipewrite\<close>; \<open>n\<close> is the length of the whole buffer.\<close>

fun pipewrite_loop :: "nat \<Rightarrow> bool \<Rightarrow> int \<Rightarrow> u8 list \<Rightarrow> pipe \<Rightarrow> chan list \<Rightarrow> rwres \<times> pipe \<times> chan list" where
  "pipewrite_loop a killed n [] p w = (Done n, p, w @ [ChPipeRead a])"
| "pipewrite_loop a killed n (c # cs) p w =
     (if pi_nwrite p = pi_nread p + PIPESIZE then
        if \<not> pi_readopen p \<or> killed then (Done (-1), p, w)
        else (Blocked (ChPipeWrite a) (c # cs), p, w @ [ChPipeRead a])
      else pipewrite_loop a killed n cs
             (p\<lparr>pi_data := (pi_data p)[unat (pi_nwrite p mod PIPESIZE) := c], pi_nwrite := pi_nwrite p + 1\<rparr>) w)"

definition pipewrite :: "nat \<Rightarrow> bool \<Rightarrow> u8 list \<Rightarrow> int \<Rightarrow> pipe \<Rightarrow> rwres \<times> pipe \<times> chan list" where
  "pipewrite a killed addr n p = pipewrite_loop a killed n (take (nat n) addr) p []"

text \<open>The copying loop of \<open>piperead\<close>; the bytes it stores, and their number as the result.\<close>

fun piperead_copy :: "nat \<Rightarrow> pipe \<Rightarrow> u8 list \<times> pipe" where
  "piperead_copy 0 p = ([], p)"
| "piperead_copy (Suc n) p =
     (if pi_nread p = pi_nwrite p then ([], p)
      else
        let c = pi_data p ! unat (pi_nread p mod PIPESIZE);
            (cs, p) = piperead_copy n (p\<lparr>pi_nread := pi_nread p + 1\<rparr>)
        in (c # cs, p))"

definition piperead :: "nat \<Rightarrow> bool \<Rightarrow> int \<Rightarrow> pipe \<Rightarrow> rwres \<times> u8 list \<times> pipe \<times> chan list" where
  "piperead a killed n p =
     (if pi_nread p = pi_nwrite p \<and> pi_writeopen p then
        if killed then (Done (-1), [], p, []) else (Blocked (ChPipeRead a) [], [], p, [])
      else
        let (bytes, p) = piperead_copy (nat n) p in (Done (int (length bytes)), bytes, p, [ChPipeWrite a]))"

text \<open>The fields \<open>pipealloc\<close> sets, and the part of \<open>pipeclose\<close> that changes the pipe.\<close>

definition pipe_new :: "u8 list \<Rightarrow> pipe" where
  "pipe_new page = \<lparr>pi_data = page, pi_nread = 0, pi_nwrite = 0, pi_readopen = True, pi_writeopen = True\<rparr>"

definition pipeclose_end :: "nat \<Rightarrow> bool \<Rightarrow> pipe \<Rightarrow> pipe \<times> chan list" where
  "pipeclose_end a writable p =
     (if writable then (p\<lparr>pi_writeopen := False\<rparr>, [ChPipeRead a]) else (p\<lparr>pi_readopen := False\<rparr>, [ChPipeWrite a]))"

text \<open>The bytes in the pipe, oldest first, and the abstract queue of at most 512 bytes.\<close>

definition pcount :: "pipe \<Rightarrow> nat" where
  "pcount p = unat (pi_nwrite p - pi_nread p)"

definition contents :: "pipe \<Rightarrow> u8 list" where
  "contents p = map (\<lambda>i. pi_data p ! unat ((pi_nread p + of_nat i) mod PIPESIZE)) [0..<pcount p]"

definition pipe_ok :: "pipe \<Rightarrow> bool" where
  "pipe_ok p \<longleftrightarrow> length (pi_data p) = 512 \<and> pcount p \<le> 512"

text \<open>
  A pipe in use by readers and writers that run one after the other: the bytes written and the
  bytes read so far. A write stores some of the bytes offered, all of them when it does not
  block or fail.
\<close>

record pipe_run =
  pr_pipe :: pipe
  pr_in :: "u8 list"
  pr_out :: "u8 list"

definition stored :: "u8 list \<Rightarrow> pipe \<Rightarrow> pipe \<Rightarrow> u8 list" where
  "stored cs p p' = take (unat (pi_nwrite p' - pi_nwrite p)) cs"

inductive pipe_step :: "pipe_run \<Rightarrow> pipe_run \<Rightarrow> bool" where
  do_write: "pipewrite a killed cs n (pr_pipe r) = (res, p, w) \<Longrightarrow>
     pipe_step r \<lparr>pr_pipe = p, pr_in = pr_in r @ stored (take (nat n) cs) (pr_pipe r) p, pr_out = pr_out r\<rparr>"
| do_read: "piperead a killed n (pr_pipe r) = (res, bytes, p, w) \<Longrightarrow>
     pipe_step r \<lparr>pr_pipe = p, pr_in = pr_in r, pr_out = pr_out r @ bytes\<rparr>"
| do_close: "pipeclose_end a writable (pr_pipe r) = (p, w) \<Longrightarrow> pipe_step r (r\<lparr>pr_pipe := p\<rparr>)"

text \<open>
  One writer and one reader taking turns: whenever the writer blocks, a reader that asks for
  \<open>m\<close> bytes runs once and the writer goes on with the bytes it has left. The result is the
  writer's return value with the bytes the reader got.
\<close>

fun relay :: "nat \<Rightarrow> nat \<Rightarrow> int \<Rightarrow> int \<Rightarrow> u8 list \<Rightarrow> pipe \<Rightarrow> (int \<times> u8 list \<times> pipe) option" where
  "relay 0 a m n cs p = None"
| "relay (Suc k) a m n cs p =
     (case pipewrite_loop a False n cs p [] of
        (Done r, p, w) \<Rightarrow> Some (r, [], p)
      | (Blocked ch rest, p, w) \<Rightarrow>
          (case piperead a False m p of
             (res, bytes, p, w) \<Rightarrow> map_option (\<lambda>(r, bs, p). (r, bytes @ bs, p)) (relay k a m n rest p)))"

definition push :: "u8 \<Rightarrow> pipe \<Rightarrow> pipe" where
  "push c p = p\<lparr>pi_data := (pi_data p)[unat (pi_nwrite p mod PIPESIZE) := c], pi_nwrite := pi_nwrite p + 1\<rparr>"

definition pop :: "pipe \<Rightarrow> pipe" where
  "pop p = p\<lparr>pi_nread := pi_nread p + 1\<rparr>"

subsection \<open>Lemmas\<close>

lemma mod_PIPESIZE: "unat (x mod PIPESIZE) = unat x mod 512" "unat (x mod PIPESIZE) < 512"
  by (simp_all add: PIPESIZE_def unat_mod)

text \<open>Positions in the ring: the counters may wrap around because 512 divides the word's range.\<close>

lemma unat_add_mod: "unat (x + of_nat i :: u32) mod 512 = (unat x + i) mod 512"
proof -
  have e: "unat (x + of_nat i :: u32) = (unat x + i) mod 2 ^ 32" by (simp add: unat_word_ariths unat_of_nat mod_add_right_eq)
  have d: "(512 :: nat) dvd 2 ^ 32" by simp
  show ?thesis unfolding e by (rule mod_mod_cancel [OF d])
qed

lemma ring_pos_inj:
  assumes "i < j" and "j < i + 512"
  shows "unat ((x + of_nat i) mod PIPESIZE) \<noteq> unat ((x + of_nat j :: u32) mod PIPESIZE)"
proof
  assume "unat ((x + of_nat i) mod PIPESIZE) = unat ((x + of_nat j :: u32) mod PIPESIZE)"
  then have e: "(unat x + j) mod 512 = (unat x + i) mod 512" by (simp add: mod_PIPESIZE(1) unat_add_mod)
  have le: "unat x + i \<le> unat x + j" using assms by simp
  have "512 dvd (unat x + j) - (unat x + i)" using e mod_eq_dvd_iff_nat [OF le] by simp
  then have "512 dvd j - i" by simp
  moreover have "0 < j - i" "j - i < 512" using assms by arith+
  ultimately show False using nat_dvd_not_less by blast
qed

lemma length_contents [simp]: "length (contents p) = pcount p"
  by (simp add: contents_def)

lemma full_iff: "pi_nwrite p = pi_nread p + PIPESIZE \<longleftrightarrow> pcount p = 512"
proof -
  have "pi_nwrite p = pi_nread p + PIPESIZE \<longleftrightarrow> pi_nwrite p - pi_nread p = 512" by (auto simp: PIPESIZE_def algebra_simps)
  also have "\<dots> \<longleftrightarrow> unat (pi_nwrite p - pi_nread p) = unat (512 :: u32)" by (simp only: word_unat_eq_iff)
  finally show ?thesis by (simp add: pcount_def)
qed

lemma empty_iff: "pi_nread p = pi_nwrite p \<longleftrightarrow> pcount p = 0"
  by (auto simp: pcount_def unat_eq_zero)

lemma nwrite_pos: "pi_nwrite p = pi_nread p + of_nat (pcount p)"
  by (simp add: pcount_def)

lemma pcount_push:
  assumes "pcount p < 512"
  shows "pcount (push c p) = Suc (pcount p)"
proof -
  have "pcount (push c p) = unat ((pi_nwrite p - pi_nread p) + 1)" by (simp add: push_def pcount_def algebra_simps)
  also have "\<dots> = Suc (unat (pi_nwrite p - pi_nread p))"
    using assms by (simp add: unat_word_ariths pcount_def)
  finally show ?thesis by (simp add: pcount_def)
qed

lemma pcount_pop:
  assumes "pcount p \<noteq> 0"
  shows "pcount p = Suc (pcount (pop p))"
proof -
  have "pcount (pop p) = unat ((pi_nwrite p - pi_nread p) - 1)" by (simp add: pop_def pcount_def algebra_simps)
  moreover have "pi_nwrite p - pi_nread p \<noteq> 0" using assms by (auto simp: pcount_def)
  ultimately show ?thesis using assms by (simp add: pcount_def unat_minus_one)
qed

lemma contents_push:
  assumes ok: "length (pi_data p) = 512" and room: "pcount p < 512"
  shows "contents (push c p) = contents p @ [c]"
proof -
  let ?pos = "\<lambda>i. unat ((pi_nread p + of_nat i) mod PIPESIZE)"
  have w: "unat (pi_nwrite p mod PIPESIZE) = ?pos (pcount p)" using nwrite_pos by metis
  have nr: "pi_nread (push c p) = pi_nread p" and d: "pi_data (push c p) = (pi_data p)[?pos (pcount p) := c]"
    using w by (simp_all add: push_def)
  have "contents (push c p) = map (\<lambda>i. (pi_data p)[?pos (pcount p) := c] ! ?pos i) [0..<pcount p] @
      [(pi_data p)[?pos (pcount p) := c] ! ?pos (pcount p)]"
    by (simp add: contents_def pcount_push [OF room] nr d)
  also have "map (\<lambda>i. (pi_data p)[?pos (pcount p) := c] ! ?pos i) [0..<pcount p] = contents p"
    unfolding contents_def
  proof (rule map_cong [OF refl])
    fix i assume "i \<in> set [0..<pcount p]"
    then have "i < pcount p" by simp
    then have "?pos i \<noteq> ?pos (pcount p)" using room ring_pos_inj by simp
    then show "(pi_data p)[?pos (pcount p) := c] ! ?pos i = pi_data p ! ?pos i" by simp
  qed
  finally show ?thesis using ok mod_PIPESIZE(2) by simp
qed

lemma contents_pop:
  assumes "pcount p \<noteq> 0"
  shows "contents p = pi_data p ! unat (pi_nread p mod PIPESIZE) # contents (pop p)"
proof -
  have "[0..<pcount p] = 0 # map Suc [0..<pcount (pop p)]"
    by (simp add: pcount_pop [OF assms] map_Suc_upt upt_conv_Cons del: upt_Suc)
  then show ?thesis by (simp add: contents_def pop_def comp_def algebra_simps)
qed

lemma pipe_ok_push: "pipe_ok p \<Longrightarrow> pcount p < 512 \<Longrightarrow> pipe_ok (push c p)"
  by (simp add: pipe_ok_def pcount_push) (simp add: push_def)

lemma pipe_ok_pop: "pipe_ok p \<Longrightarrow> pcount p \<noteq> 0 \<Longrightarrow> pipe_ok (pop p)"
  using pcount_pop [of p] by (auto simp: pipe_ok_def) (simp add: pop_def)

lemma contents_new: "contents (pipe_new d) = []" "pcount (pipe_new d) = 0"
  by (simp_all add: contents_def pcount_def pipe_new_def)

text \<open>The loop in terms of \<open>push\<close>, and its effect as a queue operation.\<close>

lemma pipewrite_loop_push:
  "pipewrite_loop a killed n (c # cs) p w =
     (if pcount p = 512 then
        if \<not> pi_readopen p \<or> killed then (Done (-1), p, w)
        else (Blocked (ChPipeWrite a) (c # cs), p, w @ [ChPipeRead a])
      else pipewrite_loop a killed n cs (push c p) w)"
  by (simp add: full_iff push_def)

lemma pipewrite_loop_ok:
  assumes "pipe_ok p" and "pipewrite_loop a killed n cs p w = (res, p', w')"
  shows "pipe_ok p' \<and> contents p' = contents p @ take (512 - pcount p) cs \<and>
    pi_readopen p' = pi_readopen p \<and> pi_writeopen p' = pi_writeopen p \<and> pi_nread p' = pi_nread p \<and>
    res = (if length cs \<le> 512 - pcount p then Done n
           else if \<not> pi_readopen p \<or> killed then Done (-1)
           else Blocked (ChPipeWrite a) (drop (512 - pcount p) cs)) \<and>
    w' = w @ (if res = Done (-1) \<and> 512 - pcount p < length cs then [] else [ChPipeRead a])"
  using assms
proof (induction cs arbitrary: p)
  case Nil
  then show ?case by simp
next
  case (Cons c cs)
  show ?case
  proof (cases "pcount p = 512")
    case True
    then show ?thesis using Cons.prems by (auto simp: pipewrite_loop_push simp del: pipewrite_loop.simps split: if_splits)
  next
    case False
    then have room: "pcount p < 512" using Cons.prems(1) by (simp add: pipe_ok_def)
    have len: "length (pi_data p) = 512" using Cons.prems(1) by (simp add: pipe_ok_def)
    have run: "pipewrite_loop a killed n cs (push c p) w = (res, p', w')"
      using Cons.prems(2) False by (simp add: pipewrite_loop_push del: pipewrite_loop.simps)
    obtain m where m: "512 - pcount p = Suc m" using room by (metis Suc_diff_Suc)
    then have m': "512 - pcount (push c p) = m" using pcount_push [OF room] by simp
    have f: "pi_readopen (push c p) = pi_readopen p" "pi_writeopen (push c p) = pi_writeopen p"
      "pi_nread (push c p) = pi_nread p" by (simp_all add: push_def)
    show ?thesis
      using Cons.IH [OF pipe_ok_push [OF Cons.prems(1) room] run] contents_push [OF len room]
      unfolding m m' f by simp
  qed
qed

lemma piperead_copy_ok:
  assumes "pipe_ok p" and "piperead_copy n p = (bytes, p')"
  shows "pipe_ok p' \<and> bytes = take n (contents p) \<and> contents p' = drop n (contents p) \<and>
    pi_readopen p' = pi_readopen p \<and> pi_writeopen p' = pi_writeopen p \<and> pi_nwrite p' = pi_nwrite p"
  using assms
proof (induction n arbitrary: p bytes)
  case 0
  then show ?case by simp
next
  case (Suc n)
  show ?case
  proof (cases "pcount p = 0")
    case True
    then have "contents p = []" by (simp add: contents_def)
    then show ?thesis using Suc.prems True by (simp add: empty_iff)
  next
    case False
    obtain bs where run: "piperead_copy n (pop p) = (bs, p')"
        and b: "bytes = pi_data p ! unat (pi_nread p mod PIPESIZE) # bs"
      using Suc.prems(2) False by (auto simp: empty_iff pop_def Let_def split: prod.splits)
    have f: "pi_readopen (pop p) = pi_readopen p" "pi_writeopen (pop p) = pi_writeopen p"
      "pi_nwrite (pop p) = pi_nwrite p" by (simp_all add: pop_def)
    show ?thesis
      using Suc.IH [OF pipe_ok_pop [OF Suc.prems(1) False] run] unfolding contents_pop [OF False] b f by simp
  qed
qed

lemma contents_writes:
  assumes "pipe_ok p" and "pipewrite a killed cs n p = (res, p', w)"
  shows "pipe_ok p'" and "contents p' = contents p @ stored (take (nat n) cs) p p'"
proof -
  let ?cs = "take (nat n) cs"
  note r = pipewrite_loop_ok [OF assms(1) assms(2) [unfolded pipewrite_def]]
  show "pipe_ok p'" using r by simp
  have c: "contents p' = contents p @ take (512 - pcount p) ?cs" and nr: "pi_nread p' = pi_nread p" using r by simp_all
  have "pcount p' = pcount p + min (512 - pcount p) (length ?cs)"
    using arg_cong [OF c, of length] by (simp add: ac_simps)
  moreover have "pi_nwrite p' - pi_nwrite p = of_nat (pcount p') - of_nat (pcount p)"
    using nwrite_pos [of p'] nwrite_pos [of p] nr by simp
  ultimately have "pi_nwrite p' - pi_nwrite p = of_nat (min (512 - pcount p) (length ?cs))" by simp
  moreover have "min (512 - pcount p) (length ?cs) < 2 ^ 32" by simp
  ultimately have "unat (pi_nwrite p' - pi_nwrite p) = min (512 - pcount p) (length ?cs)"
    by (simp only: unat_of_nat) simp
  then show "contents p' = contents p @ stored ?cs p p'" unfolding c stored_def by (simp add: min_def)
qed

lemma piperead_ok:
  assumes "pipe_ok p" and "piperead a killed n p = (res, bytes, p', w)"
  shows "pipe_ok p'" and "contents p = bytes @ contents p'"
    and "pi_readopen p' = pi_readopen p" and "pi_writeopen p' = pi_writeopen p"
proof -
  have "(bytes = [] \<and> p' = p) \<or> piperead_copy (nat n) p = (bytes, p')"
    using assms(2) by (auto simp: piperead_def Let_def split: if_splits prod.splits)
  then have "pipe_ok p' \<and> contents p = bytes @ contents p' \<and>
      pi_readopen p' = pi_readopen p \<and> pi_writeopen p' = pi_writeopen p"
    using assms(1) piperead_copy_ok [OF assms(1)] by fastforce
  then show "pipe_ok p'" and "contents p = bytes @ contents p'"
    and "pi_readopen p' = pi_readopen p" and "pi_writeopen p' = pi_writeopen p" by simp_all
qed

lemma pipe_step_inv:
  assumes "pipe_step r r'" and "pipe_ok (pr_pipe r)" and "pr_in r = pr_out r @ contents (pr_pipe r)"
  shows "pipe_ok (pr_pipe r') \<and> pr_in r' = pr_out r' @ contents (pr_pipe r')"
  using assms
proof cases
  case (do_write a killed cs n res p w)
  then show ?thesis using contents_writes [OF assms(2) do_write(2)] assms(3) by simp
next
  case (do_read a killed n res bytes p w)
  then show ?thesis using piperead_ok [OF assms(2) do_read(2)] assms(3) by simp
next
  case (do_close a writable p w)
  then have "pcount p = pcount (pr_pipe r)" "contents p = contents (pr_pipe r)" "pi_data p = pi_data (pr_pipe r)"
    by (auto simp: pipeclose_end_def contents_def pcount_def split: if_splits)
  then show ?thesis using do_close(1) assms(2,3) by (simp add: pipe_ok_def)
qed

lemma relay_ok:
  assumes "pipe_ok p" and "pi_readopen p" and "0 < m" and "length cs + (if pcount p = 512 then 1 else 0) < k"
  shows "\<exists>bs p'. relay k a m n cs p = Some (n, bs, p') \<and> contents p @ cs = bs @ contents p'"
  using assms
proof (induction k arbitrary: cs p)
  case 0
  then show ?case by simp
next
  case (Suc k)
  obtain res p1 w where run: "pipewrite_loop a False n cs p [] = (res, p1, w)" by (metis prod_cases3)
  note r = pipewrite_loop_ok [OF Suc.prems(1) run]
  let ?room = "512 - pcount p"
  show ?case
  proof (cases "length cs \<le> ?room")
    case True
    then show ?thesis using r run by simp
  next
    case False
    then have res: "res = Blocked (ChPipeWrite a) (drop ?room cs)" using r Suc.prems(2) by simp
    obtain rr bytes p2 w2 where rd: "piperead a False m p1 = (rr, bytes, p2, w2)" by (metis prod_cases4)
    have ok1: "pipe_ok p1" and c1: "contents p1 = contents p @ take ?room cs" using r by simp_all
    note r2 = piperead_ok [OF ok1 rd]
    have le: "pcount p \<le> 512" using Suc.prems(1) by (simp add: pipe_ok_def)
    have full: "pcount p1 = 512" using arg_cong [OF c1, of length] False le by simp
    obtain k' where k': "nat m = Suc k'" using Suc.prems(3) by (metis gr0_implies_Suc zero_less_nat_eq)
    have "bytes \<noteq> []" using rd full empty_iff [of p1] unfolding piperead_def k'
      by (auto simp: Let_def split: prod.splits)
    then have "0 < length bytes" by simp
    moreover have "pcount p1 = length bytes + pcount p2" using arg_cong [OF r2(2), of length] by simp
    ultimately have lt: "pcount p2 < 512" using full by linarith
    have open2: "pi_readopen p2" using r r2(3) Suc.prems(2) by simp
    have "length (drop ?room cs) + (if pcount p2 = 512 then 1 else 0) < k"
      using lt Suc.prems(4) False le by (auto split: if_splits)
    from Suc.IH [OF r2(1) open2 Suc.prems(3) this] obtain bs p' where
      ih: "relay k a m n (drop ?room cs) p2 = Some (n, bs, p')" "contents p2 @ drop ?room cs = bs @ contents p'" by blast
    have "contents p @ cs = (contents p @ take ?room cs) @ drop ?room cs" by simp
    also have "\<dots> = (bytes @ contents p2) @ drop ?room cs" by (simp only: c1 [symmetric] r2(2))
    finally show ?thesis using ih run res rd by simp
  qed
qed

subsection \<open>Properties\<close>

text \<open>
  C34: Under any interleaving of writes, reads and closes of a new pipe, the bytes read so far
  followed by the bytes still in the ring are exactly the bytes written so far, in order, and at
  most 512 bytes are in the ring; the counters may wrap around.
\<close>

theorem pipe_is_fifo:
  assumes "pipe_step\<^sup>*\<^sup>* \<lparr>pr_pipe = pipe_new page, pr_in = [], pr_out = []\<rparr> r" and "length page = 512"
  shows "pr_in r = pr_out r @ contents (pr_pipe r) \<and> length (contents (pr_pipe r)) \<le> 512"
proof -
  let ?start = "\<lparr>pr_pipe = pipe_new page, pr_in = [], pr_out = []\<rparr>"
  have "pipe_ok (pr_pipe r) \<and> pr_in r = pr_out r @ contents (pr_pipe r)"
    using assms(1)
  proof (induction rule: rtranclp_induct)
    case base
    then show ?case using assms(2) by (simp add: contents_new pipe_ok_def) (simp add: pipe_new_def)
  next
    case (step r r')
    then show ?case using pipe_step_inv by blast
  qed
  then show ?thesis by (simp add: pipe_ok_def)
qed

theorem pipe_is_fifo_witness:
  "\<exists>r. pipe_step\<^sup>*\<^sup>* \<lparr>pr_pipe = pipe_new (replicate 512 0), pr_in = [], pr_out = []\<rparr> r \<and>
     pr_out r = [7, 8] \<and> pr_in r = pr_out r @ contents (pr_pipe r)"
proof -
  let ?s0 = "\<lparr>pr_pipe = pipe_new (replicate 512 0), pr_in = [], pr_out = []\<rparr>"
  let ?p0 = "pipe_new (replicate 512 0)"
  obtain res p1 w where w: "pipewrite 0 False [7, 8, 9] 3 ?p0 = (res, p1, w)" by (metis prod_cases3)
  define s1 where "s1 = \<lparr>pr_pipe = p1, pr_in = pr_in ?s0 @ stored (take (nat 3) [7, 8, 9]) (pr_pipe ?s0) p1, pr_out = pr_out ?s0\<rparr>"
  obtain res2 bs p2 w2 where rd: "piperead 0 False 2 p1 = (res2, bs, p2, w2)" by (metis prod_cases4)
  define s2 where "s2 = \<lparr>pr_pipe = p2, pr_in = pr_in s1, pr_out = pr_out s1 @ bs\<rparr>"
  have "pipewrite 0 False [7, 8, 9] 3 (pr_pipe ?s0) = (res, p1, w)" using w by simp
  then have "pipe_step ?s0 s1" unfolding s1_def by (rule do_write)
  moreover have "piperead 0 False 2 (pr_pipe s1) = (res2, bs, p2, w2)" using rd by (simp add: s1_def)
  then have "pipe_step s1 s2" unfolding s2_def by (rule do_read)
  ultimately have run: "pipe_step\<^sup>*\<^sup>* ?s0 s2" by (meson rtranclp.rtrancl_into_rtrancl rtranclp.rtrancl_refl)
  have ok: "pipe_ok ?p0" by (simp add: contents_new pipe_ok_def) (simp add: pipe_new_def)
  have c1: "pipe_ok p1" "contents p1 = [7, 8, 9]"
    using pipewrite_loop_ok [OF ok w [unfolded pipewrite_def]] by (simp_all add: contents_new)
  have "pcount p1 \<noteq> 0" using arg_cong [OF c1(2), of length] by simp
  then have "piperead_copy (nat 2) p1 = (bs, p2)"
    using rd unfolding piperead_def empty_iff by (simp add: Let_def del: piperead_copy.simps split: prod.splits)
  then have "bs = [7, 8]" using piperead_copy_ok [OF c1(1)] c1(2) by force
  then have "pr_out s2 = [7, 8]" by (simp add: s2_def s1_def)
  then show ?thesis using run pipe_is_fifo [OF run] by auto
qed

text \<open>
  C35: A write stores the bytes that fit in the ring, in order and after those already there.
  It returns their number when all fit. Otherwise it fails if no reader is left or the process
  was killed, and else blocks with the bytes that did not fit, having woken the readers.
\<close>

theorem pipewrite_outcome:
  assumes "pipe_ok p" and "pipewrite a killed cs (int (length cs)) p = (res, p', w)"
  shows "contents p' = contents p @ take (512 - pcount p) cs \<and>
    (if length cs \<le> 512 - pcount p then res = Done (int (length cs)) \<and> w = [ChPipeRead a]
     else if \<not> pi_readopen p \<or> killed then res = Done (-1)
     else res = Blocked (ChPipeWrite a) (drop (512 - pcount p) cs) \<and> w = [ChPipeRead a])"
  using pipewrite_loop_ok [OF assms(1)] assms(2) unfolding pipewrite_def by fastforce

theorem pipewrite_outcome_witness:
  "contents (fst (snd (pipewrite 0 False [5, 6] (int (length [5 :: u8, 6])) (pipe_new (replicate 512 0))))) = [5, 6]"
proof -
  have "pipe_ok (pipe_new (replicate 512 0))" by (simp add: contents_new pipe_ok_def) (simp add: pipe_new_def)
  moreover obtain res p' w where
    run: "pipewrite 0 False [5, 6] (int (length [5 :: u8, 6])) (pipe_new (replicate 512 0)) = (res, p', w)" by (metis prod_cases3)
  ultimately show ?thesis using pipewrite_outcome [of "pipe_new (replicate 512 0)" 0 False "[5, 6]" res p' w] by (simp add: contents_new)
qed



end
