(* ===== verification/File.thy ===== *)
theory File
  imports Kalloc Fs Pipe
begin

section \<open>Open files (file.c, pipe.c)\<close>

text \<open>
  The table of open files with the operations on it, and the operations on pipes that allocate
  and free: \<open>pipealloc\<close> and \<open>pipeclose\<close>. A file is its index in the table. A pipe is the
  address of its page; its fields are kept in a map beside the memory. The storage state is
  extended by the file table, the pipes and the page allocator. Operations that copy to or from
  a caller's buffer return or take the bytes.

  What every operation keeps of the table and the pipes is shown in theory \<open>File_Inv\<close>.
\<close>

subsection \<open>Definitions\<close>

datatype fd_type = FD_NONE | FD_PIPE | FD_INODE

record file_ent =
  f_type :: fd_type
  f_ref :: int
  f_readable :: bool
  f_writable :: bool
  f_pipe :: u32
  f_ip :: nat
  f_off :: nat

record file_st = fs_st +
  files :: "nat \<Rightarrow> file_ent"
  pipes :: "u32 \<Rightarrow> pipe"
  kmem_of :: kmem

definition upd_file :: "nat \<Rightarrow> (file_ent \<Rightarrow> file_ent) \<Rightarrow> 'a file_st_scheme \<Rightarrow> 'a file_st_scheme" where
  "upd_file f g s = s\<lparr>files := (files s)(f := g (files s f))\<rparr>"

definition upd_pipe :: "u32 \<Rightarrow> pipe \<times> chan list \<Rightarrow> 'a file_st_scheme \<Rightarrow> 'a file_st_scheme" where
  "upd_pipe a r s = fold wake (snd r) (s\<lparr>pipes := (pipes s)(a := fst r)\<rparr>)"

text \<open>\<open>kalloc\<close> and \<open>kfree\<close> on the whole state.\<close>

definition kalloc_s :: "'a file_st_scheme \<Rightarrow> u32 \<times> 'a file_st_scheme" where
  "kalloc_s s = (case kalloc (kmem_of s) of (r, k) \<Rightarrow> (r, s\<lparr>kmem_of := k\<rparr>))"

definition kfree_s :: "u32 \<Rightarrow> 'a file_st_scheme \<Rightarrow> 'a file_st_scheme kres" where
  "kfree_s v s = bindR (kfree v (kmem_of s)) (\<lambda>k. Inr (s\<lparr>kmem_of := k\<rparr>))"

definition filealloc :: "'a file_st_scheme \<Rightarrow> nat option \<times> 'a file_st_scheme" where
  "filealloc s =
     (case List.find (\<lambda>f. f_ref (files s f) = 0) [0..<NFILE] of
        Some f \<Rightarrow> (Some f, upd_file f (\<lambda>x. x\<lparr>f_ref := 1\<rparr>) s)
      | None \<Rightarrow> (None, s))"

definition filedup :: "nat \<Rightarrow> 'a file_st_scheme \<Rightarrow> (nat \<times> 'a file_st_scheme) kres" where
  "filedup f s =
     (if f_ref (files s f) < 1 then Inl (Panic ''filedup'')
      else Inr (f, upd_file f (\<lambda>x. x\<lparr>f_ref := f_ref x + 1\<rparr>) s))"

definition pipeclose :: "u32 \<Rightarrow> bool \<Rightarrow> 'a file_st_scheme \<Rightarrow> 'a file_st_scheme kres" where
  "pipeclose a writable s =
     (let s = upd_pipe a (pipeclose_end (unat a) writable (pipes s a)) s in
      if \<not> pi_readopen (pipes s a) \<and> \<not> pi_writeopen (pipes s a) then kfree_s a s else Inr s)"

definition fileclose :: "nat \<Rightarrow> 'a file_st_scheme \<Rightarrow> 'a file_st_scheme kres" where
  "fileclose f s =
     (if f_ref (files s f) < 1 then Inl (Panic ''fileclose'')
      else
        let s = upd_file f (\<lambda>x. x\<lparr>f_ref := f_ref x - 1\<rparr>) s in
        if f_ref (files s f) > 0 then Inr s
        else
          let ff = files s f; s = upd_file f (\<lambda>x. x\<lparr>f_ref := 0, f_type := FD_NONE\<rparr>) s in
          (case f_type ff of
             FD_PIPE \<Rightarrow> pipeclose (f_pipe ff) (f_writable ff) s
           | FD_INODE \<Rightarrow> bindR (begin_op s) (\<lambda>s. bindR (iput (f_ip ff) s) end_op)
           | FD_NONE \<Rightarrow> Inr s))"

definition filestat :: "nat \<Rightarrow> 'a file_st_scheme \<Rightarrow> (stat option \<times> 'a file_st_scheme) kres" where
  "filestat f s =
     (let ip = f_ip (files s f) in
      if f_type (files s f) = FD_INODE then
        bindR (ilock ip s) (\<lambda>s. let st = stati ip s in bindR (iunlock ip s) (\<lambda>s. Inr (Some st, s)))
      else Inr (None, s))"

definition fileread :: "(nat \<Rightarrow> 'a file_st_scheme devsw) \<Rightarrow> bool \<Rightarrow> nat \<Rightarrow> int \<Rightarrow> 'a file_st_scheme \<Rightarrow>
    (rwres \<times> u8 list \<times> 'a file_st_scheme) kres" where
  "fileread devsw killed f n s =
     (let x = files s f in
      if \<not> f_readable x then Inr (Done (-1), [], s)
      else case f_type x of
        FD_PIPE \<Rightarrow>
          (case piperead (unat (f_pipe x)) killed n (pipes s (f_pipe x)) of
             (r, bytes, p, w) \<Rightarrow> Inr (r, bytes, upd_pipe (f_pipe x) (p, w) s))
      | FD_INODE \<Rightarrow>
          bindR (ilock (f_ip x) s) (\<lambda>s.
          bindR (readi devsw (f_ip x) (f_off (files s f)) (nat (n mod 2 ^ 32)) s) (\<lambda>(r, bytes, s).
            let s = (if r > 0 then upd_file f (\<lambda>x. x\<lparr>f_off := (f_off x + nat r) mod 2 ^ 32\<rparr>) s else s) in
            bindR (iunlock (f_ip x) s) (\<lambda>s. Inr (Done r, bytes, s))))
      | FD_NONE \<Rightarrow> Inl (Panic ''fileread''))"

text \<open>The most bytes one transaction of \<open>filewrite\<close> takes, and its loop.\<close>

definition fw_max :: nat where "fw_max = ((LOGSIZE - 1 - 1 - 2) div 2) * 512"

function filewrite_loop :: "(nat \<Rightarrow> 'a file_st_scheme devsw) \<Rightarrow> nat \<Rightarrow> u8 list \<Rightarrow> 'a file_st_scheme \<Rightarrow>
    (bool \<times> 'a file_st_scheme) kres" where
  "filewrite_loop devsw f addr s =
     (if addr = [] then Inr (True, s)
      else
        let ip = f_ip (files s f); part = take fw_max addr in
        bindR (begin_op s) (\<lambda>s.
        bindR (ilock ip s) (\<lambda>s.
        bindR (writei devsw ip part (f_off (files s f)) s) (\<lambda>(r, s).
          let s = (if r > 0 then upd_file f (\<lambda>x. x\<lparr>f_off := (f_off x + nat r) mod 2 ^ 32\<rparr>) s else s) in
          bindR (iunlock ip s) (\<lambda>s.
          bindR (end_op s) (\<lambda>s.
            if r < 0 then Inr (False, s)
            else if r \<noteq> int (length part) then Inl (Panic ''short filewrite'')
            else filewrite_loop devsw f (drop fw_max addr) s))))))"
  by pat_completeness auto

termination filewrite_loop
  by (relation "measure (\<lambda>(devsw, f, addr, s). length addr)") (simp_all add: fw_max_def LOGSIZE_def MAXOPBLOCKS_def)

declare filewrite_loop.simps [simp del]

definition filewrite :: "(nat \<Rightarrow> 'a file_st_scheme devsw) \<Rightarrow> bool \<Rightarrow> nat \<Rightarrow> u8 list \<Rightarrow> int \<Rightarrow> 'a file_st_scheme \<Rightarrow>
    (rwres \<times> 'a file_st_scheme) kres" where
  "filewrite devsw killed f addr n s =
     (let x = files s f in
      if \<not> f_writable x then Inr (Done (-1), s)
      else case f_type x of
        FD_PIPE \<Rightarrow>
          (case pipewrite (unat (f_pipe x)) killed addr n (pipes s (f_pipe x)) of
             (r, p, w) \<Rightarrow> Inr (r, upd_pipe (f_pipe x) (p, w) s))
      | FD_INODE \<Rightarrow>
          bindR (filewrite_loop devsw f (take (nat n) addr) s) (\<lambda>(ok, s).
            Inr (Done (if ok \<and> 0 \<le> n then n else -1), s))
      | FD_NONE \<Rightarrow> Inl (Panic ''filewrite''))"

text \<open>The code at the label \<open>bad\<close> of \<open>pipealloc\<close>.\<close>

definition pipealloc_bad :: "nat option \<Rightarrow> nat option \<Rightarrow> 'a file_st_scheme \<Rightarrow> ((nat \<times> nat) option \<times> 'a file_st_scheme) kres" where
  "pipealloc_bad f0 f1 s =
     bindR (case f0 of Some f \<Rightarrow> fileclose f s | None \<Rightarrow> Inr s) (\<lambda>s.
     bindR (case f1 of Some f \<Rightarrow> fileclose f s | None \<Rightarrow> Inr s) (\<lambda>s. Inr (None, s)))"

definition pipealloc :: "'a file_st_scheme \<Rightarrow> ((nat \<times> nat) option \<times> 'a file_st_scheme) kres" where
  "pipealloc s =
     (case filealloc s of
        (None, s) \<Rightarrow> pipealloc_bad None None s
      | (Some f0, s) \<Rightarrow>
          (case filealloc s of
             (None, s) \<Rightarrow> pipealloc_bad (Some f0) None s
           | (Some f1, s) \<Rightarrow>
               (case kalloc_s s of (p, s) \<Rightarrow>
                  if p = 0 then pipealloc_bad (Some f0) (Some f1) s
                  else
                    let s = upd_pipe p (pipe_new (map (\<lambda>i. km_mem (kmem_of s) (unat p + 52 + i)) [0..<512]), []) s;
                        s = upd_file f0 (\<lambda>x. x\<lparr>f_type := FD_PIPE, f_readable := True, f_writable := False, f_pipe := p\<rparr>) s;
                        s = upd_file f1 (\<lambda>x. x\<lparr>f_type := FD_PIPE, f_readable := False, f_writable := True, f_pipe := p\<rparr>) s
                    in Inr (Some (f0, f1), s))))"

end
