(* ===== verification/Syscall.thy ===== *)
theory Syscall
  imports Sched Vm Kbd
begin

section \<open>The kernel state and system call arguments (syscall.c)\<close>

text \<open>
  The state of the whole kernel: storage, files, console, the scheduler's state and the tick
  counter. The process a routine runs for is the \<open>proc\<close> variable of the CPU \<open>c\<close> it runs
  on. The kernel reads and writes user memory through the page table of that process; an access
  to a page that is not mapped, or a write to one that is mapped read-only, traps in the kernel
  and ends in the panic of \<open>trap\<close>.

  Then the routines that fetch the arguments of a system call from the user stack. An option
  is their error result: \<open>None\<close> stands for -1.

  The lemmas show that whatever these routines accept lies inside the process.
\<close>

subsection \<open>Definitions: kernel state and user memory\<close>

record kern = cons_st +
  ksys :: sched_sys
  ticks :: u32
  kbd_shift :: u32

definition cur :: "nat \<Rightarrow> 'a kern_scheme \<Rightarrow> nat kres" where
  "cur c s = of_option NullDeref (curproc c (pt (ksys s)))"

definition procr :: "nat \<Rightarrow> 'a kern_scheme \<Rightarrow> proc" where
  "procr p s = procs (pt (ksys s)) p"

definition upd_proc :: "nat \<Rightarrow> (proc \<Rightarrow> proc) \<Rightarrow> 'a kern_scheme \<Rightarrow> 'a kern_scheme" where
  "upd_proc p f s = s\<lparr>ksys := (ksys s)\<lparr>pt := updp p f (pt (ksys s))\<rparr>\<rparr>"

text \<open>A byte of user memory as the hardware reads and writes it in kernel mode.\<close>

definition writable :: "u32 \<Rightarrow> bool" where
  "writable w \<longleftrightarrow> present w \<and> w AND PTE_W \<noteq> 0"

definition uload :: "u32 \<Rightarrow> u32 \<Rightarrow> kmem \<Rightarrow> u8 kres" where
  "uload d va k = (if present (vlookup k d va) then Inr (km_mem k (upos k d va)) else Inl (Panic ''trap''))"

definition ustore :: "u32 \<Rightarrow> u32 \<Rightarrow> u8 \<Rightarrow> kmem \<Rightarrow> kmem kres" where
  "ustore d va b k =
     (if writable (vlookup k d va) then Inr (k\<lparr>km_mem := (km_mem k)(upos k d va := b)\<rparr>) else Inl (Panic ''trap''))"

fun uread :: "u32 \<Rightarrow> u32 \<Rightarrow> nat \<Rightarrow> kmem \<Rightarrow> u8 list kres" where
  "uread d va 0 k = Inr []"
| "uread d va (Suc n) k = bindR (uload d va k) (\<lambda>b. bindR (uread d (va + 1) n k) (\<lambda>bs. Inr (b # bs)))"

fun uwrite :: "u32 \<Rightarrow> u32 \<Rightarrow> u8 list \<Rightarrow> kmem \<Rightarrow> kmem kres" where
  "uwrite d va [] k = Inr k"
| "uwrite d va (b # bs) k = bindR (ustore d va b k) (uwrite d (va + 1) bs)"

definition uwrite_s :: "nat \<Rightarrow> u32 \<Rightarrow> u8 list \<Rightarrow> 'a kern_scheme \<Rightarrow> 'a kern_scheme kres" where
  "uwrite_s p va bytes s =
     bindR (uwrite (p_pgdir (procr p s)) va bytes (kmem_of s)) (\<lambda>k. Inr (s\<lparr>kmem_of := k\<rparr>))"

subsection \<open>Definitions: system call arguments\<close>

definition fetchint :: "nat \<Rightarrow> u32 \<Rightarrow> 'a kern_scheme \<Rightarrow> int option kres" where
  "fetchint p addr s =
     (let r = procr p s in
      if addr \<ge> p_sz r \<or> addr + 4 > p_sz r then Inr None
      else bindR (uread (p_pgdir r) addr 4 (kmem_of s)) (\<lambda>bs. Inr (Some (int32 (nat_le bs)))))"

text \<open>The loop of \<open>fetchstr\<close> over the \<open>n\<close> bytes up to the end of the process: the string.\<close>

fun fetchstr_loop :: "u32 \<Rightarrow> u32 \<Rightarrow> nat \<Rightarrow> kmem \<Rightarrow> u8 list option kres" where
  "fetchstr_loop d va 0 k = Inr None"
| "fetchstr_loop d va (Suc n) k =
     bindR (uload d va k) (\<lambda>b.
       if b = 0 then Inr (Some [])
       else bindR (fetchstr_loop d (va + 1) n k) (\<lambda>r. Inr (map_option ((#) b) r)))"

definition fetchstr :: "nat \<Rightarrow> u32 \<Rightarrow> 'a kern_scheme \<Rightarrow> u8 list option kres" where
  "fetchstr p addr s =
     (let r = procr p s in
      if addr \<ge> p_sz r then Inr None
      else fetchstr_loop (p_pgdir r) addr (unat (p_sz r) - unat addr) (kmem_of s))"

definition argint :: "nat \<Rightarrow> nat \<Rightarrow> 'a kern_scheme \<Rightarrow> int option kres" where
  "argint p n s = fetchint p (tf_esp (p_tf (procr p s)) + 4 + 4 * of_nat n) s"

definition argptr :: "nat \<Rightarrow> nat \<Rightarrow> int \<Rightarrow> 'a kern_scheme \<Rightarrow> u32 option kres" where
  "argptr p n sz s =
     bindR (argint p n s) (\<lambda>r. Inr
       (case r of
          None \<Rightarrow> None
        | Some i \<Rightarrow>
            if of_int i \<ge> p_sz (procr p s) \<or> of_int i + of_int sz > p_sz (procr p s) then None
            else Some (of_int i)))"

definition argstr :: "nat \<Rightarrow> nat \<Rightarrow> 'a kern_scheme \<Rightarrow> u8 list option kres" where
  "argstr p n s =
     bindR (argint p n s) (\<lambda>r. case r of None \<Rightarrow> Inr None | Some addr \<Rightarrow> fetchstr p (of_int addr) s)"

text \<open>A call that returns -1 when one of its arguments is bad.\<close>

definition orfail :: "'a option kres \<Rightarrow> ('a \<Rightarrow> (int \<times> 's) kres) \<Rightarrow> 's \<Rightarrow> (int \<times> 's) kres" where
  "orfail m f s = bindR m (\<lambda>r. case r of None \<Rightarrow> Inr (-1, s) | Some x \<Rightarrow> f x)"

text \<open>The kernel's variables as the loader leaves them, zero, with the given memory, scheduler
  state and cursor at the top of the screen.\<close>

definition boot_kern :: "kmem \<Rightarrow> sched_sys \<Rightarrow> kern" where
  "boot_kern k y =
     \<lparr>bufs = \<lambda>_. zero_buf, memdisk = \<lambda>_. replicate BSIZE 0, disksize = 1000, history = [], woken = [],
      lg_start = 0, lg_size = 0, lg_outstanding = 0, lg_committing = False, lg_dev = 0, lh_n = 0, lh_block = \<lambda>_. 0,
      fs_sb = superblock_of (replicate BSIZE 0),
      inodes = \<lambda>_. \<lparr>i_dev = 0, i_inum = 0, i_ref = 0, i_busy = False, i_valid = False, i_d = dinode_at (replicate BSIZE 0) 0\<rparr>,
      files = \<lambda>_. \<lparr>f_type = FD_NONE, f_ref = 0, f_readable = False, f_writable = False, f_pipe = 0, f_ip = 0, f_off = 0\<rparr>,
      pipes = \<lambda>_. pipe_new (replicate 512 0), kmem_of = k,
      input = \<lparr>in_buf = replicate 128 0, in_r = 0, in_w = 0, in_e = 0\<rparr>, crt = \<lambda>_. 0, cursor = 0, uart = False,
      serial = [], panicked = False, ksys = y, ticks = 0, kbd_shift = 0\<rparr>"

subsection \<open>Lemmas\<close>

lemma cur_Inr: "cur c s = Inr p \<longleftrightarrow> curproc c (pt (ksys s)) = Some p"
  by (auto simp: cur_def of_option_def split: option.splits)

lemma procr_upd_proc [simp]: "procr q (upd_proc p f s) = (if q = p then f (procr p s) else procr q s)"
  by (simp add: procr_def upd_proc_def updp_def)

lemma uread_ok:
  "uread d va n k = Inr bs \<Longrightarrow> length bs = n \<and> (\<forall>i<n. uload d (va + of_nat i) k = Inr (bs ! i))"
proof (induction n arbitrary: va bs)
  case (Suc n)
  then obtain b bs' where b: "uload d va k = Inr b" "uread d (va + 1) n k = Inr bs'" "bs = b # bs'" by auto
  have "uload d (va + of_nat i) k = Inr (bs ! i)" if "i < Suc n" for i
    using that b Suc.IH [OF b(2)] by (cases i) (auto simp: algebra_simps)
  then show ?case using b Suc.IH [OF b(2)] by simp
qed simp

lemma fetchstr_loop_ok:
  "fetchstr_loop d va n k = Inr (Some str) \<Longrightarrow>
     length str < n \<and> 0 \<notin> set str \<and> uload d (va + of_nat (length str)) k = Inr 0 \<and>
     (\<forall>i<length str. uload d (va + of_nat i) k = Inr (str ! i))"
proof (induction n arbitrary: va str)
  case (Suc n)
  obtain b where b: "uload d va k = Inr b" using Suc.prems by auto
  show ?case
  proof (cases "b = 0")
    case True
    then show ?thesis using Suc.prems b by auto
  next
    case False
    obtain r where r: "fetchstr_loop d (va + 1) n k = Inr r" and o: "Some str = map_option ((#) b) r"
      using Suc.prems b False by auto
    then obtain str' where str': "fetchstr_loop d (va + 1) n k = Inr (Some str')" "str = b # str'"
      by (cases r) auto
    note ih = Suc.IH [OF str'(1)]
    have "uload d (va + of_nat i) k = Inr (str ! i)" if "i < length str" for i
      using that b ih str'(2) by (cases i) (auto simp: algebra_simps)
    then show ?thesis using ih False by (simp add: str'(2) algebra_simps)
  qed
qed simp

lemma argptr_Some:
  assumes "argptr p n sz s = Inr (Some a)"
  shows "a < p_sz (procr p s)" and "a + of_int sz \<le> p_sz (procr p s)"
  using assms by (auto simp: argptr_def not_le not_less split: option.splits if_splits)

text \<open>A process with one page of memory, whose stack pointer is at \<open>0x100\<close>; \<open>m\<close> gives the
  contents of the page.\<close>

definition page_kmem :: "(nat \<Rightarrow> u8) \<Rightarrow> kmem" where
  "page_kmem m =
     \<lparr>km_mem = store32 (store32 (\<lambda>x. if x < 0x80202000 then 0 else m (x - 0x80202000)) 0x80200000 0x201007) 0x80201000 0x202007,
      km_use_lock = False, km_freelist = 0, km_end = 0x80200000\<rparr>"

definition page_proc :: proc where
  "page_proc = zero_proc\<lparr>p_sz := 0x1000, p_pgdir := 0x80200000, p_tf := zero_tf\<lparr>tf_esp := 0x100\<rparr>\<rparr>"

definition page_kern :: "(nat \<Rightarrow> u8) \<Rightarrow> kern" where
  "page_kern m = boot_kern (page_kmem m) (boot_sys (updp 2 (\<lambda>_. page_proc) (boot_table 0x80100000)))"

lemma page_uload:
  assumes "unat va < 4096"
  shows "uload 0x80200000 va (page_kmem m) = Inr (m (unat va))"
proof -
  have "vlookup (page_kmem m) 0x80200000 va = 0x202007"
    using one_page_space(2) [of "page_kmem m" "\<lambda>x. if x < 0x80202000 then 0 else m (x - 0x80202000)" va] assms
    by (simp add: page_kmem_def)
  moreover have "present 0x202007" "table 0x202007 = 0x80202000"
    by (simp_all add: present_def PTE_P_def table_def PTE_ADDR_def p2v_def KERNBASE_def)
  ultimately show ?thesis using assms by (simp add: uload_def upos_def) (simp add: page_kmem_def store32_other)
qed

lemma page_uread4:
  assumes "unat va + 4 \<le> 4096"
  shows "uread 0x80200000 va 4 (page_kmem m) = Inr [m (unat va), m (unat va + 1), m (unat va + 2), m (unat va + 3)]"
proof -
  have u: "unat (va + 1) = unat va + 1" "unat (va + 2) = unat va + 2" "unat (va + 3) = unat va + 3"
    using assms by (simp_all add: unat_word_ariths)
  have n: "(4 :: nat) = Suc (Suc (Suc (Suc 0)))" by simp
  show ?thesis unfolding n uread.simps using assms by (simp add: page_uload u add.assoc)
qed

lemma page_kern_simps [simp]:
  "procr 2 (page_kern m) = page_proc" "kmem_of (page_kern m) = page_kmem m"
  by (simp_all add: page_kern_def boot_kern_def boot_sys_def procr_def updp_def)

lemma page_proc_simps [simp]:
  "p_sz page_proc = 0x1000" "p_pgdir page_proc = 0x80200000" "tf_esp (p_tf page_proc) = 0x100"
  by (simp_all add: page_proc_def)

subsection \<open>Properties\<close>

text \<open>
  C13: A buffer that \<open>argptr\<close> accepts for a size that is not negative lies inside the memory
  of the process: no part of it is in the kernel's half of the address space, whatever the user
  put on the stack.
\<close>

theorem argptr_in_bounds:
  assumes "argptr p n sz s = Inr (Some a)" and "0 \<le> sz" and "sz < 2 ^ 31" and "p_sz (procr p s) \<le> KERNBASE"
  shows "unat a + nat sz \<le> unat (p_sz (procr p s))"
proof -
  note a = argptr_Some [OF assms(1)]
  have "unat a < 2 ^ 31" using a(1) assms(4) by (simp add: word_less_nat_alt word_le_nat_alt KERNBASE_def)
  moreover have "unat (of_int sz :: u32) = nat sz" using assms(2,3) by (simp add: unsigned_of_int take_bit_int_eq_self)
  ultimately have "unat (a + of_int sz) = unat a + nat sz" using assms(2,3) by (simp add: unat_word_ariths nat_less_iff)
  then show ?thesis using a(2) by (simp add: word_le_nat_alt)
qed

theorem argptr_in_bounds_witness:
  "argptr 2 0 8 (page_kern (\<lambda>i. if i = 0x104 then 0x40 else 0)) = Inr (Some 0x40) \<and> unat (0x40 :: u32) + nat 8 \<le> 0x1000"
proof -
  let ?s = "page_kern (\<lambda>i. if i = 0x104 then 0x40 else 0)"
  have "fetchint 2 0x104 ?s = Inr (Some 0x40)"
    by (simp add: fetchint_def Let_def page_uread4 int32_def)
  then have a: "argptr 2 0 8 ?s = Inr (Some 0x40)" by (simp add: argptr_def argint_def)
  then show ?thesis using argptr_in_bounds [OF a] by (simp add: KERNBASE_def)
qed

text \<open>
  C14: A string that \<open>fetchstr\<close> accepts is terminated inside the process: it has no NUL, its
  bytes are those of user memory at the address, and the NUL after it is still below the size
  of the process.
\<close>

theorem fetchstr_terminated:
  assumes "fetchstr p addr s = Inr (Some str)"
  shows "unat addr + length str < unat (p_sz (procr p s)) \<and> 0 \<notin> set str \<and>
    uload (p_pgdir (procr p s)) (addr + of_nat (length str)) (kmem_of s) = Inr 0 \<and>
    (\<forall>i<length str. uload (p_pgdir (procr p s)) (addr + of_nat i) (kmem_of s) = Inr (str ! i))"
proof -
  have "addr < p_sz (procr p s)" and l: "fetchstr_loop (p_pgdir (procr p s)) addr (unat (p_sz (procr p s)) - unat addr) (kmem_of s) = Inr (Some str)"
    using assms by (auto simp: fetchstr_def Let_def split: if_splits)
  then show ?thesis using fetchstr_loop_ok [OF l] by auto
qed

theorem fetchstr_terminated_witness:
  "\<exists>str. fetchstr 2 0x10 (page_kern (\<lambda>i. if i = 0x10 then 0x61 else 0)) = Inr (Some str) \<and>
     str = [0x61] \<and> unat (0x10 :: u32) + length str < 0x1000"
proof -
  let ?s = "page_kern (\<lambda>i. if i = 0x10 then 0x61 else 0)"
  have n: "4080 = Suc (Suc 4078)" by simp
  have "fetchstr_loop 0x80200000 0x10 4080 (kmem_of ?s) = Inr (Some [0x61])"
    unfolding n fetchstr_loop.simps by (simp add: page_uload)
  then have f: "fetchstr 2 0x10 ?s = Inr (Some [0x61])" by (simp add: fetchstr_def Let_def)
  then show ?thesis using fetchstr_terminated [OF f] by simp
qed

end
