(* ===== verification/Sysfile.thy ===== *)
theory Sysfile
  imports Syscall
begin

section \<open>File system calls (sysfile.c)\<close>

text \<open>
  The system calls on files and directories. Each runs for the process \<open>p\<close> and returns the
  value that goes to \<open>eax\<close>. Calls that would sleep end with \<open>Sleeps\<close>; what a pipe does
  then is in theory \<open>Pipe\<close>.
\<close>

subsection \<open>Definitions: descriptors\<close>

definition O_RDONLY :: int where "O_RDONLY = 0"
definition O_WRONLY :: int where "O_WRONLY = 1"
definition O_RDWR :: int where "O_RDWR = 2"
definition O_CREATE :: int where "O_CREATE = 0x200"

definition devs :: "nat \<Rightarrow> 'a kern_scheme \<Rightarrow> nat \<Rightarrow> 'a kern_scheme devsw" where
  "devs p s = cons_devsw (p_killed (procr p s))"

text \<open>\<open>namei\<close> and \<open>nameiparent\<close> for process \<open>p\<close>; a relative path needs a current directory.\<close>

definition at_cwd :: "nat \<Rightarrow> u8 list \<Rightarrow> (nat \<Rightarrow> 'a kern_scheme \<Rightarrow> 'b kres) \<Rightarrow> 'a kern_scheme \<Rightarrow> 'b kres" where
  "at_cwd p path f s =
     (case p_cwd (procr p s) of
        Some d \<Rightarrow> f d s
      | None \<Rightarrow> if ch path = slash then f 0 s else Inl NullDeref)"

definition namei_p :: "nat \<Rightarrow> u8 list \<Rightarrow> 'a kern_scheme \<Rightarrow> (nat option \<times> 'a kern_scheme) kres" where
  "namei_p p path s = at_cwd p path (\<lambda>d. namei (devs p s) d path) s"

definition nameiparent_p :: "nat \<Rightarrow> u8 list \<Rightarrow> 'a kern_scheme \<Rightarrow> ((nat \<times> u8 list) option \<times> 'a kern_scheme) kres" where
  "nameiparent_p p path s = at_cwd p path (\<lambda>d. nameiparent (devs p s) d path) s"

definition argfd :: "nat \<Rightarrow> nat \<Rightarrow> 'a kern_scheme \<Rightarrow> (nat \<times> nat) option kres" where
  "argfd p n s =
     bindR (argint p n s) (\<lambda>r. Inr
       (case r of
          None \<Rightarrow> None
        | Some fd \<Rightarrow>
            if fd < 0 \<or> fd \<ge> int NOFILE then None
            else map_option (\<lambda>f. (nat fd, f)) (p_ofile (procr p s) ! nat fd)))"

definition set_ofile :: "nat \<Rightarrow> nat \<Rightarrow> ptr \<Rightarrow> 'a kern_scheme \<Rightarrow> 'a kern_scheme" where
  "set_ofile p fd f = upd_proc p (\<lambda>r. r\<lparr>p_ofile := (p_ofile r)[fd := f]\<rparr>)"

definition fdalloc :: "nat \<Rightarrow> nat \<Rightarrow> 'a kern_scheme \<Rightarrow> nat option \<times> 'a kern_scheme" where
  "fdalloc p f s =
     (case List.find (\<lambda>fd. p_ofile (procr p s) ! fd = None) [0..<NOFILE] of
        Some fd \<Rightarrow> (Some fd, set_ofile p fd (Some f) s)
      | None \<Rightarrow> (None, s))"

definition sys_dup :: "nat \<Rightarrow> 'a kern_scheme \<Rightarrow> (int \<times> 'a kern_scheme) kres" where
  "sys_dup p s =
     orfail (argfd p 0 s) (\<lambda>(_, f).
       case fdalloc p f s of
         (None, s) \<Rightarrow> Inr (-1, s)
       | (Some fd, s) \<Rightarrow> bindR (filedup f s) (\<lambda>(_, s). Inr (int fd, s))) s"

text \<open>The arguments of \<open>read\<close> and \<open>write\<close>: file, count and buffer.\<close>

definition rw_args :: "nat \<Rightarrow> 'a kern_scheme \<Rightarrow> (nat \<times> int \<times> u32) option kres" where
  "rw_args p s =
     bindR (argfd p 0 s) (\<lambda>f0. case f0 of None \<Rightarrow> Inr None | Some (_, f) \<Rightarrow>
     bindR (argint p 2 s) (\<lambda>rn. case rn of None \<Rightarrow> Inr None | Some n \<Rightarrow>
     bindR (argptr p 1 n s) (\<lambda>ra. case ra of None \<Rightarrow> Inr None | Some a \<Rightarrow> Inr (Some (f, n, a)))))"

definition finish_rw :: "rwres \<Rightarrow> 's \<Rightarrow> (int \<times> 's) kres" where
  "finish_rw r s = (case r of Done v \<Rightarrow> Inr (v, s) | Blocked chn _ \<Rightarrow> Inl (Sleeps chn))"

definition sys_read :: "nat \<Rightarrow> 'a kern_scheme \<Rightarrow> (int \<times> 'a kern_scheme) kres" where
  "sys_read p s =
     orfail (rw_args p s) (\<lambda>(f, n, a).
       bindR (fileread (devs p s) (p_killed (procr p s)) f n s) (\<lambda>(r, bytes, s).
       bindR (uwrite_s p a bytes s) (finish_rw r))) s"

definition sys_write :: "nat \<Rightarrow> 'a kern_scheme \<Rightarrow> (int \<times> 'a kern_scheme) kres" where
  "sys_write p s =
     orfail (rw_args p s) (\<lambda>(f, n, a).
       bindR (uread (p_pgdir (procr p s)) a (nat n) (kmem_of s)) (\<lambda>bytes.
       bindR (filewrite (devs p s) (p_killed (procr p s)) f bytes n s) (\<lambda>(r, s). finish_rw r s))) s"

definition sys_close :: "nat \<Rightarrow> 'a kern_scheme \<Rightarrow> (int \<times> 'a kern_scheme) kres" where
  "sys_close p s =
     orfail (argfd p 0 s) (\<lambda>(fd, f).
       bindR (fileclose f (set_ofile p fd None s)) (\<lambda>s. Inr (0, s))) s"

text \<open>The fields of \<open>struct stat\<close> in memory, with the padding after the two short ones
  left as it is.\<close>

definition stat_writes :: "stat \<Rightarrow> (u32 \<times> u8 list) list" where
  "stat_writes st =
     [(0, bytes_le 2 (nat (st_type st mod 2 ^ 16))), (4, bytes_le 4 (st_dev st)), (8, bytes_le 4 (st_ino st)),
      (12, bytes_le 2 (nat (st_nlink st mod 2 ^ 16))), (16, bytes_le 4 (st_size st))]"

definition sys_fstat :: "nat \<Rightarrow> 'a kern_scheme \<Rightarrow> (int \<times> 'a kern_scheme) kres" where
  "sys_fstat p s =
     orfail (argfd p 0 s) (\<lambda>(_, f).
     orfail (argptr p 1 20 s) (\<lambda>a.
       bindR (filestat f s) (\<lambda>(r, s).
         case r of
           None \<Rightarrow> Inr (-1, s)
         | Some st \<Rightarrow> bindR (foldR (\<lambda>(off, bs). uwrite_s p (a + off) bs) (stat_writes st) s) (\<lambda>s. Inr (0, s)))) s) s"

subsection \<open>Definitions: links\<close>

text \<open>\<open>end_op\<close> before returning a value.\<close>

definition end_ret :: "int \<Rightarrow> 'a kern_scheme \<Rightarrow> (int \<times> 'a kern_scheme) kres" where
  "end_ret v s = bindR (end_op s) (\<lambda>s. Inr (v, s))"

definition add_nlink :: "nat \<Rightarrow> int \<Rightarrow> 'a kern_scheme \<Rightarrow> 'a kern_scheme kres" where
  "add_nlink ip d s = iupdate ip (upd_dinode ip (\<lambda>x. x\<lparr>di_nlink := int16 (nat ((di_nlink x + d) mod 2 ^ 16))\<rparr>) s)"

definition sys_link_bad :: "nat \<Rightarrow> 'a kern_scheme \<Rightarrow> (int \<times> 'a kern_scheme) kres" where
  "sys_link_bad ip s =
     bindR (ilock ip s) (\<lambda>s.
     bindR (add_nlink ip (-1) s) (\<lambda>s.
     bindR (iunlockput ip s) (end_ret (-1))))"

definition sys_link_dir :: "nat \<Rightarrow> nat \<Rightarrow> u8 list \<Rightarrow> 'a kern_scheme \<Rightarrow> (int \<times> 'a kern_scheme) kres" where
  "sys_link_dir p ip new s =
     bindR (nameiparent_p p new s) (\<lambda>(r, s).
       case r of
         None \<Rightarrow> sys_link_bad ip s
       | Some (dp, name) \<Rightarrow>
           bindR (ilock dp s) (\<lambda>s.
           bindR (if i_dev (inodes s dp) \<noteq> i_dev (inodes s ip) then Inr (-1, s)
                  else dirlink (devs p s) dp name (i_inum (inodes s ip)) s) (\<lambda>(r, s).
             if r < 0 then bindR (iunlockput dp s) (sys_link_bad ip)
             else bindR (iunlockput dp s) (\<lambda>s. bindR (iput ip s) (end_ret 0)))))"

definition sys_link :: "nat \<Rightarrow> 'a kern_scheme \<Rightarrow> (int \<times> 'a kern_scheme) kres" where
  "sys_link p s =
     orfail (argstr p 0 s) (\<lambda>old.
     orfail (argstr p 1 s) (\<lambda>new.
       bindR (begin_op s) (\<lambda>s.
       bindR (namei_p p old s) (\<lambda>(r, s).
         case r of
           None \<Rightarrow> end_ret (-1) s
         | Some ip \<Rightarrow>
             bindR (ilock ip s) (\<lambda>s.
               if di_type (i_d (inodes s ip)) = T_DIR then bindR (iunlockput ip s) (end_ret (-1))
               else bindR (add_nlink ip 1 s) (\<lambda>s. bindR (iunlock ip s) (sys_link_dir p ip new)))))) s) s"

text \<open>The offsets \<open>isdirempty\<close> visits, after the entries for dot and dot-dot.\<close>

definition isdirempty_step :: "nat \<Rightarrow> nat \<Rightarrow> nat \<Rightarrow> bool \<times> 'a kern_scheme \<Rightarrow> (bool \<times> 'a kern_scheme) kres" where
  "isdirempty_step p dp off r =
     (case r of (emp, s) \<Rightarrow>
        if \<not> emp then Inr (False, s)
        else bindR (readi (devs p s) dp off DIRENT s) (\<lambda>(r, de, s).
          if r \<noteq> int DIRENT then Inl (Panic ''isdirempty: readi'') else Inr (de_inum de = 0, s)))"

definition isdirempty :: "nat \<Rightarrow> nat \<Rightarrow> 'a kern_scheme \<Rightarrow> (bool \<times> 'a kern_scheme) kres" where
  "isdirempty p dp s = foldR (isdirempty_step p dp) (drop 2 (dir_offs (di_size (i_d (inodes s dp))))) (True, s)"

definition dot :: "u8 list" where "dot = [46]"
definition dotdot :: "u8 list" where "dotdot = [46, 46]"

definition unlink_found :: "nat \<Rightarrow> nat \<Rightarrow> nat \<Rightarrow> nat \<Rightarrow> 'a kern_scheme \<Rightarrow> (int \<times> 'a kern_scheme) kres" where
  "unlink_found p dp ip off s =
     bindR (writei (devs p s) dp (replicate DIRENT 0) off s) (\<lambda>(r, s).
       if r \<noteq> int DIRENT then Inl (Panic ''unlink: writei'')
       else
         bindR (if di_type (i_d (inodes s ip)) = T_DIR then add_nlink dp (-1) s else Inr s) (\<lambda>s.
         bindR (iunlockput dp s) (\<lambda>s.
         bindR (add_nlink ip (-1) s) (\<lambda>s.
         bindR (iunlockput ip s) (end_ret 0)))))"

definition sys_unlink :: "nat \<Rightarrow> 'a kern_scheme \<Rightarrow> (int \<times> 'a kern_scheme) kres" where
  "sys_unlink p s =
     orfail (argstr p 0 s) (\<lambda>path.
       bindR (begin_op s) (\<lambda>s.
       bindR (nameiparent_p p path s) (\<lambda>(r, s).
         case r of
           None \<Rightarrow> end_ret (-1) s
         | Some (dp, name) \<Rightarrow>
             let bad = (\<lambda>s. bindR (iunlockput dp s) (end_ret (-1))) in
             bindR (ilock dp s) (\<lambda>s.
               if namecmp name dot = 0 \<or> namecmp name dotdot = 0 then bad s
               else bindR (dirlookup (devs p s) dp name s) (\<lambda>(r, s).
                 case r of
                   None \<Rightarrow> bad s
                 | Some (ip, off) \<Rightarrow>
                     bindR (ilock ip s) (\<lambda>s.
                       if di_nlink (i_d (inodes s ip)) < 1 then Inl (Panic ''unlink: nlink < 1'')
                       else bindR (if di_type (i_d (inodes s ip)) = T_DIR then isdirempty p ip s else Inr (True, s))
                         (\<lambda>(emp, s).
                            if \<not> emp then bindR (iunlockput ip s) bad
                            else unlink_found p dp ip off s))))))) s"

subsection \<open>Definitions: creating and opening\<close>

definition create_new :: "nat \<Rightarrow> nat \<Rightarrow> u8 list \<Rightarrow> int \<Rightarrow> int \<Rightarrow> int \<Rightarrow> 'a kern_scheme \<Rightarrow> (nat option \<times> 'a kern_scheme) kres" where
  "create_new p dp name type major minor s =
     bindR (ialloc (i_dev (inodes s dp)) type s) (\<lambda>(ip, s).
     bindR (ilock ip s) (\<lambda>s.
     bindR (iupdate ip (upd_dinode ip (\<lambda>d. d\<lparr>di_major := major, di_minor := minor, di_nlink := 1\<rparr>) s)) (\<lambda>s.
     bindR (if type = T_DIR then
              bindR (add_nlink dp 1 s) (\<lambda>s.
              bindR (dirlink (devs p s) ip dot (i_inum (inodes s ip)) s) (\<lambda>(r, s).
                if r < 0 then Inl (Panic ''create dots'')
                else bindR (dirlink (devs p s) ip dotdot (i_inum (inodes s dp)) s) (\<lambda>(r, s).
                  if r < 0 then Inl (Panic ''create dots'') else Inr s)))
            else Inr s) (\<lambda>s.
     bindR (dirlink (devs p s) dp name (i_inum (inodes s ip)) s) (\<lambda>(r, s).
       if r < 0 then Inl (Panic ''create: dirlink'')
       else bindR (iunlockput dp s) (\<lambda>s. Inr (Some ip, s)))))))"

definition create :: "nat \<Rightarrow> u8 list \<Rightarrow> int \<Rightarrow> int \<Rightarrow> int \<Rightarrow> 'a kern_scheme \<Rightarrow> (nat option \<times> 'a kern_scheme) kres" where
  "create p path type major minor s =
     bindR (nameiparent_p p path s) (\<lambda>(r, s).
       case r of
         None \<Rightarrow> Inr (None, s)
       | Some (dp, name) \<Rightarrow>
           bindR (ilock dp s) (\<lambda>s.
           bindR (dirlookup (devs p s) dp name s) (\<lambda>(r, s).
             case r of
               Some (ip, _) \<Rightarrow>
                 bindR (iunlockput dp s) (\<lambda>s.
                 bindR (ilock ip s) (\<lambda>s.
                   if type = T_FILE \<and> di_type (i_d (inodes s ip)) = T_FILE then Inr (Some ip, s)
                   else bindR (iunlockput ip s) (\<lambda>s. Inr (None, s))))
             | None \<Rightarrow> create_new p dp name type major minor s)))"

text \<open>The first part of \<open>open\<close>: the locked inode, or nothing.\<close>

definition open_inode :: "nat \<Rightarrow> u8 list \<Rightarrow> int \<Rightarrow> 'a kern_scheme \<Rightarrow> (nat option \<times> 'a kern_scheme) kres" where
  "open_inode p path omode s =
     (if omode AND O_CREATE \<noteq> 0 then create p path T_FILE 0 0 s
      else bindR (namei_p p path s) (\<lambda>(r, s).
        case r of
          None \<Rightarrow> Inr (None, s)
        | Some ip \<Rightarrow>
            bindR (ilock ip s) (\<lambda>s.
              if di_type (i_d (inodes s ip)) = T_DIR \<and> omode \<noteq> O_RDONLY
              then bindR (iunlockput ip s) (\<lambda>s. Inr (None, s))
              else Inr (Some ip, s))))"

definition open_file :: "nat \<Rightarrow> nat \<Rightarrow> int \<Rightarrow> 'a kern_scheme \<Rightarrow> (int \<times> 'a kern_scheme) kres" where
  "open_file p ip omode s =
     (let bad = (\<lambda>s. bindR (iunlockput ip s) (end_ret (-1))) in
      case filealloc s of
        (None, s) \<Rightarrow> bad s
      | (Some f, s) \<Rightarrow>
          (case fdalloc p f s of
             (None, s) \<Rightarrow> bindR (fileclose f s) bad
           | (Some fd, s) \<Rightarrow>
               bindR (iunlock ip s) (\<lambda>s.
               bindR (end_op s) (\<lambda>s.
                 Inr (int fd, upd_file f (\<lambda>x. x\<lparr>f_type := FD_INODE, f_ip := ip, f_off := 0,
                   f_readable := (omode AND O_WRONLY = 0),
                   f_writable := (omode AND O_WRONLY \<noteq> 0 \<or> omode AND O_RDWR \<noteq> 0)\<rparr>) s)))))"

definition sys_open :: "nat \<Rightarrow> 'a kern_scheme \<Rightarrow> (int \<times> 'a kern_scheme) kres" where
  "sys_open p s =
     orfail (argstr p 0 s) (\<lambda>path.
     orfail (argint p 1 s) (\<lambda>omode.
       bindR (begin_op s) (\<lambda>s.
       bindR (open_inode p path omode s) (\<lambda>(r, s).
         case r of None \<Rightarrow> end_ret (-1) s | Some ip \<Rightarrow> open_file p ip omode s))) s) s"

text \<open>The common part of \<open>mkdir\<close> and \<open>mknod\<close>, after \<open>begin_op\<close>.\<close>

definition finish_create :: "nat option \<times> 'a kern_scheme \<Rightarrow> (int \<times> 'a kern_scheme) kres" where
  "finish_create r =
     (case r of
        (None, s) \<Rightarrow> end_ret (-1) s
      | (Some ip, s) \<Rightarrow> bindR (iunlockput ip s) (end_ret 0))"

definition sys_mkdir :: "nat \<Rightarrow> 'a kern_scheme \<Rightarrow> (int \<times> 'a kern_scheme) kres" where
  "sys_mkdir p s =
     bindR (begin_op s) (\<lambda>s.
     bindR (argstr p 0 s) (\<lambda>r.
       case r of
         None \<Rightarrow> end_ret (-1) s
       | Some path \<Rightarrow> bindR (create p path T_DIR 0 0 s) finish_create))"

definition sys_mknod :: "nat \<Rightarrow> 'a kern_scheme \<Rightarrow> (int \<times> 'a kern_scheme) kres" where
  "sys_mknod p s =
     bindR (begin_op s) (\<lambda>s.
     bindR (argstr p 0 s) (\<lambda>r. case r of None \<Rightarrow> end_ret (-1) s | Some path \<Rightarrow>
     bindR (argint p 1 s) (\<lambda>r. case r of None \<Rightarrow> end_ret (-1) s | Some major \<Rightarrow>
     bindR (argint p 2 s) (\<lambda>r. case r of None \<Rightarrow> end_ret (-1) s | Some minor \<Rightarrow>
       bindR (create p path T_DEV (int16 (nat (major mod 2 ^ 16))) (int16 (nat (minor mod 2 ^ 16))) s) finish_create))))"

definition sys_chdir :: "nat \<Rightarrow> 'a kern_scheme \<Rightarrow> (int \<times> 'a kern_scheme) kres" where
  "sys_chdir p s =
     bindR (begin_op s) (\<lambda>s.
     bindR (argstr p 0 s) (\<lambda>r. case r of None \<Rightarrow> end_ret (-1) s | Some path \<Rightarrow>
     bindR (namei_p p path s) (\<lambda>(r, s). case r of None \<Rightarrow> end_ret (-1) s | Some ip \<Rightarrow>
     bindR (ilock ip s) (\<lambda>s.
       if di_type (i_d (inodes s ip)) \<noteq> T_DIR then bindR (iunlockput ip s) (end_ret (-1))
       else
         bindR (iunlock ip s) (\<lambda>s.
         bindR (of_option NullDeref (p_cwd (procr p s))) (\<lambda>cwd.
         bindR (iput cwd s) (\<lambda>s.
         bindR (end_op s) (\<lambda>s. Inr (0, upd_proc p (\<lambda>r. r\<lparr>p_cwd := Some ip\<rparr>) s)))))))))"

definition sys_pipe :: "nat \<Rightarrow> 'a kern_scheme \<Rightarrow> (int \<times> 'a kern_scheme) kres" where
  "sys_pipe p s =
     orfail (argptr p 0 8 s) (\<lambda>fd.
       bindR (pipealloc s) (\<lambda>(r, s).
         case r of
           None \<Rightarrow> Inr (-1, s)
         | Some (f0, f1) \<Rightarrow>
             let bad = (\<lambda>s. bindR (fileclose f0 s) (\<lambda>s. bindR (fileclose f1 s) (\<lambda>s. Inr (-1, s)))) in
             (case fdalloc p f0 s of
                (None, s) \<Rightarrow> bad s
              | (Some fd0, s) \<Rightarrow>
                  (case fdalloc p f1 s of
                     (None, s) \<Rightarrow> bad (set_ofile p fd0 None s)
                   | (Some fd1, s) \<Rightarrow>
                       bindR (uwrite_s p fd (bytes_le 4 fd0) s) (\<lambda>s.
                       bindR (uwrite_s p (fd + 4) (bytes_le 4 fd1) s) (\<lambda>s. Inr (0, s))))))) s"

end
