(* ===== verification/Exec.thy ===== *)
theory Exec
  imports Sysfile
begin

section \<open>Loading programs (exec.c, loaduvm of vm.c)\<close>

text \<open>
  \<open>exec\<close>: reading the program headers, loading the segments, building the stack with the
  arguments, and switching the process to the new image. The linker's symbol \<open>data\<close> that
  \<open>setupkvm\<close> needs is a parameter. The ELF header is a local variable: \<open>junk\<close> is what its
  memory holds before \<open>readi\<close> fills it.
\<close>

subsection \<open>Definitions\<close>

definition ELF_MAGIC :: nat where "ELF_MAGIC = 0x464C457F"
definition ELF_PROG_LOAD :: nat where "ELF_PROG_LOAD = 1"

record elfhdr =
  eh_magic :: nat
  eh_entry :: u32
  eh_phoff :: u32
  eh_phnum :: nat

record proghdr =
  ph_type :: nat
  ph_off :: u32
  ph_vaddr :: u32
  ph_filesz :: u32
  ph_memsz :: u32

text \<open>The fields that are used, at their offsets in the two structures of 52 and 32 bytes.\<close>

definition elfhdr_of :: "u8 list \<Rightarrow> elfhdr" where
  "elfhdr_of b = \<lparr>eh_magic = get32 b 0, eh_entry = of_nat (get32 b 24), eh_phoff = of_nat (get32 b 28), eh_phnum = get16 b 44\<rparr>"

definition proghdr_of :: "u8 list \<Rightarrow> proghdr" where
  "proghdr_of b =
     \<lparr>ph_type = get32 b 0, ph_off = of_nat (get32 b 4), ph_vaddr = of_nat (get32 b 8),
      ph_filesz = of_nat (get32 b 16), ph_memsz = of_nat (get32 b 20)\<rparr>"

text \<open>A routine of the memory manager on the whole state.\<close>

definition on_km :: "(kmem \<Rightarrow> ('b \<times> kmem) kres) \<Rightarrow> 'a file_st_scheme \<Rightarrow> ('b \<times> 'a file_st_scheme) kres" where
  "on_km f s = bindR (f (kmem_of s)) (\<lambda>(r, k). Inr (r, s\<lparr>kmem_of := k\<rparr>))"

definition freevm_s :: "u32 \<Rightarrow> 'a file_st_scheme \<Rightarrow> 'a file_st_scheme kres" where
  "freevm_s pgdir s = bindR (freevm pgdir (kmem_of s)) (\<lambda>k. Inr (s\<lparr>kmem_of := k\<rparr>))"

partial_function (option) loaduvm_loop ::
    "(nat \<Rightarrow> 'a file_st_scheme devsw) \<Rightarrow> u32 \<Rightarrow> u32 \<Rightarrow> nat \<Rightarrow> u32 \<Rightarrow> u32 \<Rightarrow> u32 \<Rightarrow> 'a file_st_scheme \<Rightarrow>
     (int \<times> 'a file_st_scheme) kres option" where
  "loaduvm_loop devsw pgdir addr ip offset i sz s =
     (if \<not> i < sz then Some (Inr (0, s))
      else let pte = fst (walkpgdir pgdir (addr + i) False (kmem_of s)) in
        if pte = 0 then Some (Inl (Panic ''loaduvm: address should exist''))
        else
          let pa = PTE_ADDR (rd32 (kmem_of s) pte); n = (if sz - i < PGSIZE then sz - i else PGSIZE) in
          (case readi devsw ip (unat (offset + i)) (unat n) s of
             Inl e \<Rightarrow> Some (Inl e)
           | Inr (r, bytes, s) \<Rightarrow>
               let s = s\<lparr>kmem_of := (kmem_of s)\<lparr>km_mem := wr (km_mem (kmem_of s)) (unat (p2v pa)) bytes\<rparr>\<rparr> in
               if r \<noteq> int (unat n) then Some (Inr (-1, s))
               else loaduvm_loop devsw pgdir addr ip offset (i + PGSIZE) sz s))"

definition loaduvm :: "(nat \<Rightarrow> 'a file_st_scheme devsw) \<Rightarrow> u32 \<Rightarrow> u32 \<Rightarrow> nat \<Rightarrow> u32 \<Rightarrow> u32 \<Rightarrow> 'a file_st_scheme \<Rightarrow>
    (int \<times> 'a file_st_scheme) kres" where
  "loaduvm devsw pgdir addr ip offset sz s =
     (if addr mod PGSIZE \<noteq> 0 then Inl (Panic ''loaduvm: addr must be page aligned'')
      else loop_kres (loaduvm_loop devsw pgdir addr ip offset 0 sz s))"

text \<open>The loop over the program headers: the new size, or \<open>None\<close> for \<open>goto bad\<close>.\<close>

fun exec_segments :: "(nat \<Rightarrow> 'a file_st_scheme devsw) \<Rightarrow> u32 \<Rightarrow> nat \<Rightarrow> nat \<Rightarrow> u32 \<Rightarrow> u32 \<Rightarrow> 'a file_st_scheme \<Rightarrow>
    (u32 option \<times> 'a file_st_scheme) kres" where
  "exec_segments devsw pgdir ip 0 off sz s = Inr (Some sz, s)"
| "exec_segments devsw pgdir ip (Suc n) off sz s =
     bindR (readi devsw ip (unat off) 32 s) (\<lambda>(r, b, s).
       if r \<noteq> 32 then Inr (None, s)
       else
         let ph = proghdr_of b in
         if ph_type ph \<noteq> ELF_PROG_LOAD then exec_segments devsw pgdir ip n (off + 32) sz s
         else if ph_memsz ph < ph_filesz ph then Inr (None, s)
         else bindR (on_km (allocuvm pgdir sz (ph_vaddr ph + ph_memsz ph)) s) (\<lambda>(sz, s).
           if sz = 0 then Inr (None, s)
           else bindR (loaduvm devsw pgdir (ph_vaddr ph) ip (ph_off ph) (ph_filesz ph) s) (\<lambda>(r, s).
             if r < 0 then Inr (None, s)
             else exec_segments devsw pgdir ip n (off + 32) sz s)))"

text \<open>The loop that pushes the argument strings: the stack pointer and the addresses.\<close>

fun exec_args :: "u32 \<Rightarrow> u8 list list \<Rightarrow> nat \<Rightarrow> u32 \<Rightarrow> kmem \<Rightarrow> ((u32 \<times> u32 list) option \<times> kmem) kres" where
  "exec_args pgdir [] argc sp k = Inr (Some (sp, []), k)"
| "exec_args pgdir (a # argv) argc sp k =
     (if argc \<ge> MAXARG then Inr (None, k)
      else
        let sp = (sp - (of_nat (length a) + 1)) AND NOT 3 in
        bindR (copyout pgdir sp (a @ [0]) k) (\<lambda>(r, k).
          if r < 0 then Inr (None, k)
          else bindR (exec_args pgdir argv (argc + 1) sp k) (\<lambda>(r, k).
            Inr (map_option (\<lambda>(sp', us). (sp', sp # us)) r, k))))"

text \<open>The guard page, the stack page, the strings and the vector \<open>ustack\<close>: the size of the
  image and the stack pointer.\<close>

definition exec_stack :: "u32 \<Rightarrow> u8 list list \<Rightarrow> u32 \<Rightarrow> kmem \<Rightarrow> ((u32 \<times> u32) option \<times> kmem) kres" where
  "exec_stack pgdir argv sz k =
     (let sz = PGROUNDUP sz in
      bindR (allocuvm pgdir sz (sz + 2 * PGSIZE) k) (\<lambda>(sz, k).
        if sz = 0 then Inr (None, k)
        else
          bindR (clearpteu pgdir (sz - 2 * PGSIZE) k) (\<lambda>k.
          bindR (exec_args pgdir argv 0 sz k) (\<lambda>(r, k).
            case r of
              None \<Rightarrow> Inr (None, k)
            | Some (sp, us) \<Rightarrow>
                let argc = of_nat (length us);
                    ustack = [0xffffffff, argc, sp - (argc + 1) * 4] @ us @ [0];
                    sp = sp - (3 + argc + 1) * 4
                in bindR (copyout pgdir sp (concat (map (\<lambda>w. bytes_le 4 (unat w)) ustack)) k) (\<lambda>(r, k).
                     Inr (if r < 0 then None else Some (sz, sp), k))))))"

text \<open>The bytes \<open>safestrcpy\<close> leaves in a field of \<open>n\<close> bytes that held \<open>old\<close>.\<close>

definition safestrcpy_field :: "u8 list \<Rightarrow> u8 list \<Rightarrow> nat \<Rightarrow> u8 list" where
  "safestrcpy_field old src n = patch 0 (take (n - 1) (src @ [0]) @ [0]) old"

definition last_elem :: "u8 list \<Rightarrow> u8 list" where
  "last_elem path = rev (takeWhile (\<lambda>c. c \<noteq> slash) (rev path))"

definition exec_bad :: "u32 \<Rightarrow> nat option \<Rightarrow> 'a kern_scheme \<Rightarrow> (int \<times> 'a kern_scheme) kres" where
  "exec_bad pgdir ip s =
     bindR (if pgdir \<noteq> 0 then freevm_s pgdir s else Inr s) (\<lambda>s.
       case ip of
         None \<Rightarrow> Inr (-1, s)
       | Some ip \<Rightarrow> bindR (iunlockput ip s) (end_ret (-1)))"

text \<open>The end of \<open>exec\<close>: from here it cannot fail with -1.\<close>

definition exec_commit :: "nat \<Rightarrow> nat \<Rightarrow> u8 list \<Rightarrow> u32 \<Rightarrow> u32 \<Rightarrow> u32 \<Rightarrow> u32 \<Rightarrow> 'a kern_scheme \<Rightarrow> (int \<times> 'a kern_scheme) kres" where
  "exec_commit c p path entry pgdir sz sp s =
     (let oldpgdir = p_pgdir (procr p s);
          s = upd_proc p (\<lambda>r. r\<lparr>p_name := safestrcpy_field (p_name r) (last_elem path) 16, p_pgdir := pgdir, p_sz := sz,
                                 p_tf := (p_tf r)\<lparr>tf_eip := entry, tf_esp := sp\<rparr>\<rparr>) s
      in bindR (on_pt (switchuvm c p) (ksys s)) (\<lambda>y.
         bindR (freevm_s oldpgdir (s\<lparr>ksys := y\<rparr>)) (\<lambda>s. Inr (0, s))))"

text \<open>
  The test \<open>readi(...) < sizeof(elf)\<close> compares unsigned numbers, so that a result of -1
  passes it.
\<close>

definition exec :: "u32 \<Rightarrow> u8 list \<Rightarrow> nat \<Rightarrow> nat \<Rightarrow> u8 list \<Rightarrow> u8 list list \<Rightarrow> 'a kern_scheme \<Rightarrow> (int \<times> 'a kern_scheme) kres" where
  "exec data junk c p path argv s =
     bindR (begin_op s) (\<lambda>s.
     bindR (namei_p p path s) (\<lambda>(r, s).
       case r of
         None \<Rightarrow> end_ret (-1) s
       | Some ip \<Rightarrow>
           bindR (ilock ip s) (\<lambda>s.
           bindR (readi (devs p s) ip 0 52 s) (\<lambda>(r, b, s).
             let elf = elfhdr_of (b @ drop (length b) junk) in
             if 0 \<le> r \<and> r < 52 then exec_bad 0 (Some ip) s
             else if eh_magic elf \<noteq> ELF_MAGIC then exec_bad 0 (Some ip) s
             else
               bindR (on_km (setupkvm data) s) (\<lambda>(pgdir, s).
                 if pgdir = 0 then exec_bad 0 (Some ip) s
                 else
                   bindR (exec_segments (devs p s) pgdir ip (eh_phnum elf) (eh_phoff elf) 0 s) (\<lambda>(r, s).
                     case r of
                       None \<Rightarrow> exec_bad pgdir (Some ip) s
                     | Some sz \<Rightarrow>
                         bindR (iunlockput ip s) (\<lambda>s.
                         bindR (end_op s) (\<lambda>s.
                         bindR (on_km (exec_stack pgdir argv sz) s) (\<lambda>(r, s).
                           case r of
                             None \<Rightarrow> exec_bad pgdir None s
                           | Some (sz, sp) \<Rightarrow> exec_commit c p path (eh_entry elf) pgdir sz sp s)))))))))"

text \<open>The loop of \<open>sys_exec\<close> over the argument vector; \<open>n\<close> counts the slots left.\<close>

fun fetch_argv :: "nat \<Rightarrow> u32 \<Rightarrow> nat \<Rightarrow> 'a kern_scheme \<Rightarrow> u8 list list option kres" where
  "fetch_argv p uargv 0 s = Inr None"
| "fetch_argv p uargv (Suc n) s =
     bindR (fetchint p uargv s) (\<lambda>r.
       case r of
         None \<Rightarrow> Inr None
       | Some uarg \<Rightarrow>
           if uarg = 0 then Inr (Some [])
           else bindR (fetchstr p (of_int uarg) s) (\<lambda>r.
             case r of
               None \<Rightarrow> Inr None
             | Some a \<Rightarrow> bindR (fetch_argv p (uargv + 4) n s) (\<lambda>r. Inr (map_option ((#) a) r))))"

definition sys_exec :: "u32 \<Rightarrow> u8 list \<Rightarrow> nat \<Rightarrow> nat \<Rightarrow> 'a kern_scheme \<Rightarrow> (int \<times> 'a kern_scheme) kres" where
  "sys_exec data junk c p s =
     orfail (argstr p 0 s) (\<lambda>path.
     orfail (argint p 1 s) (\<lambda>uargv.
     orfail (fetch_argv p (of_int uargv) MAXARG s) (\<lambda>argv.
       exec data junk c p path argv s) s) s) s"

end
