(* ===== verification/Proc.thy ===== *)
theory Proc
  imports Exec
begin

section \<open>Processes (proc.c)\<close>

text \<open>
  The routines of \<open>proc.c\<close> that combine the process table of theory \<open>Sched\<close> with
  memory and files: making a process, growing it, forking, exiting and waiting. \<open>c\<close> is the
  CPU, \<open>pcs\<close> the call stack recorded when a lock is taken; the addresses of \<open>trapret\<close>,
  \<open>forkret\<close> and of the kernel's data are linker symbols and parameters.

  The record of a process keeps the trap frame itself beside its address. A new process has an
  unspecified trap frame until \<open>fork\<close> or \<open>userinit\<close> fills it.
\<close>

subsection \<open>Definitions\<close>

record linker =
  ln_data :: u32
  ln_trapret :: u32
  ln_forkret :: u32

definition on_sys :: "(sched_sys \<Rightarrow> sched_sys kres) \<Rightarrow> 'a kern_scheme \<Rightarrow> 'a kern_scheme kres" where
  "on_sys f s = bindR (f (ksys s)) (\<lambda>y. Inr (s\<lparr>ksys := y\<rparr>))"

definition on_sysr :: "(sched_sys \<Rightarrow> ('b \<times> sched_sys) kres) \<Rightarrow> 'a kern_scheme \<Rightarrow> ('b \<times> 'a kern_scheme) kres" where
  "on_sysr f s = bindR (f (ksys s)) (\<lambda>(r, y). Inr (r, s\<lparr>ksys := y\<rparr>))"

text \<open>The kernel stack of a new process: trap frame of 76 bytes, return address, context of 20.\<close>

definition init_kstack :: "linker \<Rightarrow> u32 \<Rightarrow> proc \<Rightarrow> proc" where
  "init_kstack ln kstack r =
     (let sp = kstack + KSTACKSIZE - 76; cx = sp - 4 - 20 in
      r\<lparr>p_tf_at := sp, p_retaddr := ln_trapret ln, p_context_at := cx,
         p_context := zero_context\<lparr>cx_eip := ln_forkret ln\<rparr>\<rparr>)"

text \<open>When there is no memory for the stack the slot becomes unused but does not return to the
  free list: the code that puts it there is compiled only under a misspelt macro.\<close>

definition allocproc :: "linker \<Rightarrow> nat \<Rightarrow> u32 list \<Rightarrow> 'a kern_scheme \<Rightarrow> (nat option \<times> 'a kern_scheme) kres" where
  "allocproc ln c pcs s =
     bindR (on_sysr (locked c pcs (\<lambda>t. Inr (alloc_slot t))) s) (\<lambda>(r, s).
       case r of
         None \<Rightarrow> Inr (None, s)
       | Some p \<Rightarrow>
           (case kalloc_s s of (kstack, s) \<Rightarrow>
              let s = upd_proc p (\<lambda>r. r\<lparr>p_kstack := kstack\<rparr>) s in
              if kstack = 0 then Inr (None, upd_proc p (\<lambda>r. r\<lparr>p_state := UNUSED\<rparr>) s)
              else Inr (Some p, upd_proc p (init_kstack ln kstack) s)))"

definition user_tf :: trapframe where
  "user_tf = zero_tf\<lparr>tf_cs := 0x23, tf_ds := 0x2B, tf_es := 0x2B, tf_ss := 0x2B, tf_eflags := 0x200, tf_esp := PGSIZE, tf_eip := 0\<rparr>"

definition userinit_fill :: "u32 \<Rightarrow> ptr \<Rightarrow> proc \<Rightarrow> proc" where
  "userinit_fill pgdir cwd r =
     r\<lparr>p_pgdir := pgdir, p_sz := PGSIZE, p_tf := user_tf, p_uid := 20, p_gid := 10,
        p_name := safestrcpy_field (p_name r) (bytes_of ''initcode'') 16, p_cwd := cwd\<rparr>"

text \<open>\<open>userinit\<close>; \<open>initcode\<close> is the program linked into the kernel.\<close>

definition userinit :: "linker \<Rightarrow> u8 list \<Rightarrow> nat \<Rightarrow> u32 list \<Rightarrow> 'a kern_scheme \<Rightarrow> 'a kern_scheme kres" where
  "userinit ln initcode c pcs s =
     bindR (on_sysr (locked c pcs (\<lambda>t. Inr ((), (initFreeList t)\<lparr>timeToReset := COUNT\<rparr>))) s) (\<lambda>(_, s).
     bindR (allocproc ln c pcs s) (\<lambda>(r, s).
     bindR (of_option NullDeref r) (\<lambda>p.
       let s = s\<lparr>ksys := (ksys s)\<lparr>pt := (pt (ksys s))\<lparr>initproc := Some p\<rparr>\<rparr>\<rparr> in
       bindR (on_km (setupkvm (ln_data ln)) s) (\<lambda>(pgdir, s).
         if pgdir = 0 then Inl (Panic ''userinit: out of memory?'')
         else
           bindR (on_km (\<lambda>k. bindR (inituvm pgdir initcode k) (\<lambda>k. Inr ((), k))) s) (\<lambda>(_, s).
           bindR (namei (cons_devsw False) 0 [slash] s) (\<lambda>(cwd, s).
             let s = upd_proc p (\<lambda>r. (userinit_fill pgdir cwd r)\<lparr>p_state := RUNNABLE\<rparr>) s in
             bindR (on_sysr (locked c pcs (\<lambda>t.
               bindR (putOnReadyList p (p_priority (procs t p))
                        (t\<lparr>readyList := (readyList t)(0 := None, 1 := None, 2 := None)\<rparr>)) (\<lambda>t. Inr ((), t)))) s) (\<lambda>(_, s).
             Inr s)))))))"

definition growproc :: "nat \<Rightarrow> nat \<Rightarrow> int \<Rightarrow> 'a kern_scheme \<Rightarrow> (int \<times> 'a kern_scheme) kres" where
  "growproc c p n s =
     (let r = procr p s; sz = p_sz r in
      bindR (if n > 0 then on_km (allocuvm (p_pgdir r) sz (sz + of_int n)) s
             else if n < 0 then on_km (deallocuvm (p_pgdir r) sz (sz + of_int n)) s
             else Inr (sz, s)) (\<lambda>(sz, s).
        if n \<noteq> 0 \<and> sz = 0 then Inr (-1, s)
        else
          bindR (on_sys (on_pt (switchuvm c p)) (upd_proc p (\<lambda>r. r\<lparr>p_sz := sz\<rparr>) s)) (\<lambda>s. Inr (0, s))))"

text \<open>\<open>fork\<close>: duplicating the files, and what it copies into the new process.\<close>

definition fork_file :: "nat \<Rightarrow> nat \<Rightarrow> nat \<Rightarrow> 'a kern_scheme \<Rightarrow> 'a kern_scheme kres" where
  "fork_file p np i s =
     (case p_ofile (procr p s) ! i of
        None \<Rightarrow> Inr s
      | Some f \<Rightarrow> bindR (filedup f s) (\<lambda>(f, s). Inr (set_ofile np i (Some f) s)))"

definition fork_copy :: "nat \<Rightarrow> proc \<Rightarrow> proc \<Rightarrow> proc" where
  "fork_copy p parent r =
     r\<lparr>p_sz := p_sz parent, p_parent := Some p, p_tf := (p_tf parent)\<lparr>tf_eax := 0\<rparr>, p_gid := p_gid parent,
        p_uid := p_uid parent, p_priority := DEFAULTPRIO\<rparr>"

definition fork_nomem :: "nat \<Rightarrow> u32 list \<Rightarrow> nat \<Rightarrow> 'a kern_scheme \<Rightarrow> (int \<times> 'a kern_scheme) kres" where
  "fork_nomem c pcs np s =
     bindR (kfree_s (p_kstack (procr np s)) s) (\<lambda>s.
     bindR (on_sysr (locked c pcs (\<lambda>t. bindR (putOnFreeList np t) (\<lambda>t. Inr ((), t))))
              (upd_proc np (\<lambda>r. r\<lparr>p_kstack := 0, p_state := UNUSED\<rparr>) s)) (\<lambda>(_, s).
     Inr (-1, s)))"

definition fork :: "linker \<Rightarrow> nat \<Rightarrow> u32 list \<Rightarrow> nat \<Rightarrow> 'a kern_scheme \<Rightarrow> (int \<times> 'a kern_scheme) kres" where
  "fork ln c pcs p s =
     bindR (allocproc ln c pcs s) (\<lambda>(r, s).
       case r of
         None \<Rightarrow> Inr (-1, s)
       | Some np \<Rightarrow>
           bindR (on_km (copyuvm (ln_data ln) (p_pgdir (procr p s)) (p_sz (procr p s))) s) (\<lambda>(d, s).
             let s = upd_proc np (\<lambda>r. r\<lparr>p_pgdir := d\<rparr>) s in
             if d = 0 then fork_nomem c pcs np s
             else
               let s = upd_proc np (fork_copy p (procr p s)) s in
               bindR (foldR (fork_file p np) [0..<NOFILE] s) (\<lambda>s.
               bindR (of_option NullDeref (p_cwd (procr p s))) (\<lambda>cwd.
                 case idup cwd s of (cwd, s) \<Rightarrow>
                   let s = upd_proc np (\<lambda>r. r\<lparr>p_cwd := Some cwd,
                             p_name := safestrcpy_field (p_name r) (takeWhile (\<lambda>b. b \<noteq> 0) (p_name (procr p s))) 16\<rparr>) s;
                       pid = p_pid (procr np s)
                   in bindR (on_sysr (locked c pcs (\<lambda>t. bindR (make_runnable np t) (\<lambda>t. Inr ((), t)))) s) (\<lambda>(_, s).
                        Inr (pid, s))))))"

definition exit_file :: "nat \<Rightarrow> nat \<Rightarrow> 'a kern_scheme \<Rightarrow> 'a kern_scheme kres" where
  "exit_file p fd s =
     (case p_ofile (procr p s) ! fd of
        None \<Rightarrow> Inr s
      | Some f \<Rightarrow> bindR (fileclose f s) (\<lambda>s. Inr (set_ofile p fd None s)))"

text \<open>\<open>exit\<close> up to the switch to the scheduler, from which it does not return.\<close>

definition exit :: "nat \<Rightarrow> u32 list \<Rightarrow> nat \<Rightarrow> 'a kern_scheme \<Rightarrow> 'a kern_scheme kres" where
  "exit c pcs p s =
     (if initproc (pt (ksys s)) = Some p then Inl (Panic ''init exiting'')
      else
        bindR (foldR (exit_file p) [0..<NOFILE] s) (\<lambda>s.
        bindR (begin_op s) (\<lambda>s.
        bindR (of_option NullDeref (p_cwd (procr p s))) (\<lambda>cwd.
        bindR (iput cwd s) (\<lambda>s.
        bindR (end_op s) (\<lambda>s.
          on_sys (exit_sched c pcs) (upd_proc p (\<lambda>r. r\<lparr>p_cwd := None\<rparr>) s)))))))"

text \<open>One iteration of the loop of \<open>wait\<close> with the lock held: the value it returns, or
  \<open>None\<close> when it has gone to sleep.\<close>

definition wait_once :: "nat \<Rightarrow> nat \<Rightarrow> 'a kern_scheme \<Rightarrow> (int option \<times> 'a kern_scheme) kres" where
  "wait_once c me s =
     (case wait_scan me [0..<NPROC] False (pt (ksys s)) of
        (Some p, _) \<Rightarrow>
          bindR (kfree_s (p_kstack (procr p s)) s) (\<lambda>s.
          bindR (freevm_s (p_pgdir (procr p s)) (upd_proc p (\<lambda>r. r\<lparr>p_kstack := 0\<rparr>) s)) (\<lambda>s.
          case wait_reap p (pt (ksys s)) of (pid, t) \<Rightarrow>
            bindR (on_sys (\<lambda>y. unlock_pt c (y\<lparr>pt := t\<rparr>)) s) (\<lambda>s. Inr (Some pid, s))))
      | (None, havekids) \<Rightarrow>
          if \<not> havekids \<or> p_killed (procr me s)
          then bindR (on_sys (unlock_pt c) s) (\<lambda>s. Inr (Some (-1), s))
          else bindR (on_sysr (sleep c [] (ChProc me) LkPtable) s) (\<lambda>(_, s). Inr (None, s)))"

definition wait :: "nat \<Rightarrow> u32 list \<Rightarrow> nat \<Rightarrow> 'a kern_scheme \<Rightarrow> (int option \<times> 'a kern_scheme) kres" where
  "wait c pcs me s = bindR (on_sys (lock_pt c pcs) s) (wait_once c me)"

end
