(* ===== verification/Trap.thy ===== *)
theory Trap
  imports Proc Rtc
begin

section \<open>System calls and traps (sysproc.c, syscall.c, trap.c)\<close>

text \<open>
  The system calls on processes, the dispatch of system calls, and the trap handler. What
  hardware delivers with a trap is an argument: the trap frame, the scan codes and serial bytes
  that wait, the faulting address. A call that ends in a switch to the scheduler (\<open>exit\<close>, a
  \<open>wait\<close> that sleeps) gives \<open>None\<close> as its result.

  Wakeups of the storage layers collect in the field \<open>woken\<close>; \<open>deliver\<close> runs them on the
  process table in order when a call or an interrupt handler is done.
\<close>

subsection \<open>Definitions: system calls on processes\<close>

definition deliver :: "nat \<Rightarrow> u32 list \<Rightarrow> 'a kern_scheme \<Rightarrow> 'a kern_scheme kres" where
  "deliver c pcs s = foldR (\<lambda>chn. on_sys (wakeup c pcs chn)) (bio.woken s) (s\<lparr>woken := []\<rparr>)"

definition sys_kill :: "nat \<Rightarrow> u32 list \<Rightarrow> nat \<Rightarrow> 'a kern_scheme \<Rightarrow> (int \<times> 'a kern_scheme) kres" where
  "sys_kill c pcs p s = orfail (argint p 0 s) (\<lambda>pid. on_sysr (kill c pcs pid) s) s"

definition sys_getpid :: "nat \<Rightarrow> 'a kern_scheme \<Rightarrow> (int \<times> 'a kern_scheme) kres" where
  "sys_getpid p s = Inr (p_pid (procr p s), s)"

definition sys_sbrk :: "nat \<Rightarrow> nat \<Rightarrow> 'a kern_scheme \<Rightarrow> (int \<times> 'a kern_scheme) kres" where
  "sys_sbrk c p s =
     orfail (argint p 0 s) (\<lambda>n.
       let addr = sint (p_sz (procr p s)) in
       bindR (growproc c p n s) (\<lambda>(r, s). Inr (if r < 0 then -1 else addr, s))) s"

text \<open>One test of the loop of \<open>sys_sleep\<close>: the value it returns, or \<open>None\<close> to sleep again.
  The comparison is between unsigned numbers.\<close>

definition sleep_test :: "u32 \<Rightarrow> int \<Rightarrow> bool \<Rightarrow> u32 \<Rightarrow> int option" where
  "sleep_test ticks0 n killed now =
     (if now - ticks0 < of_int n then if killed then Some (-1) else None else Some 0)"

definition sys_sleep :: "nat \<Rightarrow> 'a kern_scheme \<Rightarrow> (int \<times> 'a kern_scheme) kres" where
  "sys_sleep p s =
     orfail (argint p 0 s) (\<lambda>n.
       case sleep_test (ticks s) n (p_killed (procr p s)) (ticks s) of
         Some r \<Rightarrow> Inr (r, s)
       | None \<Rightarrow> Inl (Sleeps ChTicks)) s"

definition sys_uptime :: "'a kern_scheme \<Rightarrow> (int \<times> 'a kern_scheme) kres" where
  "sys_uptime s = Inr (sint (ticks s), s)"

definition rtcdate_bytes :: "rtcdate \<Rightarrow> u8 list" where
  "rtcdate_bytes d =
     concat (map (\<lambda>w. bytes_le 4 (unat w))
       [rtc_second d, rtc_minute d, rtc_hour d, rtc_day d, rtc_month d, rtc_year d])"

definition sys_date :: "cmos \<Rightarrow> nat \<Rightarrow> 'a kern_scheme \<Rightarrow> (int \<times> 'a kern_scheme) kres" where
  "sys_date cm p s =
     orfail (argptr p 0 24 s) (\<lambda>a.
       bindR (of_option Diverge (cmostime cm 0)) (\<lambda>d.
       bindR (uwrite_s p a (rtcdate_bytes d) s) (\<lambda>s. Inr (0, s)))) s"

definition sys_getuid :: "nat \<Rightarrow> 'a kern_scheme \<Rightarrow> (int \<times> 'a kern_scheme) kres" where
  "sys_getuid p s = Inr (sint (p_uid (procr p s)), s)"

definition sys_getgid :: "nat \<Rightarrow> 'a kern_scheme \<Rightarrow> (int \<times> 'a kern_scheme) kres" where
  "sys_getgid p s = Inr (sint (p_gid (procr p s)), s)"

definition sys_getppid :: "nat \<Rightarrow> 'a kern_scheme \<Rightarrow> (int \<times> 'a kern_scheme) kres" where
  "sys_getppid p s = bindR (of_option NullDeref (p_parent (procr p s))) (\<lambda>q. Inr (p_pid (procr q s), s))"

definition sys_setuid :: "nat \<Rightarrow> 'a kern_scheme \<Rightarrow> (int \<times> 'a kern_scheme) kres" where
  "sys_setuid p s = orfail (argint p 0 s) (\<lambda>uid. Inr (0, upd_proc p (\<lambda>r. r\<lparr>p_uid := of_int uid\<rparr>) s)) s"

definition sys_setgid :: "nat \<Rightarrow> 'a kern_scheme \<Rightarrow> (int \<times> 'a kern_scheme) kres" where
  "sys_setgid p s = orfail (argint p 0 s) (\<lambda>gid. Inr (0, upd_proc p (\<lambda>r. r\<lparr>p_gid := of_int gid\<rparr>) s)) s"

text \<open>The 56 bytes of \<open>struct uproc\<close>.\<close>

definition uproc_bytes :: "uproc \<Rightarrow> u8 list" where
  "uproc_bytes u =
     bytes_le 4 (nat (up_pid u mod 2 ^ 32)) @ bytes_le 4 (unat (up_gid u)) @ bytes_le 4 (unat (up_uid u)) @
     bytes_le 4 (nat (up_ppid u mod 2 ^ 32)) @ up_state u @ bytes_le 4 (unat (up_size u)) @
     bytes_le 4 (nat (up_priority u mod 2 ^ 32)) @ up_name u"

text \<open>Only the room for one entry of the table is checked.\<close>

definition sys_getprocs :: "nat \<Rightarrow> u32 list \<Rightarrow> nat \<Rightarrow> 'a kern_scheme \<Rightarrow> (int \<times> 'a kern_scheme) kres" where
  "sys_getprocs c pcs p s =
     orfail (argint p 0 s) (\<lambda>mx.
     orfail (argptr p 1 56 s) (\<lambda>a.
       bindR (on_sysr (locked c pcs (\<lambda>t. bindR (getProcInfo mx t) (\<lambda>r. Inr (r, t)))) s) (\<lambda>((n, us), s).
       bindR (uwrite_s p a (concat (map uproc_bytes us)) s) (\<lambda>s. Inr (n, s)))) s) s"

definition sys_setpriority :: "nat \<Rightarrow> u32 list \<Rightarrow> nat \<Rightarrow> 'a kern_scheme \<Rightarrow> (int \<times> 'a kern_scheme) kres" where
  "sys_setpriority c pcs p s =
     orfail (argint p 0 s) (\<lambda>pid.
     orfail (argint p 1 s) (\<lambda>priority.
       if priority > 2 \<or> priority < 0 \<or> pid < 0 then Inr (-1, s)
       else on_sysr (setPriority c pcs pid priority) s) s) s"

subsection \<open>Definitions: dispatch\<close>

record machine =
  mc_ln :: linker
  mc_junk :: "u8 list"
  mc_cmos :: cmos

definition ret :: "(int \<times> 's) kres \<Rightarrow> (int option \<times> 's) kres" where
  "ret m = bindR m (\<lambda>(r, s). Inr (Some r, s))"

text \<open>The table \<open>syscalls\<close>, with the numbers of \<open>syscall.h\<close>.\<close>

definition syscalls :: "machine \<Rightarrow> nat \<Rightarrow> u32 list \<Rightarrow> nat \<Rightarrow> int \<Rightarrow> ('a kern_scheme \<Rightarrow> (int option \<times> 'a kern_scheme) kres) option" where
  "syscalls m c pcs p num = map_of
     [(1, \<lambda>s. ret (fork (mc_ln m) c pcs p s)),
      (2, \<lambda>s. bindR (exit c pcs p s) (\<lambda>s. Inr (None, s))),
      (3, wait c pcs p),
      (4, \<lambda>s. ret (sys_pipe p s)),
      (5, \<lambda>s. ret (sys_read p s)),
      (6, \<lambda>s. ret (sys_kill c pcs p s)),
      (7, \<lambda>s. ret (sys_exec (ln_data (mc_ln m)) (mc_junk m) c p s)),
      (8, \<lambda>s. ret (sys_fstat p s)),
      (9, \<lambda>s. ret (sys_chdir p s)),
      (10, \<lambda>s. ret (sys_dup p s)),
      (11, \<lambda>s. ret (sys_getpid p s)),
      (12, \<lambda>s. ret (sys_sbrk c p s)),
      (13, \<lambda>s. ret (sys_sleep p s)),
      (14, \<lambda>s. ret (sys_uptime s)),
      (15, \<lambda>s. ret (sys_open p s)),
      (16, \<lambda>s. ret (sys_write p s)),
      (17, \<lambda>s. ret (sys_mknod p s)),
      (18, \<lambda>s. ret (sys_unlink p s)),
      (19, \<lambda>s. ret (sys_link p s)),
      (20, \<lambda>s. ret (sys_mkdir p s)),
      (21, \<lambda>s. ret (sys_close p s)),
      (22, \<lambda>s. ret (sys_date (mc_cmos m) p s)),
      (23, \<lambda>s. ret (sys_getuid p s)),
      (24, \<lambda>s. ret (sys_getgid p s)),
      (25, \<lambda>s. ret (sys_getppid p s)),
      (26, \<lambda>s. ret (sys_setuid p s)),
      (27, \<lambda>s. ret (sys_setgid p s)),
      (28, \<lambda>s. ret (sys_getprocs c pcs p s)),
      (29, \<lambda>s. ret (sys_setpriority c pcs p s))] num"

definition set_eax :: "nat \<Rightarrow> int \<Rightarrow> 'a kern_scheme \<Rightarrow> 'a kern_scheme" where
  "set_eax p v = upd_proc p (\<lambda>r. r\<lparr>p_tf := (p_tf r)\<lparr>tf_eax := of_int v\<rparr>\<rparr>)"

definition name_of :: "nat \<Rightarrow> 'a kern_scheme \<Rightarrow> u8 list" where
  "name_of p s = takeWhile (\<lambda>b. b \<noteq> 0) (p_name (procr p s))"

text \<open>The result says whether the process is still running.\<close>

definition syscall :: "machine \<Rightarrow> nat \<Rightarrow> u32 list \<Rightarrow> nat \<Rightarrow> 'a kern_scheme \<Rightarrow> (bool \<times> 'a kern_scheme) kres" where
  "syscall m c pcs p s =
     (let num = sint (tf_eax (p_tf (procr p s))) in
      case syscalls m c pcs p num of
        Some f \<Rightarrow>
          bindR (f s) (\<lambda>(r, s).
            case r of Some v \<Rightarrow> Inr (True, set_eax p v s) | None \<Rightarrow> Inr (False, s))
      | None \<Rightarrow>
          bindR (cprintf (\<lambda>_. name_of p s) (bytes_of ''%d %s: unknown sys call %d'' @ [10])
                   [of_int (p_pid (procr p s)), 1, of_int num] s) (\<lambda>s.
          Inr (True, set_eax p (-1) s)))"

subsection \<open>Definitions: traps\<close>

definition T_SYSCALL :: u32 where "T_SYSCALL = 64"
definition T_IRQ0 :: u32 where "T_IRQ0 = 32"

definition from_user :: "trapframe \<Rightarrow> bool" where
  "from_user tf \<longleftrightarrow> tf_cs tf AND 3 = 3"

definition is_killed :: "ptr \<Rightarrow> 'a kern_scheme \<Rightarrow> bool" where
  "is_killed q s \<longleftrightarrow> (case q of None \<Rightarrow> False | Some p \<Rightarrow> p_killed (procr p s))"

text \<open>\<open>if(proc && proc->killed && (tf->cs&3) == DPL_USER) exit();\<close> The result says whether the
  process goes on.\<close>

definition kill_check :: "nat \<Rightarrow> u32 list \<Rightarrow> trapframe \<Rightarrow> bool \<times> 'a kern_scheme \<Rightarrow> (bool \<times> 'a kern_scheme) kres" where
  "kill_check c pcs tf r =
     (case r of (goes, s) \<Rightarrow>
        if goes \<and> is_killed (curproc c (pt (ksys s))) s \<and> from_user tf
        then bindR (cur c s) (\<lambda>p. bindR (exit c pcs p s) (\<lambda>s. Inr (False, s)))
        else Inr (goes, s))"

definition trap_syscall :: "machine \<Rightarrow> nat \<Rightarrow> u32 list \<Rightarrow> trapframe \<Rightarrow> 'a kern_scheme \<Rightarrow> (bool \<times> 'a kern_scheme) kres" where
  "trap_syscall m c pcs tf s =
     bindR (cur c s) (\<lambda>p.
       if p_killed (procr p s) then bindR (exit c pcs p s) (\<lambda>s. Inr (False, s))
       else
         bindR (syscall m c pcs p (upd_proc p (\<lambda>r. r\<lparr>p_tf := tf\<rparr>) s)) (\<lambda>(goes, s).
         bindR (deliver c pcs s) (\<lambda>s.
           if goes \<and> p_killed (procr p s) then bindR (exit c pcs p s) (\<lambda>s. Inr (False, s))
           else Inr (goes, s))))"

definition timer_tick :: "nat \<Rightarrow> u32 list \<Rightarrow> 'a kern_scheme \<Rightarrow> 'a kern_scheme kres" where
  "timer_tick c pcs s =
     (if c = 0 then on_sys (wakeup c pcs ChTicks) (s\<lparr>ticks := ticks s + 1\<rparr>) else Inr s)"

record devices =
  dv_kbd :: "nat list"
  dv_uart :: "u8 list"
  dv_cr2 :: u32

text \<open>The messages of the default case, and what it does: panic in the kernel, else mark the
  process.\<close>

definition trap_unexpected :: "devices \<Rightarrow> nat \<Rightarrow> trapframe \<Rightarrow> 'a kern_scheme \<Rightarrow> 'a kern_scheme kres" where
  "trap_unexpected dv c tf s =
     (case curproc c (pt (ksys s)) of
        None \<Rightarrow> Inl (Panic ''trap'')
      | Some p \<Rightarrow>
          if tf_cs tf AND 3 = 0 then Inl (Panic ''trap'')
          else
            bindR (cprintf (\<lambda>_. name_of p s)
                     (bytes_of ''pid %d %s: trap %d err %d on cpu %d eip 0x%x addr 0x%x--kill proc'' @ [10])
                     [of_int (p_pid (procr p s)), 1, tf_trapno tf, tf_err tf, of_nat c, tf_eip tf, dv_cr2 dv] s) (\<lambda>s.
            Inr (upd_proc p (\<lambda>r. r\<lparr>p_killed := True\<rparr>) s)))"

text \<open>The switch on the trap number; \<open>procdump\<close>, which control-P asks for, prints only.\<close>

definition trap_dispatch :: "devices \<Rightarrow> nat \<Rightarrow> u32 list \<Rightarrow> trapframe \<Rightarrow> 'a kern_scheme \<Rightarrow> 'a kern_scheme kres" where
  "trap_dispatch dv c pcs tf s =
     (let n = tf_trapno tf in
      if n = T_IRQ0 then timer_tick c pcs s
      else if n = T_IRQ0 + 14 then Inr s
      else if n = T_IRQ0 + 15 then Inr s
      else if n = T_IRQ0 + 1 then
        bindR (kbdintr (dv_kbd dv) (kbd_shift s) s) (\<lambda>((_, s), shift). Inr (s\<lparr>kbd_shift := shift\<rparr>))
      else if n = T_IRQ0 + 4 then bindR (uartintr (dv_uart dv) s) (\<lambda>(_, s). Inr s)
      else if n = T_IRQ0 + 7 \<or> n = T_IRQ0 + 31 then
        cprintf (\<lambda>_. []) (bytes_of ''cpu%d: spurious interrupt at %x:%x'' @ [10])
          [of_nat c, ucast (tf_cs tf), tf_eip tf] s
      else trap_unexpected dv c tf s)"

text \<open>\<open>trap\<close> up to and including \<open>yield\<close>, and what is left after the process runs again.\<close>

definition trap :: "machine \<Rightarrow> devices \<Rightarrow> nat \<Rightarrow> u32 list \<Rightarrow> trapframe \<Rightarrow> 'a kern_scheme \<Rightarrow> (bool \<times> 'a kern_scheme) kres" where
  "trap m dv c pcs tf s =
     (if tf_trapno tf = T_SYSCALL then trap_syscall m c pcs tf s
      else
        bindR (trap_dispatch dv c pcs tf s) (\<lambda>s.
        bindR (deliver c pcs s) (\<lambda>s.
        bindR (kill_check c pcs tf (True, s)) (\<lambda>(goes, s).
          case curproc c (pt (ksys s)) of
            None \<Rightarrow> Inr (goes, s)
          | Some p \<Rightarrow>
              if goes \<and> p_state (procr p s) = RUNNING \<and> tf_trapno tf = T_IRQ0
              then bindR (on_sys (yield c pcs) s) (\<lambda>s. Inr (False, s))
              else kill_check c pcs tf (goes, s)))))"

definition trap_resume :: "nat \<Rightarrow> u32 list \<Rightarrow> trapframe \<Rightarrow> 'a kern_scheme \<Rightarrow> (bool \<times> 'a kern_scheme) kres" where
  "trap_resume c pcs tf s = kill_check c pcs tf (True, s)"

end
