(* ===== verification/Fs_Spec.thy ===== *)
theory Fs_Spec
  imports Fs
begin

section \<open>What the file system guarantees\<close>

text \<open>
  The contract of the layers below, as the file system uses it: inside a transaction with room
  for a number of blocks, a block can be read, changed, logged and given back, and only its
  contents as later readers see them (\<open>view\<close>) change. The locale \<open>logged_store\<close> states it;
  its interpretation on \<open>bread\<close>, \<open>log_write\<close> and \<open>brelse\<close> discharges it.

  On top of it: the bitmap (\<open>balloc\<close> takes a free block and only that one), inodes on disk
  (\<open>iupdate\<close> stores the inode and leaves the others alone), the inode cache (one entry per
  inode), file contents (\<open>readi\<close> returns the bytes of the file), and path names.
\<close>

subsection \<open>Definitions: transactions\<close>

definition tx :: "nat \<Rightarrow> nat \<Rightarrow> 'a log_st_scheme \<Rightarrow> bool" where
  "tx len n s \<longleftrightarrow> (\<exists>bs. trans_ok len bs s \<and> length bs + n < len \<and> length bs + n < NBUF) \<and>
     lg_size s = int len \<and> 1 \<le> lg_outstanding s"

definition usable :: "nat \<Rightarrow> 'a log_st_scheme \<Rightarrow> nat \<Rightarrow> bool" where
  "usable len s b \<longleftrightarrow> b < disksize s \<and> (b < lg_start s \<or> lg_start s + len \<le> b)"

text \<open>Reading, changing and giving back blocks, abstractly: \<open>room n\<close> is a state with room for
  \<open>n\<close> changed blocks, \<open>home\<close> the blocks that may be used, \<open>data\<close> their contents and
  \<open>rest\<close> the part of the state that block operations leave alone.\<close>

locale logged_store =
  fixes room :: "nat \<Rightarrow> 's \<Rightarrow> bool"
    and home :: "'s \<Rightarrow> nat \<Rightarrow> bool"
    and data :: "'s \<Rightarrow> nat \<Rightarrow> u8 list"
    and rest :: "'s \<Rightarrow> 'r"
    and acq :: "nat \<Rightarrow> 's \<Rightarrow> (nat \<times> 's) kres"
    and peek :: "nat \<Rightarrow> 's \<Rightarrow> u8 list"
    and put :: "nat \<Rightarrow> u8 list \<Rightarrow> 's \<Rightarrow> 's kres"
    and rel :: "nat \<Rightarrow> 's \<Rightarrow> 's kres"
  assumes room_mono: "room (Suc n) s \<Longrightarrow> room n s"
    and data_length: "room n s \<Longrightarrow> home s b \<Longrightarrow> length (data s b) = BSIZE"
    and read: "room n s \<Longrightarrow> home s b \<Longrightarrow> \<exists>i s1 s'. acq b s = Inr (i, s1) \<and> peek i s1 = data s b \<and> rest s1 = rest s \<and>
      rel i s1 = Inr s' \<and> room n s' \<and> data s' = data s \<and> home s' = home s \<and> rest s' = rest s"
    and change: "room (Suc n) s \<Longrightarrow> home s b \<Longrightarrow> length d = BSIZE \<Longrightarrow> acq b s = Inr (i, s1) \<Longrightarrow>
      \<exists>s2 s'. put i d s1 = Inr s2 \<and> rel i s2 = Inr s' \<and> room n s' \<and> data s' = (data s)(b := d) \<and>
      home s' = home s \<and> rest s' = rest s"
begin

text \<open>A block that is read, changed by a function and logged.\<close>

lemma modify:
  assumes "room (Suc n) s" and "home s b" and "length (f (data s b)) = BSIZE"
  shows "\<exists>s'. bindR (acq b s) (\<lambda>(i, s). bindR (put i (f (peek i s)) s) (rel i)) = Inr s' \<and> room n s' \<and>
    data s' = (data s)(b := f (data s b)) \<and> home s' = home s \<and> rest s' = rest s"
proof -
  obtain i s1 where s1: "acq b s = Inr (i, s1)" "peek i s1 = data s b" using read [OF assms(1,2)] by blast
  then show ?thesis using change [OF assms(1,2,3) s1(1)] by auto
qed

text \<open>A block that is only read.\<close>

lemma look:
  assumes "room n s" and "home s b"
  shows "\<exists>i s1 s'. acq b s = Inr (i, s1) \<and> peek i s1 = data s b \<and> rest s1 = rest s \<and> rel i s1 = Inr s' \<and> room n s' \<and>
    data s' = data s \<and> home s' = home s \<and> rest s' = rest s"
  by (rule read [OF assms])

end

subsection \<open>Definitions: the bitmap on disk\<close>

text \<open>A block is free when its bit is clear; the blocks of the bitmap; and a bitmap that is in
  place: its blocks may be used, and so may every free block, which is none of them.\<close>

definition blk_free :: "'a fs_st_scheme \<Rightarrow> nat \<Rightarrow> bool" where
  "blk_free s b \<longleftrightarrow> \<not> bm_get (view s (BBLOCK b (fs_sb s))) (b mod BPB)"

definition bitmap_blocks :: "'a fs_st_scheme \<Rightarrow> nat set" where
  "bitmap_blocks s = (\<lambda>b. BBLOCK b (fs_sb s)) ` {0..< sb_size (fs_sb s)}"

definition bitmap_ok :: "nat \<Rightarrow> 'a fs_st_scheme \<Rightarrow> bool" where
  "bitmap_ok len s \<longleftrightarrow> (\<forall>b < sb_size (fs_sb s). usable len s (BBLOCK b (fs_sb s))) \<and>
     (\<forall>b < sb_size (fs_sb s). blk_free s b \<longrightarrow> usable len s b \<and> b \<notin> bitmap_blocks s)"

text \<open>The effect of taking block \<open>b\<close>.\<close>

definition took :: "nat \<Rightarrow> nat \<Rightarrow> 'a fs_st_scheme \<Rightarrow> nat \<Rightarrow> 'a fs_st_scheme \<Rightarrow> bool" where
  "took len n s b s' \<longleftrightarrow> tx len n s' \<and> usable len s' = usable len s \<and> log_st.more s' = log_st.more s \<and>
     view s' = (view s)(BBLOCK b (fs_sb s) := bm_set (b mod BPB) (view s (BBLOCK b (fs_sb s))), b := replicate BSIZE 0)"

subsection \<open>Definitions: inodes on disk\<close>

text \<open>The inode with number \<open>inum\<close> as later readers see it on disk; the values its fields can
  hold there.\<close>

definition disk_inode :: "'a fs_st_scheme \<Rightarrow> nat \<Rightarrow> dinode" where
  "disk_inode s inum = dinode_at (view s (IBLOCK inum (fs_sb s))) (64 * (inum mod IPB))"

definition short :: "int \<Rightarrow> bool" where
  "short v \<longleftrightarrow> - (2 ^ 15) \<le> v \<and> v < 2 ^ 15"

definition dinode_ok :: "dinode \<Rightarrow> bool" where
  "dinode_ok x \<longleftrightarrow> short (di_type x) \<and> short (di_major x) \<and> short (di_minor x) \<and> short (di_nlink x) \<and> di_size x < 2 ^ 32 \<and>
     (\<forall>i\<le>NDIRECT. di_addrs x i < 2 ^ 32) \<and> (\<forall>i>NDIRECT. di_addrs x i = 0)"

subsection \<open>Definitions: file contents\<close>

text \<open>The address of block \<open>bn\<close> of a file, direct or through the indirect block; the bytes of
  the file; and a file all of whose blocks are in place.\<close>

definition blk_addr :: "'a fs_st_scheme \<Rightarrow> nat \<Rightarrow> nat \<Rightarrow> nat" where
  "blk_addr s ip bn =
     (if bn < NDIRECT then addr_of ip bn s else get32 (view s (addr_of ip NDIRECT s)) (4 * (bn - NDIRECT)))"

definition file_byte :: "'a fs_st_scheme \<Rightarrow> nat \<Rightarrow> nat \<Rightarrow> u8" where
  "file_byte s ip k = view s (blk_addr s ip (k div BSIZE)) ! (k mod BSIZE)"

definition file_bytes :: "'a fs_st_scheme \<Rightarrow> nat \<Rightarrow> u8 list" where
  "file_bytes s ip = map (file_byte s ip) [0..<di_size (i_d (inodes s ip))]"

definition file_ok :: "nat \<Rightarrow> 'a fs_st_scheme \<Rightarrow> nat \<Rightarrow> bool" where
  "file_ok len s ip \<longleftrightarrow> i_dev (inodes s ip) = 1 \<and> di_type (i_d (inodes s ip)) \<noteq> T_DEV \<and>
     di_size (i_d (inodes s ip)) \<le> MAXFILE * BSIZE \<and>
     (\<forall>bn. bn * BSIZE < di_size (i_d (inodes s ip)) \<longrightarrow> blk_addr s ip bn \<noteq> 0 \<and> usable len s (blk_addr s ip bn) \<and>
        (NDIRECT \<le> bn \<longrightarrow> addr_of ip NDIRECT s \<noteq> 0 \<and> usable len s (addr_of ip NDIRECT s)))"

text \<open>No block of the file is used twice.\<close>

definition file_sep :: "'a fs_st_scheme \<Rightarrow> nat \<Rightarrow> bool" where
  "file_sep s ip \<longleftrightarrow>
     (\<forall>bn bn'. bn * BSIZE < di_size (i_d (inodes s ip)) \<longrightarrow> bn' * BSIZE < di_size (i_d (inodes s ip)) \<longrightarrow>
        blk_addr s ip bn = blk_addr s ip bn' \<longrightarrow> bn = bn') \<and>
     (\<forall>bn. bn * BSIZE < di_size (i_d (inodes s ip)) \<longrightarrow> blk_addr s ip bn \<noteq> addr_of ip NDIRECT s)"

text \<open>A state that differs only in which blocks are cached.\<close>

definition same_fs :: "nat \<Rightarrow> nat \<Rightarrow> 'a fs_st_scheme \<Rightarrow> 'a fs_st_scheme \<Rightarrow> bool" where
  "same_fs len n s s' \<longleftrightarrow> tx len n s' \<and> view s' = view s \<and> usable len s' = usable len s \<and> log_st.more s' = log_st.more s"

text \<open>The effect of writing \<open>src\<close> at offset \<open>off\<close> inside a file, and the number of blocks it
  touches.\<close>

definition wrote :: "nat \<Rightarrow> 'a fs_st_scheme \<Rightarrow> nat \<Rightarrow> nat \<Rightarrow> u8 list \<Rightarrow> 'a fs_st_scheme \<Rightarrow> bool" where
  "wrote len s ip off src s' \<longleftrightarrow> usable len s' = usable len s \<and> log_st.more s' = log_st.more s \<and>
     blk_addr s' ip = blk_addr s ip \<and>
     (\<forall>k<di_size (i_d (inodes s ip)). file_byte s' ip k =
        (if off \<le> k \<and> k < off + length src then src ! (k - off) else file_byte s ip k)) \<and>
     (\<forall>b. (\<forall>bn. bn * BSIZE < di_size (i_d (inodes s ip)) \<longrightarrow> b \<noteq> blk_addr s ip bn) \<longrightarrow> view s' b = view s b)"

definition rounds :: "nat \<Rightarrow> nat \<Rightarrow> nat" where
  "rounds off l = (if l = 0 then 0 else Suc ((off mod BSIZE + l - 1) div BSIZE))"

subsection \<open>Lemmas: transactions\<close>

lemma txD:
  assumes "tx len n s"
  obtains bs where "trans_ok len bs s" and "length bs + n < len" and "length bs + n < NBUF" and "lg_size s = int len"
    and "1 \<le> lg_outstanding s"
  using assms unfolding tx_def by blast

lemma tx_read:
  assumes "tx len n s" and "usable len s b"
  shows "\<exists>i s1 s'. bread 1 b s = Inr (i, s1) \<and> b_data (bufs s1 i) = view s b \<and> log_st.more s1 = log_st.more s \<and>
    brelse i s1 = Inr s' \<and> tx len n s' \<and> view s' = view s \<and> usable len s' = usable len s \<and> log_st.more s' = log_st.more s"
proof -
  obtain bs where bs: "trans_ok len bs s" "length bs + n < len" "length bs + n < NBUF" "lg_size s = int len" "1 \<le> lg_outstanding s"
    by (rule txD [OF assms(1)])
  note t = trans_okD [OF bs(1)]
  note lf = layout_facts [OF t(3)]
  obtain i s1 where s1: "bread 1 b s = Inr (i, s1)" "got s b i s1" "held s1 = {b}" "dirty s1 = dirty s"
      "b_dirty (bufs s1 i) \<or> b_data (bufs s1 i) = memdisk s1 b"
    using read_one [OF t(1), of b] lf(3) t(6) assms(2) by (auto simp: usable_def)
  note g = gotD [OF s1(2)] and gr = got_rest [OF s1(2)] and gf = log_fields [OF got_rest(4) [OF s1(2)]]
  obtain s' where s': "brelse i s1 = Inr s'" "eff s1 s' (view s1) (memdisk s1) (dirty s1) (history s1)"
    using release_one [OF g(1,3,5,7) s1(3,5)] by blast
  note e = s'(2) [unfolded eff_def]
  have lg: "lg_start s' = lg_start s" "lg_dev s' = lg_dev s" "lh_n s' = lh_n s" "lh_block s' = lh_block s"
    "lg_size s' = lg_size s" "lg_outstanding s' = lg_outstanding s" "log_st.more s' = log_st.more s"
    using log_fields [of s' s1] gf e by simp_all
  have disk: "disksize s' = disksize s" using e gr by simp
  have "trans_ok len bs s'" using bs(1) e lg disk s1(4) unfolding trans_ok_def by simp
  then have "tx len n s'" using bs lg unfolding tx_def by auto
  moreover have "usable len s' = usable len s" using lg disk by (simp add: usable_def fun_eq_iff)
  moreover have "view s' = view s" using e g(9) by simp
  ultimately show ?thesis using s1(1) g(8) gf(8) s'(1) lg(7) by blast
qed

lemma tx_change:
  assumes "tx len (Suc n) s" and "usable len s b" and "length d = BSIZE" and "bread 1 b s = Inr (i, s1)"
  shows "\<exists>s2 s'. log_write i (set_data i d s1) = Inr s2 \<and> brelse i s2 = Inr s' \<and> tx len n s' \<and> view s' = (view s)(b := d) \<and>
    usable len s' = usable len s \<and> log_st.more s' = log_st.more s"
proof -
  obtain bs where bs: "trans_ok len bs s" "length bs + Suc n < len" "length bs + Suc n < NBUF" "lg_size s = int len" "1 \<le> lg_outstanding s"
    by (rule txD [OF assms(1)])
  have room: "length bs + 1 < len" "length bs + 1 < NBUF" using bs(2,3) by simp_all
  have u: "b < disksize s" "b < lg_start s \<or> lg_start s + len \<le> b" using assms(2) by (simp_all add: usable_def)
  obtain s2 s' where r: "log_write i (set_data i d s1) = Inr s2" "brelse i s2 = Inr s'" "trans_ok len (absorb b bs) s'"
      "view s' = (view s)(b := d)" "lg_start s' = lg_start s" "lg_size s' = lg_size s" "lg_outstanding s' = lg_outstanding s"
      "disksize s' = disksize s" "log_st.more s' = log_st.more s"
    using log_write_ok [OF bs(1) u assms(3) room bs(4,5)] assms(4) by auto
  have "length (absorb b bs) \<le> Suc (length bs)" by (simp add: absorb_def)
  then have "tx len n s'" unfolding tx_def using r(3,6,7) bs by (intro conjI exI [of _ "absorb b bs"]) simp_all
  moreover have "usable len s' = usable len s" using r(5,8) by (simp add: usable_def fun_eq_iff)
  ultimately show ?thesis using r by blast
qed

lemma tx_mono: "tx len (Suc n) s \<Longrightarrow> tx len n s"
  unfolding tx_def by (metis Suc_lessD add_Suc_right)

lemma tx_length: "tx len n s \<Longrightarrow> usable len s b \<Longrightarrow> length (view s b) = BSIZE"
  by (erule txD) (simp add: length_view trans_okD(1) quietD usable_def)

interpretation logdisk: logged_store "tx len" "usable len" view log_st.more "bread 1" "\<lambda>i s. b_data (bufs s i)"
  "\<lambda>i d s. log_write i (set_data i d s)" brelse
  for len
  by unfold_locales (use tx_mono tx_length tx_read tx_change in \<open>blast+\<close>)

lemma fs_fields:
  assumes "log_st.more s' = log_st.more s"
  shows "fs_sb s' = fs_sb s" and "inodes s' = inodes s" and "fs_st.more s' = fs_st.more s"
  using assms by (cases s; cases s'; simp)+

subsection \<open>Lemmas: the bitmap\<close>

lemma bm_get_bit: "bm_get d bi \<longleftrightarrow> bit (d ! (bi div 8)) (bi mod 8)"
proof -
  have "bit (d ! (bi div 8) AND push_bit (bi mod 8) 1) j \<longleftrightarrow> j = bi mod 8 \<and> bit (d ! (bi div 8)) j" for j
    by (auto simp: bit_simps)
  then show ?thesis unfolding bm_get_def by (metis bit_0_eq bot_apply bit_word_eqI bot_bool_def)
qed

lemma bm_get_set:
  assumes "bi div 8 < length d"
  shows "bm_get (bm_set bi d) bj \<longleftrightarrow> bm_get d bj \<or> bj = bi"
proof (cases "bj div 8 = bi div 8")
  case True
  then have "bj = bi \<longleftrightarrow> bj mod 8 = bi mod 8" by (metis div_mult_mod_eq)
  then show ?thesis using assms True by (auto simp: bm_get_bit bm_set_def bit_simps)
next
  case False
  then show ?thesis by (auto simp: bm_get_bit bm_set_def)
qed

lemma bm_get_clear:
  assumes "bi div 8 < length d"
  shows "bm_get (bm_clear bi d) bj \<longleftrightarrow> bm_get d bj \<and> bj \<noteq> bi"
proof (cases "bj div 8 = bi div 8")
  case True
  then have "bj = bi \<longleftrightarrow> bj mod 8 = bi mod 8" by (metis div_mult_mod_eq)
  then show ?thesis using assms True by (auto simp: bm_get_bit bm_clear_def bit_simps)
next
  case False
  then show ?thesis by (auto simp: bm_get_bit bm_clear_def)
qed

lemma length_bm [simp]: "length (bm_set bi d) = length d" "length (bm_clear bi d) = length d"
  by (simp_all add: bm_set_def bm_clear_def)

lemma bzero_ok:
  assumes "tx len (Suc n) s" and "usable len s b"
  shows "\<exists>s'. bzero 1 b s = Inr s' \<and> tx len n s' \<and> view s' = (view s)(b := replicate BSIZE 0) \<and>
    usable len s' = usable len s \<and> log_st.more s' = log_st.more s"
  using logdisk.modify [OF assms, of "\<lambda>_. replicate BSIZE 0"] unfolding bzero_def by simp

lemma bblock_of:
  assumes "BPB dvd a" and "bi < BPB"
  shows "BBLOCK (a + bi) sb = BBLOCK a sb" and "(a + bi) mod BPB = bi"
  using assms by (auto simp: BBLOCK_def elim!: dvdE)

lemma balloc_take:
  assumes tr: "tx len (Suc (Suc n)) s" and bm: "usable len s (BBLOCK b (fs_sb s))" and b: "usable len s b"
    and rd: "bread 1 (BBLOCK b (fs_sb s)) s = Inr (i, s1)"
  shows "\<exists>s2 s3 s'. log_write i (set_data i (bm_set (b mod BPB) (view s (BBLOCK b (fs_sb s)))) s1) = Inr s2 \<and>
    brelse i s2 = Inr s3 \<and> bzero 1 b s3 = Inr s' \<and> took len n s b s'"
proof -
  let ?d = "bm_set (b mod BPB) (view s (BBLOCK b (fs_sb s)))"
  have len: "length ?d = BSIZE" using logdisk.data_length [OF tr bm] by simp
  obtain s2 s3 where s3: "log_write i (set_data i ?d s1) = Inr s2" "brelse i s2 = Inr s3" "tx len (Suc n) s3"
      "view s3 = (view s)(BBLOCK b (fs_sb s) := ?d)" "usable len s3 = usable len s" "log_st.more s3 = log_st.more s"
    using logdisk.change [OF tr bm len rd] by blast
  obtain s' where "bzero 1 b s3 = Inr s'" "tx len n s'" "view s' = (view s3)(b := replicate BSIZE 0)"
      "usable len s' = usable len s3" "log_st.more s' = log_st.more s3"
    using bzero_ok [OF s3(3), of b] s3(5) b by auto
  then show ?thesis using s3 by (auto simp: took_def)
qed

lemma balloc_loop_ok:
  assumes "tx len (Suc (Suc n)) s" and "bitmap_ok len s" and "\<And>a. a \<in> set as \<Longrightarrow> BPB dvd a \<and> a < sb_size (fs_sb s)"
  shows "if \<exists>a\<in>set as. \<exists>b < sb_size (fs_sb s). a \<le> b \<and> b < a + BPB \<and> blk_free s b
    then \<exists>b s'. balloc_loop 1 as s = Inr (b, s') \<and> b < sb_size (fs_sb s) \<and> blk_free s b \<and> took len n s b s'
    else balloc_loop 1 as s = Inl (Panic ''balloc: out of blocks'')"
  using assms
proof (induction as arbitrary: s)
  case Nil
  then show ?case by simp
next
  case (Cons a as)
  let ?sb = "fs_sb s"
  have a: "BPB dvd a" "a < sb_size ?sb" using Cons.prems(3) by auto
  have u: "usable len s (BBLOCK a ?sb)" using Cons.prems(2) a(2) by (simp add: bitmap_ok_def)
  obtain i s1 s' where r: "bread 1 (BBLOCK a ?sb) s = Inr (i, s1)" "b_data (bufs s1 i) = view s (BBLOCK a ?sb)"
      "log_st.more s1 = log_st.more s" "brelse i s1 = Inr s'" "tx len (Suc (Suc n)) s'" "view s' = view s"
      "usable len s' = usable len s" "log_st.more s' = log_st.more s"
    using logdisk.look [OF Cons.prems(1) u] by blast
  let ?P = "\<lambda>bi. \<not> bm_get (view s (BBLOCK a ?sb)) bi"
  have free: "blk_free s (a + bi) \<longleftrightarrow> ?P bi" if "bi < BPB" for bi
    using bblock_of [OF a(1) that] by (simp add: blk_free_def)
  show ?case
  proof (cases "List.find ?P [0..<min BPB (sb_size ?sb - a)]")
    case (Some bi)
    then have bi: "bi < BPB" "a + bi < sb_size ?sb" "?P bi" using find_SomeD [OF Some] by auto
    then have fr: "blk_free s (a + bi)" using free by simp
    note bb = bblock_of [OF a(1) bi(1)]
    have "usable len s (a + bi)" using Cons.prems(2) bi(2) fr by (simp add: bitmap_ok_def)
    then obtain s2 s3 s4 where s4: "log_write i (set_data i (bm_set bi (view s (BBLOCK a ?sb))) s1) = Inr s2" "brelse i s2 = Inr s3"
        "bzero 1 (a + bi) s3 = Inr s4" "took len n s (a + bi) s4"
      using balloc_take [OF Cons.prems(1), of "a + bi" i s1] u r(1) bb by auto
    have "balloc_loop 1 (a # as) s = Inr (a + bi, s4)" using r(1,2) Some s4 fs_fields(1) [OF r(3)] by simp
    moreover have "\<exists>a'\<in>set (a # as). \<exists>b < sb_size ?sb. a' \<le> b \<and> b < a' + BPB \<and> blk_free s b"
      using bi fr by (intro bexI [of _ a] exI [of _ "a + bi"]) simp_all
    ultimately show ?thesis using bi(2) fr s4(4) by simp
  next
    case None
    have eq: "fs_sb s' = ?sb" using fs_fields(1) [OF r(8)] .
    have bs: "blk_free s' = blk_free s" "bitmap_blocks s' = bitmap_blocks s" using r(6) eq by (simp_all add: blk_free_def fun_eq_iff bitmap_blocks_def)
    have run: "balloc_loop 1 (a # as) s = balloc_loop 1 as s'" using r(1,2,4) None fs_fields(1) [OF r(3)] by simp
    have none: "\<not> blk_free s b" if "b < sb_size ?sb" "a \<le> b" "b < a + BPB" for b
    proof -
      have "b - a < BPB" "b - a < sb_size ?sb - a" using that a(2) by auto
      then show ?thesis using None free [of "b - a"] that by (auto simp: find_None_iff)
    qed
    have "bitmap_ok len s'" using Cons.prems(2) bs eq r(7) by (simp add: bitmap_ok_def)
    then have "if \<exists>a\<in>set as. \<exists>b < sb_size (fs_sb s'). a \<le> b \<and> b < a + BPB \<and> blk_free s' b
      then \<exists>b t. balloc_loop 1 as s' = Inr (b, t) \<and> b < sb_size (fs_sb s') \<and> blk_free s' b \<and> took len n s' b t
      else balloc_loop 1 as s' = Inl (Panic ''balloc: out of blocks'')"
      using Cons.IH [OF r(5)] Cons.prems(3) eq by simp
    moreover have "took len n s' b t = took len n s b t" for b t using r(6,7,8) eq by (simp add: took_def)
    ultimately show ?thesis using run none eq bs(1) by (auto split: if_splits)
  qed
qed

lemma bblock_eq: "BBLOCK b sb = BBLOCK b' sb \<and> b mod BPB = b' mod BPB \<longleftrightarrow> b = b'"
  by (auto simp: BBLOCK_def) (metis div_mult_mod_eq)

lemma took_free:
  assumes took: "took len n s b s'" and bm: "bitmap_ok len s" and b: "b < sb_size (fs_sb s)" "blk_free s b" and tr: "tx len m s"
  shows "b' < sb_size (fs_sb s) \<Longrightarrow> blk_free s' b' \<longleftrightarrow> blk_free s b' \<and> b' \<noteq> b" and "bitmap_ok len s'"
    and "fs_sb s' = fs_sb s" and "inodes s' = inodes s"
proof -
  let ?sb = "fs_sb s" let ?B = "BBLOCK b ?sb"
  note f = fs_fields [of s' s]
  show sb: "fs_sb s' = fs_sb s" "inodes s' = inodes s" using f took by (simp_all add: took_def)
  have nb: "b \<notin> bitmap_blocks s" using bm b by (simp add: bitmap_ok_def)
  have u: "usable len s ?B" using bm b by (simp add: bitmap_ok_def)
  have len: "length (view s ?B) = BSIZE" by (rule tx_length [OF tr u])
  have free: "blk_free s' b' \<longleftrightarrow> blk_free s b' \<and> b' \<noteq> b" if b': "b' < sb_size ?sb" for b'
  proof -
    have ne: "BBLOCK b' ?sb \<noteq> b" using nb b' by (auto simp: bitmap_blocks_def)
    show ?thesis
    proof (cases "BBLOCK b' ?sb = ?B")
      case True
      have "b mod BPB div 8 < length (view s ?B)" using len by (simp add: BPB_def BSIZE_def)
      then show ?thesis using took ne True sb bblock_eq [of b' ?sb b] by (auto simp: blk_free_def took_def bm_get_set)
    next
      case False
      then show ?thesis using took ne sb by (auto simp: blk_free_def took_def)
    qed
  qed
  then show "b' < sb_size ?sb \<Longrightarrow> blk_free s' b' \<longleftrightarrow> blk_free s b' \<and> b' \<noteq> b" .
  have "bitmap_blocks s' = bitmap_blocks s" using sb by (simp add: bitmap_blocks_def)
  then show "bitmap_ok len s'" using bm free took sb unfolding bitmap_ok_def took_def by simp
qed

lemma covering:
  assumes "b < n" and "0 < (k :: nat)"
  shows "b div k < (n + k - 1) div k"
proof -
  have e: "n + k - 1 = (n - 1) + k" using assms by simp
  have "(n + k - 1) div k = Suc ((n - 1) div k)" unfolding e using div_add_self2 [of k "n - 1"] assms(2) by (simp only: Suc_eq_plus1)
  moreover have "b div k \<le> (n - 1) div k" using assms(1) by (intro div_le_mono) simp
  ultimately show ?thesis by simp
qed

lemma covering_conv:
  assumes "k < (n + m - 1) div m" and "0 < (m :: nat)"
  shows "k * m < n"
proof -
  have "Suc k * m \<le> (n + m - 1) div m * m" using assms(1) by (intro mult_le_mono1) simp
  also have "\<dots> \<le> n + m - 1" by (rule div_times_less_eq_dividend)
  finally show ?thesis using assms(2) by simp
qed

text \<open>A small disk with any contents, inside a transaction.\<close>

lemma fs_example:
  fixes D :: "nat \<Rightarrow> u8 list" and sb :: superblock and f :: "nat \<Rightarrow> inode"
  assumes D: "\<And>b. length (D b) = BSIZE"
  shows "\<exists>s :: fs_st. tx 8 6 s \<and> view s = D \<and> lg_start s = 2 \<and> disksize s = 20 \<and> fs_sb s = sb \<and> inodes s = f"
proof -
  define s0 :: fs_st where "s0 = \<lparr>bufs = \<lambda>_. zero_buf, memdisk = D, disksize = 20, history = [], woken = [], lg_start = 2, lg_size = 8,
    lg_outstanding = 1, lg_committing = False, lg_dev = 1, lh_n = 0, lh_block = \<lambda>_. 0, fs_sb = sb, inodes = f\<rparr>"
  have s0: "bufs s0 = (\<lambda>_. zero_buf)" "memdisk s0 = D" by (simp_all add: s0_def)
  have len: "length (memdisk s0 b) = BSIZE" for b using D by (simp add: s0)
  note init = binit_ok [OF s0(1) len, unfolded s0(2)]
  define s where "s = binit s0"
  have eq: "s = s0\<lparr>bufs := bufs s\<rparr>" using init(5) by (simp add: s_def)
  have fl: "disksize s = 20" "lg_start s = 2" "lg_size s = int 8" "lg_outstanding s = 1" "lg_dev s = 1" "lh_n s = 0" "fs_sb s = sb" "inodes s = f"
    by (subst eq, simp add: s0_def)+
  have cl: "clean s = {0..<NBUF}" using init(3) by (simp add: s_def)
  have nb: "\<not> b_busy (bufs s i)" "\<not> b_dirty (bufs s i)" if "i < NBUF" for i
  proof -
    have "i \<in> clean s" unfolding cl using that by simp
    then show "\<not> b_busy (bufs s i)" "\<not> b_dirty (bufs s i)" by (simp_all add: clean_def)
  qed
  have "held s = {}" "dirty s = {}" unfolding held_def dirty_def using nb by blast+
  moreover have "bio_ok s" using init(1) by (simp only: s_def)
  moreover have "log_layout 20 2 8 []" by (simp add: log_layout_def NBUF_def MAXOPBLOCKS_def)
  ultimately have "trans_ok 8 [] s" using fl by (simp add: trans_ok_def quiet_def)
  then have "tx 8 6 s" unfolding tx_def using fl(3,4) by (intro conjI exI [of _ "[]"]) (simp_all add: NBUF_def MAXOPBLOCKS_def)
  moreover have "view s = D" using init(2) by (simp add: s_def)
  ultimately show ?thesis using fl(1,2,7,8) by blast
qed

subsection \<open>Lemmas: inodes on disk\<close>

lemma int16_nat: "short v \<Longrightarrow> int16 (nat (v mod 2 ^ 16)) = v"
proof -
  assume v: "short v"
  show ?thesis
  proof (cases "0 \<le> v")
    case True
    then have "v mod 2 ^ 16 = v" using v by (intro mod_pos_pos_trivial) (auto simp: short_def)
    then show ?thesis using True v by (simp add: int16_def short_def)
  next
    case False
    have "v mod 2 ^ 16 = (v + 2 ^ 16) mod 2 ^ 16" by simp
    also have "\<dots> = v + 2 ^ 16" using False v by (intro mod_pos_pos_trivial) (auto simp: short_def)
    finally have "v mod 2 ^ 16 = v + 2 ^ 16" .
    then show ?thesis using False v by (simp add: int16_def short_def)
  qed
qed

lemma dinode_at_put:
  assumes "p + 64 \<le> length d"
  shows "length (put_dinode p x d) = length d"
    and "dinode_ok x \<Longrightarrow> dinode_at (put_dinode p x d) p = x"
    and "q + 64 \<le> p \<or> p + 64 \<le> q \<Longrightarrow> dinode_at (put_dinode p x d) q = dinode_at d q"
proof -
  define e where "e = put32 (p + 8) (di_size x) (put16 (p + 6) (nat (di_nlink x mod 2 ^ 16))
    (put16 (p + 4) (nat (di_minor x mod 2 ^ 16)) (put16 (p + 2) (nat (di_major x mod 2 ^ 16)) (put16 p (nat (di_type x mod 2 ^ 16)) d))))"
  have eq: "put_dinode p x d = put_words (p + 12) (di_addrs x) 13 e"
    by (simp add: put_dinode_def put_words_def e_def Let_def NDIRECT_def)
  have le: "length e = length d" using assms by (simp add: e_def)
  have pw: "p + 12 + 4 * 13 \<le> length e" using assms le by simp
  note w = put_words [OF pw]
  show "length (put_dinode p x d) = length d" unfolding eq using w(1) le by simp
  have n16: "nat (v mod 2 ^ 16) < 2 ^ 16" for v :: int by (simp add: nat_less_iff)
  have e16: "get16 e p = nat (di_type x mod 2 ^ 16)" "get16 e (p + 2) = nat (di_major x mod 2 ^ 16)"
    "get16 e (p + 4) = nat (di_minor x mod 2 ^ 16)" "get16 e (p + 6) = nat (di_nlink x mod 2 ^ 16)"
    using assms n16 by (simp_all add: e_def get_put_other get_put)
  have e32: "di_size x < 2 ^ 32 \<Longrightarrow> get32 e (p + 8) = di_size x" using assms by (simp add: e_def get_put(2))
  show "dinode_at (put_dinode p x d) p = x" if x: "dinode_ok x"
  proof -
    have "di_addrs (dinode_at (put_dinode p x d) p) = di_addrs x"
    proof
      fix i
      show "di_addrs (dinode_at (put_dinode p x d) p) i = di_addrs x i"
        using x w(4) [of i "di_addrs x"] by (cases "i \<le> NDIRECT") (simp_all add: eq dinode_at_def dinode_ok_def NDIRECT_def)
    qed
    moreover have g16: "get16 (put_words (p + 12) (di_addrs x) 13 e) (p + k) = get16 e (p + k)" if "k \<le> 6" for k
      by (rule w(2)) (use that in simp)
    have g32: "get32 (put_words (p + 12) (di_addrs x) 13 e) (p + 8) = get32 e (p + 8)" by (rule w(3)) simp
    have sh: "short (di_type x)" "short (di_major x)" "short (di_minor x)" "short (di_nlink x)" "di_size x < 2 ^ 32"
      using x by (simp_all add: dinode_ok_def)
    note i16 = int16_nat [OF sh(1), folded e16(1)] int16_nat [OF sh(2), folded e16(2)] int16_nat [OF sh(3), folded e16(3)]
      int16_nat [OF sh(4), folded e16(4)]
    have "di_type (dinode_at (put_dinode p x d) p) = di_type x" "di_major (dinode_at (put_dinode p x d) p) = di_major x"
      "di_minor (dinode_at (put_dinode p x d) p) = di_minor x" "di_nlink (dinode_at (put_dinode p x d) p) = di_nlink x"
      "di_size (dinode_at (put_dinode p x d) p) = di_size x"
      unfolding eq dinode_at_def dinode.select_convs
      using g16 [of 0] i16(1) g16 [of 2] i16(2) g16 [of 4] i16(3) g16 [of 6] i16(4) g32 e32 [OF sh(5)] by (simp_all only: add_0_right)
    ultimately show ?thesis by (intro dinode.equality) simp_all
  qed
  show "dinode_at (put_dinode p x d) q = dinode_at d q" if q: "q + 64 \<le> p \<or> p + 64 \<le> q"
  proof -
    have "get16 e off = get16 d off" if "off + 2 \<le> p \<or> p + 12 \<le> off" for off
      using assms that by (auto simp: e_def get_put_other)
    moreover have "get32 e off = get32 d off" if "off + 4 \<le> p \<or> p + 12 \<le> off" for off
      using assms that by (auto simp: e_def get_put_other get32_put32_other)
    ultimately show ?thesis unfolding eq dinode_at_def using q by (auto simp: w(2,3) NDIRECT_def fun_eq_iff)
  qed
qed

lemma inode_slot: "64 * (inum mod IPB) + 64 \<le> BSIZE"
proof -
  have "inum mod IPB < IPB" by (simp add: IPB_def BSIZE_def)
  then show ?thesis by (simp add: IPB_def BSIZE_def)
qed

lemma inode_slots:
  assumes "inum \<noteq> inum'" and "IBLOCK inum sb = IBLOCK inum' sb"
  shows "64 * (inum' mod IPB) + 64 \<le> 64 * (inum mod IPB) \<or> 64 * (inum mod IPB) + 64 \<le> 64 * (inum' mod IPB)"
proof -
  have "inum div IPB = inum' div IPB" using assms(2) by (simp add: IBLOCK_def)
  then have "inum mod IPB \<noteq> inum' mod IPB" using assms(1) by (metis div_mult_mod_eq)
  then show ?thesis by arith
qed

lemma iupdate_ok:
  assumes tr: "tx len (Suc n) s" and x: "inodes s ip = x" "i_dev x = 1" "dinode_ok (i_d x)" and u: "usable len s (IBLOCK (i_inum x) (fs_sb s))"
  shows "\<exists>s'. iupdate ip s = Inr s' \<and> tx len n s' \<and> usable len s' = usable len s \<and> log_st.more s' = log_st.more s \<and>
    (\<forall>b. b \<noteq> IBLOCK (i_inum x) (fs_sb s) \<longrightarrow> view s' b = view s b) \<and>
    (\<forall>inum. disk_inode s' inum = (if inum = i_inum x then i_d x else disk_inode s inum))"
proof -
  let ?B = "IBLOCK (i_inum x) (fs_sb s)" let ?p = "64 * (i_inum x mod IPB)"
  have len: "length (view s ?B) = BSIZE" by (rule tx_length [OF tr u])
  note d = dinode_at_put [where p = ?p and d = "view s ?B" and x = "i_d x", unfolded len, OF inode_slot]
  obtain s' where s': "iupdate ip s = Inr s'" "tx len n s'" "view s' = (view s)(?B := put_dinode ?p (i_d x) (view s ?B))"
      "usable len s' = usable len s" "log_st.more s' = log_st.more s"
    using logdisk.modify [OF tr u, of "put_dinode ?p (i_d x)"] d(1) x unfolding iupdate_def by auto
  have "disk_inode s' inum = (if inum = i_inum x then i_d x else disk_inode s inum)" for inum
  proof (cases "IBLOCK inum (fs_sb s) = ?B")
    case True
    then show ?thesis
      using d(2) [OF x(3)] d(3) inode_slots [of "i_inum x" inum "fs_sb s"] fs_fields(1) [OF s'(5)] s'(3) by (auto simp: disk_inode_def)
  next
    case False
    then show ?thesis using fs_fields(1) [OF s'(5)] s'(3) by (auto simp: disk_inode_def)
  qed
  then show ?thesis using s' by auto
qed

subsection \<open>Lemmas: file contents\<close>

lemma same_fsD:
  assumes "same_fs len n s s'"
  shows "tx len n s'" "view s' = view s" "usable len s' = usable len s" "log_st.more s' = log_st.more s"
    "fs_sb s' = fs_sb s" "inodes s' = inodes s" "addr_of ip i s' = addr_of ip i s" "blk_addr s' ip bn = blk_addr s ip bn"
    "file_byte s' ip k = file_byte s ip k" "file_ok len s' ip = file_ok len s ip" "file_bytes s' ip = file_bytes s ip"
proof -
  show b: "tx len n s'" "view s' = view s" "usable len s' = usable len s" "log_st.more s' = log_st.more s"
    using assms by (simp_all add: same_fs_def)
  note f = fs_fields [OF b(4)]
  show "fs_sb s' = fs_sb s" "inodes s' = inodes s" by (rule f(1), rule f(2))
  show a: "addr_of ip i s' = addr_of ip i s" for ip i using f by (simp add: addr_of_def)
  show k: "blk_addr s' ip bn = blk_addr s ip bn" for bn ip using a b by (simp add: blk_addr_def)
  show "file_byte s' ip k = file_byte s ip k" "file_bytes s' ip = file_bytes s ip" for k
    using b k f by (simp_all add: file_byte_def file_bytes_def)
  show "file_ok len s' ip = file_ok len s ip" using a b k f by (simp add: file_ok_def)
qed

lemma same_fs_trans: "same_fs len n s s' \<Longrightarrow> same_fs len n s' s'' \<Longrightarrow> same_fs len n s s''"
  by (simp add: same_fs_def)

lemma look_fs:
  assumes "tx len n s" and "usable len s b"
  shows "\<exists>i s1 s'. bread 1 b s = Inr (i, s1) \<and> b_data (bufs s1 i) = view s b \<and> log_st.more s1 = log_st.more s \<and>
    brelse i s1 = Inr s' \<and> same_fs len n s s'"
  using logdisk.look [OF assms] by (simp add: same_fs_def)

lemma file_okD:
  assumes "file_ok len s ip"
  shows "i_dev (inodes s ip) = 1" "di_type (i_d (inodes s ip)) \<noteq> T_DEV" "di_size (i_d (inodes s ip)) \<le> MAXFILE * BSIZE"
    "bn * BSIZE < di_size (i_d (inodes s ip)) \<Longrightarrow> blk_addr s ip bn \<noteq> 0 \<and> usable len s (blk_addr s ip bn)"
    "bn * BSIZE < di_size (i_d (inodes s ip)) \<Longrightarrow> NDIRECT \<le> bn \<Longrightarrow> addr_of ip NDIRECT s \<noteq> 0 \<and> usable len s (addr_of ip NDIRECT s)"
  using assms unfolding file_ok_def by blast+

lemma bmap_ok:
  assumes tr: "tx len n s" and ok: "file_ok len s ip" and bn: "bn * BSIZE < di_size (i_d (inodes s ip))"
  shows "\<exists>s'. bmap ip bn s = Inr (blk_addr s ip bn, s') \<and> same_fs len n s s'"
proof (cases "bn < NDIRECT")
  case True
  then show ?thesis using file_okD(4) [OF ok bn] tr by (auto simp: bmap_def blk_addr_def same_fs_def)
next
  case False
  have "bn * BSIZE < MAXFILE * BSIZE" using bn file_okD(3) [OF ok] by linarith
  then have small: "bn - NDIRECT < NINDIRECT" using False by (simp add: MAXFILE_def BSIZE_def)
  have a: "addr_of ip NDIRECT s \<noteq> 0" "usable len s (addr_of ip NDIRECT s)" using file_okD(5) [OF ok bn] False by auto
  have nz: "get32 (view s (addr_of ip NDIRECT s)) (4 * (bn - NDIRECT)) \<noteq> 0"
    using file_okD(4) [OF ok bn] False by (simp add: blk_addr_def)
  obtain i s1 s' where r: "bread 1 (addr_of ip NDIRECT s) s = Inr (i, s1)" "b_data (bufs s1 i) = view s (addr_of ip NDIRECT s)"
      "brelse i s1 = Inr s'" "same_fs len n s s'"
    using look_fs [OF tr a(2)] by blast
  have "bmap ip bn s = Inr (blk_addr s ip bn, s')"
    using False small a(1) nz r(1,2,3) file_okD(1) [OF ok] by (simp add: bmap_def Let_def blk_addr_def)
  then show ?thesis using r(4) by blast
qed

text \<open>The bytes of one round are those of one block.\<close>

lemma chunk_in_block: "chunk off n \<le> BSIZE - off mod BSIZE" "j < chunk off n \<Longrightarrow> (off + j) div BSIZE = off div BSIZE"
  "j < chunk off n \<Longrightarrow> (off + j) mod BSIZE = off mod BSIZE + j"
proof -
  show c: "chunk off n \<le> BSIZE - off mod BSIZE" by (simp add: chunk_def)
  define q r where "q = off div BSIZE" and "r = off mod BSIZE"
  have off: "off = q * BSIZE + r" by (simp add: q_def r_def)
  assume "j < chunk off n"
  then have "r + j < BSIZE" using c by (simp add: r_def)
  then show "(off + j) div BSIZE = off div BSIZE" "(off + j) mod BSIZE = off mod BSIZE + j"
    unfolding off by (simp_all add: add.assoc)
qed

lemma chunk_bytes:
  assumes "length (view s (blk_addr s ip (off div BSIZE))) = BSIZE"
  shows "slice (off mod BSIZE) (chunk off n) (view s (blk_addr s ip (off div BSIZE))) = map (file_byte s ip) [off..<off + chunk off n]"
proof (rule nth_equalityI)
  have r: "off mod BSIZE < BSIZE" by (simp add: BSIZE_def)
  show "length (slice (off mod BSIZE) (chunk off n) (view s (blk_addr s ip (off div BSIZE)))) = length (map (file_byte s ip) [off..<off + chunk off n])"
    using assms chunk_in_block(1) [of off n] by simp
  fix j assume "j < length (slice (off mod BSIZE) (chunk off n) (view s (blk_addr s ip (off div BSIZE))))"
  then have j: "j < chunk off n" by simp
  then show "slice (off mod BSIZE) (chunk off n) (view s (blk_addr s ip (off div BSIZE))) ! j = map (file_byte s ip) [off..<off + chunk off n] ! j"
    using chunk_in_block(1) [of off n] chunk_in_block(2,3) [OF j] r assms by (simp add: slice_nth file_byte_def)
qed

lemma readi_loop_ok:
  assumes "tx len k s" and "file_ok len s ip" and "off + n \<le> di_size (i_d (inodes s ip))"
  shows "\<exists>s'. readi_loop ip off n s = Inr (map (file_byte s ip) [off..<off + n], s') \<and> same_fs len k s s'"
  using assms
proof (induction n arbitrary: off s rule: less_induct)
  case (less n)
  show ?case
  proof (cases "n = 0")
    case True
    then show ?thesis using less.prems(1) by (simp add: readi_loop.simps same_fs_def)
  next
    case False
    let ?m = "chunk off n" let ?a = "blk_addr s ip (off div BSIZE)"
    have m: "0 < ?m" "?m \<le> n" using chunk_bounds False by simp_all
    have bn: "off div BSIZE * BSIZE < di_size (i_d (inodes s ip))"
      using less.prems(3) False div_times_less_eq_dividend [of off BSIZE] by linarith
    obtain s1 where s1: "bmap ip (off div BSIZE) s = Inr (?a, s1)" "same_fs len k s s1"
      using bmap_ok [OF less.prems(1,2) bn] by blast
    note d1 = same_fsD [OF s1(2)]
    have u: "usable len s1 ?a" using file_okD(4) [OF less.prems(2) bn] d1(3) by simp
    obtain i s2 s3 where s3: "bread 1 ?a s1 = Inr (i, s2)" "b_data (bufs s2 i) = view s1 ?a" "brelse i s2 = Inr s3" "same_fs len k s1 s3"
      using look_fs [OF d1(1) u] by blast
    note d3 = same_fsD [OF s3(4)]
    have eqs: "inodes s3 = inodes s" "file_ok len s3 ip" "file_byte s3 ip = file_byte s ip"
      using d1 d3 less.prems(2) by (simp_all add: fun_eq_iff)
    have "off + ?m + (n - ?m) \<le> di_size (i_d (inodes s3 ip))" using less.prems(3) m eqs(1) by simp
    then obtain s4 where s4: "readi_loop ip (off + ?m) (n - ?m) s3 = Inr (map (file_byte s3 ip) [off + ?m..<off + ?m + (n - ?m)], s4)"
        "same_fs len k s3 s4"
      using less.IH [of "n - ?m" s3 "off + ?m"] d3(1) eqs(2) m by auto
    have len: "length (view s ?a) = BSIZE" using tx_length [OF d1(1) u] d1(2) by simp
    have dev: "i_dev (inodes s1 ip) = 1" using file_okD(1) [OF less.prems(2)] d1(6) by simp
    have split: "[off..<off + n] = [off..<off + ?m] @ [off + ?m..<off + n]" using upt_add_eq_append [of off "off + ?m" "n - ?m"] m by simp
    have "readi_loop ip off n s = Inr (map (file_byte s ip) [off..<off + n], s4)"
      unfolding split using False s1(1) s3(1,2,3) s4(1) dev d1(2) m eqs(3) chunk_bytes [OF len, of n]
      by (subst readi_loop.simps) (simp add: Let_def)
    then show ?thesis using same_fs_trans [OF same_fs_trans [OF s1(2) s3(4)] s4(2)] by blast
  qed
qed

lemma rounds_step:
  assumes "0 < l"
  shows "rounds off l = Suc (rounds (off + chunk off l) (l - chunk off l))"
proof -
  define r where "r = off mod BSIZE"
  have r: "r < BSIZE" by (simp add: r_def BSIZE_def)
  show ?thesis
  proof (cases "l \<le> BSIZE - r")
    case True
    have "chunk off l = l" using True by (simp add: chunk_def r_def)
    moreover have "r + l - 1 < BSIZE" using True assms r by linarith
    ultimately show ?thesis using assms by (simp add: rounds_def r_def [symmetric])
  next
    case False
    have c: "chunk off l = BSIZE - r" using False by (simp add: chunk_def r_def)
    have "off + (BSIZE - r) = off div BSIZE * BSIZE + BSIZE" using r by (simp add: r_def minus_mod_eq_div_mult [symmetric])
    then have z: "(off + (BSIZE - r)) mod BSIZE = 0" by simp
    have e: "r + l - 1 = BSIZE + (l - (BSIZE - r) - 1)" using False r by linarith
    have "(r + l - 1) div BSIZE = Suc ((l - (BSIZE - r) - 1) div BSIZE)" unfolding e using r by (subst div_add_self1) simp_all
    then show ?thesis using assms False by (simp add: rounds_def c z r_def [symmetric])
  qed
qed

lemma file_sepD:
  assumes "file_sep s ip"
  shows "bn * BSIZE < di_size (i_d (inodes s ip)) \<Longrightarrow> bn' * BSIZE < di_size (i_d (inodes s ip)) \<Longrightarrow>
      blk_addr s ip bn = blk_addr s ip bn' \<Longrightarrow> bn = bn'"
    and "bn * BSIZE < di_size (i_d (inodes s ip)) \<Longrightarrow> blk_addr s ip bn \<noteq> addr_of ip NDIRECT s"
  using assms unfolding file_sep_def by blast+

lemma block_start: "k < sz \<Longrightarrow> k div BSIZE * BSIZE < sz"
  using div_times_less_eq_dividend [of k BSIZE] by linarith

text \<open>One round: the part of the block that \<open>src\<close> covers is replaced.\<close>

lemma wrote_block:
  assumes sep: "file_sep s ip" and off: "off < di_size (i_d (inodes s ip))" and src: "length src \<le> BSIZE - off mod BSIZE"
    and view: "view s' = (view s)(a := patch (off mod BSIZE) src (view s a))" and a: "a = blk_addr s ip (off div BSIZE)"
    and len: "length (view s a) = BSIZE" and rest: "usable len s' = usable len s" "log_st.more s' = log_st.more s"
  shows "wrote len s ip off src s'"
proof -
  let ?q = "off div BSIZE" let ?r = "off mod BSIZE"
  note f = fs_fields [OF rest(2)]
  have qs: "?q * BSIZE < di_size (i_d (inodes s ip))" by (rule block_start [OF off])
  have "view s' (addr_of ip NDIRECT s) = view s (addr_of ip NDIRECT s)" using file_sepD(2) [OF sep qs] a view by simp
  then have ba: "blk_addr s' ip = blk_addr s ip" using f by (simp add: blk_addr_def addr_of_def fun_eq_iff)
  have r: "?r + length src \<le> length (view s a)" using src len mod_less_divisor [of BSIZE off] by (simp add: BSIZE_def)
  have "file_byte s' ip k = (if off \<le> k \<and> k < off + length src then src ! (k - off) else file_byte s ip k)"
    if k: "k < di_size (i_d (inodes s ip))" for k
  proof (cases "k div BSIZE = ?q")
    case True
    define j where "j = k mod BSIZE"
    have kj: "k = ?q * BSIZE + j" using div_mult_mod_eq [of k BSIZE] True by (simp add: j_def)
    have oj: "off = ?q * BSIZE + ?r" by simp
    have j: "j < length (view s a)" using len by (simp add: j_def BSIZE_def)
    have "file_byte s' ip k = patch ?r src (view s a) ! j" using True a view ba by (simp add: file_byte_def j_def)
    also have "\<dots> = (if ?r \<le> j \<and> j < ?r + length src then src ! (j - ?r) else view s a ! j)" by (rule nth_patch [OF r j])
    also have "view s a ! j = file_byte s ip k" using True a by (simp add: file_byte_def j_def)
    finally have fb: "file_byte s' ip k = (if ?r \<le> j \<and> j < ?r + length src then src ! (j - ?r) else file_byte s ip k)" .
    have c: "(off \<le> k \<and> k < off + length src) = (?r \<le> j \<and> j < ?r + length src)" "k - off = j - ?r"
      using kj oj by linarith+
    show ?thesis unfolding c by (rule fb)
  next
    case False
    have "blk_addr s ip (k div BSIZE) \<noteq> a" using file_sepD(1) [OF sep block_start [OF k] qs] False a by blast
    then have "file_byte s' ip k = file_byte s ip k" using view ba by (simp add: file_byte_def)
    moreover have "\<not> (off \<le> k \<and> k < off + length src)"
    proof
      assume h: "off \<le> k \<and> k < off + length src"
      then have "k = off + (k - off)" "k - off < BSIZE - ?r" using src by linarith+
      then have "?r + (k - off) < BSIZE" by linarith
      moreover have "k = ?q * BSIZE + (?r + (k - off))" using h div_mult_mod_eq [of off BSIZE] by linarith
      ultimately have "BSIZE * ?q \<le> k" "k < BSIZE * Suc ?q" unfolding mult_Suc_right mult.commute [of BSIZE] by linarith+
      then have "k div BSIZE = ?q" by (rule div_nat_eqI)
      then show False using False by simp
    qed
    ultimately show ?thesis by auto
  qed
  moreover have "view s' b = view s b" if "\<And>bn. bn * BSIZE < di_size (i_d (inodes s ip)) \<Longrightarrow> b \<noteq> blk_addr s ip bn" for b
    using that [OF qs] a view by simp
  ultimately show ?thesis using rest ba unfolding wrote_def by blast
qed

lemma wrote_keeps:
  assumes "wrote len s ip off src s'"
  shows "inodes s' = inodes s" "usable len s' = usable len s" "log_st.more s' = log_st.more s" "blk_addr s' ip = blk_addr s ip"
    "file_sep s ip \<Longrightarrow> file_sep s' ip" "file_ok len s ip \<Longrightarrow> file_ok len s' ip"
proof -
  show w: "usable len s' = usable len s" "log_st.more s' = log_st.more s" "blk_addr s' ip = blk_addr s ip"
    using assms by (simp_all add: wrote_def)
  note f = fs_fields [OF w(2)]
  show "inodes s' = inodes s" by (rule f(2))
  show "file_sep s ip \<Longrightarrow> file_sep s' ip" "file_ok len s ip \<Longrightarrow> file_ok len s' ip"
    using w f by (simp_all add: file_sep_def file_ok_def addr_of_def)
qed

lemma wrote_append:
  assumes w1: "wrote len s ip off xs s1" and w2: "wrote len s1 ip (off + length xs) ys s2"
  shows "wrote len s ip off (xs @ ys) s2"
proof -
  note k1 = wrote_keeps [OF w1] and k2 = wrote_keeps [OF w2]
  have "file_byte s2 ip k = (if off \<le> k \<and> k < off + length (xs @ ys) then (xs @ ys) ! (k - off) else file_byte s ip k)"
    if k: "k < di_size (i_d (inodes s ip))" for k
  proof -
    have "file_byte s2 ip k = (if off + length xs \<le> k \<and> k < off + length xs + length ys then ys ! (k - (off + length xs)) else file_byte s1 ip k)"
      using w2 k k1(1) by (simp add: wrote_def)
    moreover have "file_byte s1 ip k = (if off \<le> k \<and> k < off + length xs then xs ! (k - off) else file_byte s ip k)"
      using w1 k by (simp add: wrote_def)
    ultimately show ?thesis by (auto simp: nth_append diff_diff_left)
  qed
  moreover have "view s2 b = view s b" if b: "\<And>bn. bn * BSIZE < di_size (i_d (inodes s ip)) \<Longrightarrow> b \<noteq> blk_addr s ip bn" for b
  proof -
    have "view s2 b = view s1 b" using w2 b k1(1,4) by (simp add: wrote_def)
    also have "\<dots> = view s b" using w1 b by (simp add: wrote_def)
    finally show ?thesis .
  qed
  ultimately show ?thesis using k1 k2 unfolding wrote_def by simp
qed

lemma wrote_nil: "wrote len s ip off [] s"
  by (auto simp: wrote_def)

lemma same_wrote:
  assumes "same_fs len n s s1" and "wrote len s1 ip off src s'"
  shows "wrote len s ip off src s'"
  using assms same_fsD(2,3,4,6) [OF assms(1)] same_fsD(8,9) [OF assms(1), of ip] by (simp add: wrote_def fun_eq_iff)

lemma writei_loop_ok:
  assumes "tx len (rounds off (length src) + n) s" and "file_ok len s ip" and "file_sep s ip"
    and "off + length src \<le> di_size (i_d (inodes s ip))"
  shows "\<exists>s'. writei_loop ip off src s = Inr s' \<and> tx len n s' \<and> wrote len s ip off src s'"
  using assms
proof (induction "length src" arbitrary: off src s rule: less_induct)
  case less
  show ?case
  proof (cases "src = []")
    case True
    then show ?thesis using less.prems(1) wrote_nil by (subst writei_loop.simps) (simp add: rounds_def)
  next
    case False
    let ?l = "length src" let ?m = "chunk off (length src)" let ?a = "blk_addr s ip (off div BSIZE)"
    have l: "0 < ?l" using False by simp
    have m: "0 < ?m" "?m \<le> ?l" using chunk_bounds l by simp_all
    have off: "off < di_size (i_d (inodes s ip))" using less.prems(4) l by linarith
    have room: "tx len (Suc (rounds (off + ?m) (length (drop ?m src)) + n)) s" using less.prems(1) rounds_step [OF l, of off] by simp
    obtain s1 where s1: "bmap ip (off div BSIZE) s = Inr (?a, s1)" "same_fs len (Suc (rounds (off + ?m) (length (drop ?m src)) + n)) s s1"
      using bmap_ok [OF room less.prems(2) block_start [OF off]] by blast
    note d1 = same_fsD [OF s1(2)]
    have u: "usable len s1 ?a" using file_okD(4) [OF less.prems(2) block_start [OF off]] d1(3) by simp
    let ?d = "patch (off mod BSIZE) (take ?m src) (view s1 ?a)"
    have lv: "length (view s1 ?a) = BSIZE" by (rule tx_length [OF d1(1) u])
    have r: "off mod BSIZE < BSIZE" by (simp add: BSIZE_def)
    have fit: "length (take ?m src) \<le> BSIZE - off mod BSIZE" using chunk_in_block(1) [of off ?l] by simp
    then have ld: "length ?d = BSIZE" using lv r by simp
    obtain i s2 where s2: "bread 1 ?a s1 = Inr (i, s2)" "b_data (bufs s2 i) = view s1 ?a" using look_fs [OF d1(1) u] by blast
    obtain s3 s4 where s4: "log_write i (set_data i ?d s2) = Inr s3" "brelse i s3 = Inr s4" "tx len (rounds (off + ?m) (length (drop ?m src)) + n) s4"
        "view s4 = (view s1)(?a := ?d)" "usable len s4 = usable len s1" "log_st.more s4 = log_st.more s1"
      using logdisk.change [OF d1(1) u ld s2(1)] by blast
    have a1: "?a = blk_addr s1 ip (off div BSIZE)" using d1(8) by simp
    have sep1: "file_sep s1 ip" using less.prems(3) d1(6,7,8) by (simp add: file_sep_def)
    have "wrote len s1 ip off (take ?m src) s4"
      by (rule wrote_block [OF sep1 _ fit s4(4) a1 lv s4(5,6)]) (use off d1(6) in simp)
    then have w4: "wrote len s ip off (take ?m src) s4" by (rule same_wrote [OF s1(2)])
    note k4 = wrote_keeps [OF w4]
    have "\<exists>s'. writei_loop ip (off + ?m) (drop ?m src) s4 = Inr s' \<and> tx len n s' \<and> wrote len s4 ip (off + ?m) (drop ?m src) s'"
      using less.hyps [of "drop ?m src" "off + ?m" s4] s4(3) k4(1,5,6) less.prems m by simp
    then obtain s' where s': "writei_loop ip (off + ?m) (drop ?m src) s4 = Inr s'" "tx len n s'"
      "wrote len s4 ip (off + length (take ?m src)) (drop ?m src) s'" using m by (auto simp: min_absorb2)
    have dev: "i_dev (inodes s1 ip) = 1" using file_okD(1) [OF less.prems(2)] d1(6) by simp
    have "writei_loop ip off src s = Inr s'"
      using False s1(1) s2 s4(1,2) s'(1) dev by (subst writei_loop.simps) (simp add: Let_def)
    then show ?thesis using s'(2) wrote_append [OF w4 s'(3)] by simp
  qed
qed

lemma file_small:
  assumes "file_ok len s ip"
  shows "di_size (i_d (inodes s ip)) < 2 ^ 31"
  using file_okD(3) [OF assms] by (simp add: MAXFILE_def NDIRECT_def NINDIRECT_def BSIZE_def)

lemma slice_file_bytes:
  assumes "off + n \<le> di_size (i_d (inodes s ip))"
  shows "map (file_byte s ip) [off..<off + n] = slice off n (file_bytes s ip)"
  using assms by (intro nth_equalityI) (simp_all add: file_bytes_def slice_def)

lemma readi_ok:
  assumes tr: "tx len k s" and ok: "file_ok len s ip" and off: "off \<le> di_size (i_d (inodes s ip))" "off + n < 2 ^ 32"
  shows "\<exists>s'. readi devsw ip off n s =
      Inr (int (min n (di_size (i_d (inodes s ip)) - off)), slice off (min n (di_size (i_d (inodes s ip)) - off)) (file_bytes s ip), s') \<and>
    same_fs len k s s'"
proof -
  let ?sz = "di_size (i_d (inodes s ip))"
  define m where "m = min n (?sz - off)"
  have m: "off + m \<le> ?sz" "(if ?sz < off + n then ?sz - off else n) = m" "\<not> (off + n) mod 2 ^ 32 < off"
    using off by (auto simp: m_def)
  obtain s' where s': "readi_loop ip off m s = Inr (map (file_byte s ip) [off..<off + m], s')" "same_fs len k s s'"
    using readi_loop_ok [OF tr ok m(1)] by blast
  have "m < 2 ^ 31" using m(1) file_small [OF ok] by linarith
  then have "readi devsw ip off n s = Inr (int m, slice off m (file_bytes s ip), s')"
    using s'(1) file_okD(2) [OF ok] off(1) m slice_file_bytes [OF m(1)] by (simp add: readi_def Let_def int32_small)
  then show ?thesis using s'(2) unfolding m_def by blast
qed

lemma writei_ok:
  assumes tr: "tx len (rounds off (length src) + n) s" and ok: "file_ok len s ip" and sep: "file_sep s ip"
    and off: "off + length src \<le> di_size (i_d (inodes s ip))"
  shows "\<exists>s'. writei devsw ip src off s = Inr (int (length src), s') \<and> tx len n s' \<and> wrote len s ip off src s'"
proof -
  obtain s' where s': "writei_loop ip off src s = Inr s'" "tx len n s'" "wrote len s ip off src s'"
    using writei_loop_ok [OF tr ok sep off] by blast
  have b: "off + length src < 2 ^ 31" "off + length src \<le> MAXFILE * BSIZE"
    using off file_small [OF ok] file_okD(3) [OF ok] by linarith+
  have "\<not> (off + length src) mod 2 ^ 32 < off" using b(1) by simp
  then have "writei devsw ip src off s = Inr (int (length src), s')"
    using s'(1) file_okD(2) [OF ok] off b wrote_keeps(1) [OF s'(3)] by (simp add: writei_def Let_def int32_small)
  then show ?thesis using s'(2,3) by blast
qed

lemma wrote_file_bytes:
  assumes "wrote len s ip off src s'" and "off + length src \<le> di_size (i_d (inodes s ip))"
  shows "file_bytes s' ip = patch off src (file_bytes s ip)"
proof (rule nth_equalityI)
  note k = wrote_keeps [OF assms(1)]
  have len: "off + length src \<le> length (file_bytes s ip)" using assms(2) by (simp add: file_bytes_def)
  show "length (file_bytes s' ip) = length (patch off src (file_bytes s ip))"
    unfolding length_patch [OF len] using k(1) by (simp add: file_bytes_def)
  fix j assume "j < length (file_bytes s' ip)"
  then have j: "j < di_size (i_d (inodes s ip))" "j < length (file_bytes s ip)" using k(1) by (simp_all add: file_bytes_def)
  have "file_bytes s' ip ! j = file_byte s' ip j" using j k(1) by (simp add: file_bytes_def)
  also have "\<dots> = (if off \<le> j \<and> j < off + length src then src ! (j - off) else file_byte s ip j)"
    using assms(1) j(1) unfolding wrote_def by blast
  also have "file_byte s ip j = file_bytes s ip ! j" using j by (simp add: file_bytes_def)
  finally show "file_bytes s' ip ! j = patch off src (file_bytes s ip) ! j" unfolding nth_patch [OF len j(2)] .
qed

text \<open>A file of 600 bytes in blocks 13 and 14 of the small disk.\<close>

definition small_inode :: inode where
  "small_inode = \<lparr>i_dev = 1, i_inum = 1, i_ref = 1, i_busy = True, i_valid = True,
     i_d = \<lparr>di_type = T_FILE, di_major = 0, di_minor = 0, di_nlink = 1, di_size = 600, di_addrs = (\<lambda>_. 0)(0 := 13, 1 := 14)\<rparr>\<rparr>"

lemma small_file_addr:
  "\<exists>s :: fs_st. tx 8 6 s \<and> file_ok 8 s 0 \<and> file_sep s 0 \<and> di_size (i_d (inodes s 0)) = 600 \<and>
     view s = (\<lambda>b. replicate BSIZE (of_nat b)) \<and> blk_addr s 0 0 = 13 \<and> blk_addr s 0 1 = 14"
proof -
  obtain s :: fs_st where s: "tx 8 6 s" "view s = (\<lambda>b. replicate BSIZE (of_nat b))" "lg_start s = 2" "disksize s = 20" "inodes s = (\<lambda>_. small_inode)"
    using fs_example [of "\<lambda>b. replicate BSIZE (of_nat b)" "superblock_of []" "\<lambda>_. small_inode"] by auto
  have sz: "di_size (i_d small_inode) = 600" "i_dev small_inode = 1" "di_type (i_d small_inode) = T_FILE"
    "di_addrs (i_d small_inode) = (\<lambda>_. 0)(0 := 13, 1 := 14)" by (simp_all add: small_inode_def)
  have bn: "bn * BSIZE < 600 \<longleftrightarrow> bn = 0 \<or> bn = 1" for bn by (auto simp: BSIZE_def)
  have a: "addr_of 0 i s = ((\<lambda>_. 0)(0 := 13, 1 := 14)) i" for i using s(5) sz by (simp add: addr_of_def)
  have b: "blk_addr s 0 0 = 13" "blk_addr s 0 1 = 14" "addr_of 0 NDIRECT s = 0" using a by (simp_all add: blk_addr_def NDIRECT_def)
  have "file_ok 8 s 0" unfolding file_ok_def s(5) sz bn
    using b s(3,4) by (auto simp: usable_def T_FILE_def T_DEV_def MAXFILE_def NDIRECT_def NINDIRECT_def BSIZE_def)
  moreover have "file_sep s 0" unfolding file_sep_def s(5) sz bn using b by auto
  ultimately show ?thesis using s sz b by auto
qed

subsection \<open>Properties\<close>

text \<open>
  C11: In a transaction with room for two blocks \<open>balloc\<close> returns a block that was free,
  marked in use and filled with zeros; every other block keeps its mark, and the contents of
  every block but the new one and its bitmap block are unchanged. When no block is free it
  panics.
\<close>

theorem balloc_takes_free_block:
  assumes "tx len (Suc (Suc n)) s" and "bitmap_ok len s"
  shows "if \<exists>b < sb_size (fs_sb s). blk_free s b
    then \<exists>b s'. balloc 1 s = Inr (b, s') \<and> b < sb_size (fs_sb s) \<and> blk_free s b \<and> view s' b = replicate BSIZE 0 \<and>
      (\<forall>b' < sb_size (fs_sb s). blk_free s' b' = (blk_free s b' \<and> b' \<noteq> b)) \<and>
      (\<forall>x. x \<noteq> b \<and> x \<noteq> BBLOCK b (fs_sb s) \<longrightarrow> view s' x = view s x) \<and> tx len n s' \<and> bitmap_ok len s'
    else balloc 1 s = Inl (Panic ''balloc: out of blocks'')"
proof -
  let ?sz = "sb_size (fs_sb s)"
  define as where "as = map (\<lambda>k. k * BPB) [0..<(?sz + BPB - 1) div BPB]"
  have B: "0 < BPB" by (simp add: BPB_def BSIZE_def)
  have as: "BPB dvd a \<and> a < ?sz" if h: "a \<in> set as" for a
  proof -
    have "a \<in> (\<lambda>k. k * BPB) ` {0..<(?sz + BPB - 1) div BPB}" using h by (simp only: as_def set_map set_upt)
    then obtain k where k: "a = k * BPB" "k \<in> {0..<(?sz + BPB - 1) div BPB}" by (rule imageE)
    then have "k < (?sz + BPB - 1) div BPB" by (simp only: atLeastLessThan_iff)
    then show ?thesis using covering_conv [OF _ B, of k] k(1) by (simp only: dvd_triv_right simp_thms)
  qed
  have cov: "(\<exists>a\<in>set as. \<exists>b < ?sz. a \<le> b \<and> b < a + BPB \<and> blk_free s b) \<longleftrightarrow> (\<exists>b < ?sz. blk_free s b)"
  proof
    assume "\<exists>b < ?sz. blk_free s b"
    then obtain b where b: "b < ?sz" "blk_free s b" by blast
    have "b div BPB \<in> {0..<(?sz + BPB - 1) div BPB}" using covering [OF b(1) B] by (simp only: atLeastLessThan_iff zero_le simp_thms)
    then have "b div BPB * BPB \<in> set as" unfolding as_def set_map set_upt by (rule imageI)
    moreover have "b div BPB * BPB \<le> b" "b < b div BPB * BPB + BPB" using div_mult_mod_eq [of b BPB] mod_less_divisor [OF B, of b] by linarith+
    ultimately show "\<exists>a\<in>set as. \<exists>b < ?sz. a \<le> b \<and> b < a + BPB \<and> blk_free s b" using b by blast
  qed blast
  note main = balloc_loop_ok [where as = as, OF assms as, unfolded cov]
  have run: "balloc 1 s = balloc_loop 1 as s" by (simp add: balloc_def as_def)
  show ?thesis
  proof (cases "\<exists>b < ?sz. blk_free s b")
    case True
    obtain b s' where b: "balloc 1 s = Inr (b, s')" "b < ?sz" "blk_free s b" "took len n s b s'"
      using main [unfolded if_P [OF True]] unfolding run by blast
    note t = took_free [OF b(4) assms(2) b(2,3) assms(1)]
    have "view s' b = replicate BSIZE 0" "\<forall>x. x \<noteq> b \<and> x \<noteq> BBLOCK b (fs_sb s) \<longrightarrow> view s' x = view s x" "tx len n s'"
      using b(4) by (auto simp: took_def)
    then show ?thesis using True b(1,2,3) t(1,2) by auto
  next
    case False
    show ?thesis using main [unfolded if_not_P [OF False]] unfolding run if_not_P [OF False] .
  qed
qed

theorem balloc_takes_free_block_witness:
  "\<exists>(s :: fs_st) b s'. balloc 1 s = Inr (b, s') \<and> 13 \<le> b \<and> b < 20 \<and> view s 13 = replicate BSIZE 7 \<and> view s' b = replicate BSIZE 0"
proof -
  define M :: "u8 list" where "M = [0xff, 0x1f] @ replicate 510 0"
  have len: "length (if b = 12 then M else replicate BSIZE 7) = BSIZE" for b :: nat by (simp add: M_def BSIZE_def)
  define sb where "sb = (superblock_of (replicate BSIZE 0))\<lparr>sb_size := 20, sb_bmapstart := 12\<rparr>"
  obtain s :: fs_st where s: "tx 8 6 s" "view s = (\<lambda>b. if b = 12 then M else replicate BSIZE 7)" "lg_start s = 2" "disksize s = 20" "fs_sb s = sb"
    using fs_example [of "\<lambda>b. if b = 12 then M else replicate BSIZE 7", OF len] by blast
  have sb: "sb_size sb = 20" "sb_bmapstart sb = 12" by (simp_all add: sb_def)
  have "list_all (\<lambda>b. (\<not> bm_get ([0xff, 0x1f] @ replicate 510 0) b) = (13 \<le> b)) [0..<20]" by code_simp
  then have free: "blk_free s b \<longleftrightarrow> 13 \<le> b" if "b < 20" for b
    using that s(2,5) sb by (auto simp: blk_free_def BBLOCK_def BPB_def BSIZE_def M_def list_all_iff)
  have bb: "BBLOCK b sb = 12" if "b < 20" for b using that sb by (simp add: BBLOCK_def BPB_def BSIZE_def)
  have ok: "bitmap_ok 8 s" unfolding bitmap_ok_def bitmap_blocks_def s(5) sb using free bb s(3,4) by (auto simp: usable_def)
  have tr: "tx 8 (Suc (Suc 4)) s" using s(1) by (simp add: eval_nat_numeral)
  have sz: "sb_size (fs_sb s) = 20" using s(5) sb by simp
  have ex: "\<exists>b < sb_size (fs_sb s). blk_free s b" unfolding sz using free [of 15] by (intro exI [of _ 15]) simp
  obtain b s' where "balloc 1 s = Inr (b, s')" "b < 20" "blk_free s b" "view s' b = replicate BSIZE 0"
    using balloc_takes_free_block [OF tr ok, unfolded if_P [OF ex]] unfolding sz by blast
  then show ?thesis using free s(2) by (intro exI [of _ s] exI [of _ b] exI [of _ s']) auto
qed

text \<open>
  C12: \<open>iupdate\<close> stores the cached inode: read back from its place on disk it has every field
  as in the cache, no other inode on disk changes, and no other block does.
\<close>

theorem iupdate_stores_inode:
  assumes "tx len (Suc n) s" and "i_dev (inodes s ip) = 1" and "dinode_ok (i_d (inodes s ip))"
    and "usable len s (IBLOCK (i_inum (inodes s ip)) (fs_sb s))"
  shows "\<exists>s'. iupdate ip s = Inr s' \<and> tx len n s' \<and>
    (\<forall>inum. disk_inode s' inum = (if inum = i_inum (inodes s ip) then i_d (inodes s ip) else disk_inode s inum)) \<and>
    (\<forall>b. b \<noteq> IBLOCK (i_inum (inodes s ip)) (fs_sb s) \<longrightarrow> view s' b = view s b)"
  using iupdate_ok [OF assms(1) refl assms(2,3,4)] by blast

theorem iupdate_stores_inode_witness:
  "\<exists>(s :: fs_st) s'. iupdate 0 s = Inr s' \<and> di_size (disk_inode s 1) = 0 \<and> di_size (disk_inode s' 1) = 600"
proof -
  obtain s :: fs_st where s: "tx 8 6 s" "view s = (\<lambda>_. replicate BSIZE 0)" "lg_start s = 2" "disksize s = 20"
      "fs_sb s = (superblock_of (replicate BSIZE 0))\<lparr>sb_inodestart := 11\<rparr>" "inodes s = (\<lambda>_. small_inode)"
    using fs_example [of "\<lambda>_. replicate BSIZE 0" "(superblock_of (replicate BSIZE 0))\<lparr>sb_inodestart := 11\<rparr>" "\<lambda>_. small_inode"] by auto
  have i: "i_dev small_inode = 1" "i_inum small_inode = 1" "dinode_ok (i_d small_inode)" "di_size (i_d small_inode) = 600"
    by (simp_all add: small_inode_def dinode_ok_def short_def T_FILE_def NDIRECT_def)
  have "usable 8 s (IBLOCK 1 (fs_sb s))" using s(3,4,5) by (simp add: usable_def IBLOCK_def IPB_def BSIZE_def)
  moreover have "tx 8 (Suc 5) s" using s(1) by (simp add: eval_nat_numeral)
  ultimately obtain s' where "iupdate 0 s = Inr s'" "disk_inode s' 1 = i_d small_inode"
    using iupdate_stores_inode [of 8 5 s 0] s(6) i by auto
  moreover have "get32 (replicate BSIZE 0) 72 = 0" by (simp add: get32_def slice_def BSIZE_def eval_nat_numeral)
  then have "di_size (disk_inode s 1) = 0" using s(2) by (simp add: disk_inode_def dinode_at_def IPB_def BSIZE_def)
  ultimately show ?thesis using i(4) by (intro exI [of _ s] exI [of _ s']) simp
qed



text \<open>
  C9: Overwriting part of a file and reading it back: in a transaction with room for the blocks
  touched, \<open>writei\<close> inside the file returns the number of bytes, \<open>readi\<close> then returns
  exactly these bytes, the rest of the file is as before, and no block outside the file has
  changed.
\<close>

theorem writei_readi_roundtrip:
  assumes "tx len (rounds off (length src) + n) s" and "file_ok len s ip" and "file_sep s ip"
    and "off + length src \<le> di_size (i_d (inodes s ip))"
  shows "\<exists>s1 s2. writei devsw ip src off s = Inr (int (length src), s1) \<and>
    readi devsw ip off (length src) s1 = Inr (int (length src), src, s2) \<and>
    file_bytes s1 ip = patch off src (file_bytes s ip) \<and>
    (\<forall>b. (\<forall>bn. bn * BSIZE < di_size (i_d (inodes s ip)) \<longrightarrow> b \<noteq> blk_addr s ip bn) \<longrightarrow> view s1 b = view s b)"
proof -
  obtain s1 where s1: "writei devsw ip src off s = Inr (int (length src), s1)" "tx len n s1" "wrote len s ip off src s1"
    using writei_ok [OF assms] by blast
  note k = wrote_keeps [OF s1(3)]
  have fb: "file_bytes s1 ip = patch off src (file_bytes s ip)" by (rule wrote_file_bytes [OF s1(3) assms(4)])
  have len: "off + length src \<le> length (file_bytes s ip)" using assms(4) by (simp add: file_bytes_def)
  have off: "off \<le> di_size (i_d (inodes s1 ip))" "off + length src < 2 ^ 32" "length src \<le> di_size (i_d (inodes s1 ip)) - off"
    using assms(4) file_small [OF assms(2)] k(1) by simp_all
  obtain s2 where "readi devsw ip off (length src) s1 = Inr (int (length src), slice off (length src) (file_bytes s1 ip), s2)"
    using readi_ok [OF s1(2) k(6) [OF assms(2)] off(1,2), of devsw] off(3) by (auto simp: min_absorb1)
  then have "readi devsw ip off (length src) s1 = Inr (int (length src), src, s2)" unfolding fb slice_patch [OF len] .
  moreover have "\<forall>b. (\<forall>bn. bn * BSIZE < di_size (i_d (inodes s ip)) \<longrightarrow> b \<noteq> blk_addr s ip bn) \<longrightarrow> view s1 b = view s b"
    using s1(3) unfolding wrote_def by blast
  ultimately show ?thesis using s1(1) fb by blast
qed

theorem writei_readi_roundtrip_witness:
  "\<exists>(s :: fs_st) s1 s2. writei (\<lambda>_. \<lparr>dev_read = None, dev_write = None\<rparr>) 0 [1, 2, 3, 4] 510 s = Inr (4, s1) \<and>
     readi (\<lambda>_. \<lparr>dev_read = None, dev_write = None\<rparr>) 0 510 4 s1 = Inr (4, [1, 2, 3, 4], s2)"
proof -
  obtain s :: fs_st where s: "tx 8 6 s" "file_ok 8 s 0" "file_sep s 0" "di_size (i_d (inodes s 0)) = 600"
    using small_file_addr by blast
  let ?dev = "\<lambda>_. \<lparr>dev_read = None, dev_write = None\<rparr>"
  have l: "length [1, 2, 3, 4 :: u8] = 4" by simp
  have "rounds 510 (length [1, 2, 3, 4 :: u8]) = 2" unfolding l by (simp add: rounds_def BSIZE_def)
  then have t: "tx 8 (rounds 510 (length [1, 2, 3, 4 :: u8]) + 4) s" using s(1) by simp
  have o4: "510 + length [1, 2, 3, 4 :: u8] \<le> di_size (i_d (inodes s 0))" unfolding s(4) by simp
  obtain s1 s2 where "writei ?dev 0 [1, 2, 3, 4] 510 s = Inr (int (length [1, 2, 3, 4 :: u8]), s1)"
      "readi ?dev 0 510 (length [1, 2, 3, 4 :: u8]) s1 = Inr (int (length [1, 2, 3, 4 :: u8]), [1, 2, 3, 4], s2)"
    using writei_readi_roundtrip [OF t s(2,3) o4, of ?dev] by blast
  then show ?thesis unfolding l of_nat_numeral by blast
qed

end
