(* ===== verification/Fs_Frame.thy ===== *)
theory Fs_Frame
  imports Fs
begin

section \<open>What the file system leaves alone\<close>

text \<open>
  Every routine of the storage layers that returns leaves the part of the state above it
  unchanged: block and log routines the inode cache and the rest (\<open>log_st.more\<close>), file system
  routines the file table and the rest (\<open>fs_st.more\<close>). No assumption on the state is needed.
  Routines that may call a device leave alone what the device does: locale \<open>fs_frame\<close> is
  the contract of the device table with the file system, and its lemmas are proved for every
  part \<open>keep\<close> of the state that the devices keep. The rules are collected in \<open>frame\<close>.
\<close>

subsection \<open>Definitions\<close>

named_theorems frame \<open>routines that keep the rest of the state\<close>

subsection \<open>Lemmas: blocks\<close>

lemma more_upd_buf [simp]: "bio.more (upd_buf i f s) = bio.more s" "bio.more (set_data i d s) = bio.more s" "bio.more (wake c s) = bio.more s"
  by (simp_all add: upd_buf_def set_data_def wake_def)

lemma iderw_more: "iderw b s = Inr s' \<Longrightarrow> bio.more s' = bio.more s"
  by (auto simp: iderw_def Let_def split: if_splits)

lemma bget_more: "bget d b s = Inr (i, s') \<Longrightarrow> bio.more s' = bio.more s"
  by (auto simp: bget_def split: option.splits if_splits)

lemma bread_more: "bread d b s = Inr (i, s') \<Longrightarrow> bio.more s' = bio.more s"
  by (auto simp: bread_def split: if_splits dest!: bget_more iderw_more)

lemma bwrite_more: "bwrite b s = Inr s' \<Longrightarrow> bio.more s' = bio.more s"
  by (auto simp: bwrite_def split: if_splits dest!: iderw_more)

lemma brelse_more: "brelse b s = Inr s' \<Longrightarrow> bio.more s' = bio.more s"
  by (auto simp: brelse_def Let_def split: if_splits)

text \<open>The same for the part above the log.\<close>

lemma log_more: "bio.more s' = bio.more s \<Longrightarrow> log_st.more s' = log_st.more s"
  by (cases s; cases s'; simp)

lemma fs_more: "log_st.more s' = log_st.more s \<Longrightarrow> fs_st.more s' = fs_st.more s"
  by (cases s; cases s'; simp)

lemmas bread_log = bread_more [THEN log_more] and bwrite_log = bwrite_more [THEN log_more] and brelse_log = brelse_more [THEN log_more]

lemma log_more_upd [simp]:
  "log_st.more (upd_buf i f s) = log_st.more s" "log_st.more (set_data i d s) = log_st.more s" "log_st.more (wake c s) = log_st.more s"
  by (simp_all add: upd_buf_def set_data_def wake_def)

lemma log_write_log: "log_write b s = Inr s' \<Longrightarrow> log_st.more s' = log_st.more s"
  by (auto simp: log_write_def Let_def split: if_splits)

lemma foldR_keeps:
  assumes "foldR f xs s = Inr s'" and "\<And>x s s'. f x s = Inr s' \<Longrightarrow> g s' = g s"
  shows "g s' = g s"
  using assms(1)
proof (induction xs arbitrary: s)
  case (Cons x xs)
  then obtain s1 where "f x s = Inr s1" "foldR f xs s1 = Inr s'" by auto
  then show ?case using Cons.IH assms(2) by metis
qed simp

lemma install_one_log: "install_one t s = Inr s' \<Longrightarrow> log_st.more s' = log_st.more s"
  by (auto simp: install_one_def dest!: bread_log bwrite_log brelse_log)

lemma write_log_one_log: "write_log_one t s = Inr s' \<Longrightarrow> log_st.more s' = log_st.more s"
  by (auto simp: write_log_one_def dest!: bread_log bwrite_log brelse_log)

lemma write_head_log: "write_head s = Inr s' \<Longrightarrow> log_st.more s' = log_st.more s"
  by (auto simp: write_head_def Let_def dest!: bread_log bwrite_log brelse_log)

lemma install_trans_log: "install_trans s = Inr s' \<Longrightarrow> log_st.more s' = log_st.more s"
  unfolding install_trans_def by (erule foldR_keeps [where g = log_st.more]) (rule install_one_log)

lemma write_log_log: "write_log s = Inr s' \<Longrightarrow> log_st.more s' = log_st.more s"
  unfolding write_log_def by (erule foldR_keeps [where g = log_st.more]) (rule write_log_one_log)

lemma commit_log: "commit s = Inr s' \<Longrightarrow> log_st.more s' = log_st.more s"
  by (auto simp: commit_def split: if_splits dest!: write_head_log install_trans_log write_log_log)

lemma begin_op_log: "begin_op s = Inr s' \<Longrightarrow> log_st.more s' = log_st.more s"
  by (auto simp: begin_op_def split: if_splits)

lemma end_op_log: "end_op s = Inr s' \<Longrightarrow> log_st.more s' = log_st.more s"
  by (auto simp: end_op_def Let_def split: if_splits dest!: commit_log)

lemma readsb_log: "readsb d s = Inr (sb, s') \<Longrightarrow> log_st.more s' = log_st.more s"
  by (auto simp: readsb_def Let_def dest!: bread_log brelse_log)

subsection \<open>Lemmas: the file system\<close>

lemmas block_frame [frame] = bread_log [THEN fs_more] brelse_log [THEN fs_more] log_write_log [THEN fs_more]
  begin_op_log [THEN fs_more] end_op_log [THEN fs_more] readsb_log [THEN fs_more]

lemma fs_more_upd [simp]:
  "fs_st.more (upd_buf i f s) = fs_st.more s" "fs_st.more (set_data i d s) = fs_st.more s" "fs_st.more (wake c s) = fs_st.more s"
  "fs_st.more (upd_inode ip g s) = fs_st.more s" "fs_st.more (upd_dinode ip h s) = fs_st.more s" "fs_st.more (set_addr ip j a s) = fs_st.more s"
  by (simp_all add: upd_buf_def set_data_def wake_def upd_inode_def upd_dinode_def set_addr_def)

lemma bzero_frame [frame]: "bzero d b s = Inr s' \<Longrightarrow> fs_st.more s' = fs_st.more s"
  by (auto simp: bzero_def dest!: frame)

lemma balloc_loop_frame: "balloc_loop d as s = Inr (b, s') \<Longrightarrow> fs_st.more s' = fs_st.more s"
  by (induction as arbitrary: s) (auto split: option.splits dest!: frame)

lemma balloc_frame [frame]: "balloc d s = Inr (b, s') \<Longrightarrow> fs_st.more s' = fs_st.more s"
  by (auto simp: balloc_def dest!: balloc_loop_frame)

lemma bfree_frame [frame]: "bfree d b s = Inr s' \<Longrightarrow> fs_st.more s' = fs_st.more s"
  by (auto simp: bfree_def Let_def split: if_splits dest!: frame)

lemma iget_frame [frame]: "iget d i s = Inr (ip, s') \<Longrightarrow> fs_st.more s' = fs_st.more s"
  by (auto simp: iget_def split: option.splits)

lemma ialloc_loop_frame: "ialloc_loop d t is s = Inr (ip, s') \<Longrightarrow> fs_st.more s' = fs_st.more s"
  by (induction "is" arbitrary: s) (auto simp: Let_def split: if_splits dest!: frame)

lemma ialloc_frame [frame]: "ialloc d t s = Inr (ip, s') \<Longrightarrow> fs_st.more s' = fs_st.more s"
  by (auto simp: ialloc_def dest!: ialloc_loop_frame)

lemma iupdate_frame [frame]: "iupdate ip s = Inr s' \<Longrightarrow> fs_st.more s' = fs_st.more s"
  by (auto simp: iupdate_def Let_def dest!: frame)

lemma idup_frame [frame]: "idup ip s = (ip', s') \<Longrightarrow> fs_st.more s' = fs_st.more s"
  by (auto simp: idup_def)

lemma ilock_frame [frame]: "ilock ip s = Inr s' \<Longrightarrow> fs_st.more s' = fs_st.more s"
  by (auto simp: ilock_def Let_def split: if_splits dest!: frame)

lemma iunlock_frame [frame]: "iunlock ip s = Inr s' \<Longrightarrow> fs_st.more s' = fs_st.more s"
  by (auto simp: iunlock_def split: if_splits)

lemma itrunc_direct_frame: "itrunc_direct ip i s = Inr s' \<Longrightarrow> fs_st.more s' = fs_st.more s"
  by (auto simp: itrunc_direct_def split: if_splits dest!: frame)

lemma itrunc_indirect_frame: "itrunc_indirect ip bp j s = Inr s' \<Longrightarrow> fs_st.more s' = fs_st.more s"
  by (auto simp: itrunc_indirect_def Let_def split: if_splits dest!: frame)

lemma foldR_itrunc_direct_frame: "foldR (itrunc_direct ip) xs s = Inr s' \<Longrightarrow> fs_st.more s' = fs_st.more s"
  by (erule foldR_keeps [where g = fs_st.more]) (rule itrunc_direct_frame)

lemma foldR_itrunc_indirect_frame: "foldR (itrunc_indirect ip bp) xs s = Inr s' \<Longrightarrow> fs_st.more s' = fs_st.more s"
  by (erule foldR_keeps [where g = fs_st.more]) (rule itrunc_indirect_frame)

lemma itrunc_frame [frame]: "itrunc ip s = Inr s' \<Longrightarrow> fs_st.more s' = fs_st.more s"
  by (auto simp: itrunc_def split: if_splits dest!: frame foldR_itrunc_direct_frame foldR_itrunc_indirect_frame)

lemma iput_frame [frame]: "iput ip s = Inr s' \<Longrightarrow> fs_st.more s' = fs_st.more s"
  by (auto simp: iput_def Let_def split: if_splits dest!: frame)

lemma iunlockput_frame [frame]: "iunlockput ip s = Inr s' \<Longrightarrow> fs_st.more s' = fs_st.more s"
  by (auto simp: iunlockput_def dest!: frame)

lemma bmap_frame [frame]: "bmap ip bn s = Inr (a, s') \<Longrightarrow> fs_st.more s' = fs_st.more s"
  by (auto simp: bmap_def Let_def split: if_splits dest!: frame)

lemma readi_loop_frame [frame]: "readi_loop ip off n s = Inr (b, s') \<Longrightarrow> fs_st.more s' = fs_st.more s"
proof (induction n arbitrary: off s b rule: less_induct)
  case (less n)
  show ?case
  proof (cases "n = 0")
    case False
    then have m: "n - chunk off n < n" using chunk_bounds(1) [of n off] by simp
    obtain s1 rest where "fs_st.more s1 = fs_st.more s" "readi_loop ip (off + chunk off n) (n - chunk off n) s1 = Inr (rest, s')"
      using less.prems False by (subst (asm) readi_loop.simps) (auto simp: Let_def dest!: frame)
    then show ?thesis using less.IH [OF m] by simp
  qed (use less.prems in \<open>simp add: readi_loop.simps\<close>)
qed

lemma writei_loop_frame [frame]: "writei_loop ip off src s = Inr s' \<Longrightarrow> fs_st.more s' = fs_st.more s"
proof (induction "length src" arbitrary: off s src rule: less_induct)
  case less
  show ?case
  proof (cases "src = []")
    case False
    then have m: "length (drop (chunk off (length src)) src) < length src" using chunk_bounds(1) [of "length src" off] by simp
    obtain s1 where "fs_st.more s1 = fs_st.more s" "writei_loop ip (off + chunk off (length src)) (drop (chunk off (length src)) src) s1 = Inr s'"
      using less.prems False by (subst (asm) writei_loop.simps) (auto simp: Let_def dest!: frame)
    then show ?thesis using less.hyps [OF m] by simp
  qed (use less.prems in \<open>simp add: writei_loop.simps\<close>)
qed

subsection \<open>Routines that may call a device\<close>

locale fs_frame =
  fixes keep :: "'a fs_st_scheme \<Rightarrow> 'x" and devsw :: "nat \<Rightarrow> 'a fs_st_scheme devsw"
  assumes above: "fs_st.more s' = fs_st.more s \<Longrightarrow> keep s' = keep s"
    and dev_read_keep: "dev_read (devsw m) = Some f \<Longrightarrow> f ip n s = Inr (r, b, s') \<Longrightarrow> keep s' = keep s"
    and dev_write_keep: "dev_write (devsw m) = Some g \<Longrightarrow> g ip src s = Inr (r', s') \<Longrightarrow> keep s' = keep s"
begin

lemmas fs_keep = frame [THEN above]

lemma upd_keep [simp]:
  "keep (upd_buf i h s) = keep s" "keep (set_data i d s) = keep s" "keep (wake c s) = keep s"
  "keep (upd_inode ip k s) = keep s" "keep (upd_dinode ip l s) = keep s"
  by (rule above, simp)+

lemma readi_keep: "readi devsw ip off n s = Inr (r, b, s') \<Longrightarrow> keep s' = keep s"
  by (auto simp: readi_def Let_def split: if_splits option.splits dest!: fs_keep dest: dev_read_keep)

lemma writei_keep: "writei devsw ip src off s = Inr (r, s') \<Longrightarrow> keep s' = keep s"
  by (auto simp: writei_def Let_def split: if_splits option.splits dest!: fs_keep dest: dev_write_keep)

lemma dirlookup_keep: "dirlookup devsw dp name s = Inr (r, s') \<Longrightarrow> keep s' = keep s"
proof -
  have "dirlookup_loop devsw dp name offs s = Inr (r, s') \<Longrightarrow> keep s' = keep s" for offs s
    by (induction offs arbitrary: s) (auto split: if_splits dest!: readi_keep fs_keep)
  then show "dirlookup devsw dp name s = Inr (r, s') \<Longrightarrow> keep s' = keep s"
    by (auto simp: dirlookup_def split: if_splits)
qed

lemma dirlink_loop_keep: "dirlink_loop devsw dp offs s = Inr (r, s') \<Longrightarrow> keep s' = keep s"
  by (induction offs arbitrary: s) (auto split: if_splits dest!: readi_keep)

lemma dirlink_keep: "dirlink devsw dp name inum s = Inr (r, s') \<Longrightarrow> keep s' = keep s"
  by (auto simp: dirlink_def Let_def split: if_splits option.splits
      dest!: dirlookup_keep dirlink_loop_keep writei_keep fs_keep)

lemma namex_loop_keep: "namex_loop devsw ip path parent name s = Inr (r, s') \<Longrightarrow> keep s' = keep s"
proof (induction "length path" arbitrary: ip path name parent s rule: less_induct)
  case less
  show ?case
  proof (cases "skipelem path")
    case None
    then show ?thesis using less.prems by (subst (asm) namex_loop.simps) (auto split: if_splits dest!: fs_keep)
  next
    case (Some x)
    obtain elem rest where x: "x = (elem, rest)" by (cases x)
    have l: "length rest < length path" using Some x skipelem_shorter by blast
    have run: "keep s' = keep s1" if "namex_loop devsw nxt rest par elem s1 = Inr (r, s')" for nxt par s1
      by (rule less.hyps [OF l that])
    show ?thesis
      using less.prems Some x
      by (subst (asm) namex_loop.simps)
        (auto split: if_splits option.splits dest!: run dirlookup_keep fs_keep)
  qed
qed

lemma namex_keep: "namex devsw cwd path parent s = Inr (r, s') \<Longrightarrow> keep s' = keep s"
  by (auto simp: namex_def idup_def split: if_splits dest!: namex_loop_keep fs_keep)

lemma namei_keep: "namei devsw cwd path s = Inr (r, s') \<Longrightarrow> keep s' = keep s"
  by (auto simp: namei_def dest!: namex_keep)

lemma nameiparent_keep: "nameiparent devsw cwd path s = Inr (r, s') \<Longrightarrow> keep s' = keep s"
  by (auto simp: nameiparent_def dest!: namex_keep)

lemmas keeps = readi_keep writei_keep dirlookup_keep dirlink_keep namei_keep nameiparent_keep fs_keep

end

end
