(* ===== verification/File_Inv.thy ===== *)
theory File_Inv
  imports Syscall Fs_Frame
begin

section \<open>The file table and the pipes behind it\<close>

text \<open>
  The invariant of the table of open files: an entry is typed exactly while it is in use, every
  open pipe entry has its end of the pipe open, no two entries share an end, an end is open only
  while an entry has it, and the page of a pipe in use is not on the free list of the page
  allocator. \<open>file_op\<close> is one operation of file.c or pipe.c by any process, in any order; the
  device table is the console's. The lemmas show that each operation keeps the invariant, and
  that closing a pipe cannot fail.
\<close>

subsection \<open>Definitions\<close>

definition is_end :: "(nat \<Rightarrow> file_ent) \<Rightarrow> nat \<Rightarrow> u32 \<Rightarrow> bool \<Rightarrow> bool" where
  "is_end F f a w \<longleftrightarrow> f_type (F f) = FD_PIPE \<and> f_pipe (F f) = a \<and> f_writable (F f) = w"

definition end_open :: "bool \<Rightarrow> pipe \<Rightarrow> bool" where
  "end_open w p = (if w then pi_writeopen p else pi_readopen p)"

definition entry_ok :: "file_ent \<Rightarrow> bool" where
  "entry_ok x \<longleftrightarrow> 0 \<le> f_ref x \<and> (f_ref x = 0 \<longrightarrow> f_type x = FD_NONE) \<and> (f_type x = FD_PIPE \<longrightarrow> f_readable x = (\<not> f_writable x))"

definition ends_ok :: "(nat \<Rightarrow> file_ent) \<Rightarrow> (u32 \<Rightarrow> pipe) \<Rightarrow> bool" where
  "ends_ok F P \<longleftrightarrow>
     (\<forall>f a w. is_end F f a w \<longrightarrow> end_open w (P a)) \<and>
     (\<forall>f g a w. is_end F f a w \<longrightarrow> is_end F g a w \<longrightarrow> f = g) \<and>
     (\<forall>f a w v. is_end F f a w \<longrightarrow> end_open v (P a) \<longrightarrow> (\<exists>g. is_end F g a v))"

definition pages_apart :: "(nat \<Rightarrow> file_ent) \<Rightarrow> kmem \<Rightarrow> bool" where
  "pages_apart F K \<longleftrightarrow> (\<exists>vs. pages_rep K vs \<and> (\<forall>f a w. is_end F f a w \<longrightarrow> a \<notin> set vs \<and> page_ok (km_end K) a))"

definition ftable_ok :: "(nat \<Rightarrow> file_ent) \<Rightarrow> (u32 \<Rightarrow> pipe) \<Rightarrow> kmem \<Rightarrow> bool" where
  "ftable_ok F P K \<longleftrightarrow> (\<forall>f. entry_ok (F f)) \<and> ends_ok F P \<and> pages_apart F K"

definition files_ok :: "'a file_st_scheme \<Rightarrow> bool" where
  "files_ok s \<longleftrightarrow> ftable_ok (files s) (pipes s) (kmem_of s)"

text \<open>The part of the state the invariant is about.\<close>

definition file_part :: "'a file_st_scheme \<Rightarrow> (nat \<Rightarrow> file_ent) \<times> (u32 \<Rightarrow> pipe) \<times> kmem" where
  "file_part s = (files s, pipes s, kmem_of s)"

text \<open>One operation. \<open>op_open\<close> is the last step of \<open>sys_open\<close>, on an entry that
  \<open>filealloc\<close> returned.\<close>

inductive file_op :: "'a cons_st_scheme \<Rightarrow> 'a cons_st_scheme \<Rightarrow> bool" where
  op_alloc: "filealloc s = (r, s') \<Longrightarrow> file_op s s'"
| op_open: "f_type (files s f) = FD_NONE \<Longrightarrow> 0 < f_ref (files s f) \<Longrightarrow>
    file_op s (upd_file f (\<lambda>x. x\<lparr>f_type := FD_INODE, f_ip := ip, f_off := 0, f_readable := rd', f_writable := wr'\<rparr>) s)"
| op_dup: "filedup f s = Inr (f', s') \<Longrightarrow> file_op s s'"
| op_close: "fileclose f s = Inr s' \<Longrightarrow> file_op s s'"
| op_stat: "filestat f s = Inr (st, s') \<Longrightarrow> file_op s s'"
| op_read: "fileread (cons_devsw killed) killed f n s = Inr (r, bytes, s') \<Longrightarrow> file_op s s'"
| op_write: "filewrite (cons_devsw killed) killed f addr n s = Inr (r, s') \<Longrightarrow> file_op s s'"
| op_pipe: "pipealloc s = Inr (r, s') \<Longrightarrow> file_op s s'"
| op_kalloc: "kalloc_s s = (v, s') \<Longrightarrow> file_op s s'"

text \<open>An allocator with one free page.\<close>

definition one_page :: kmem where
  "one_page = \<lparr>km_mem = \<lambda>_. 0, km_use_lock = False, km_freelist = 0x80113000, km_end = 0x80112345\<rparr>"

subsection \<open>Lemmas: the part of the state\<close>

lemma file_partD: "file_part s' = file_part s \<Longrightarrow> files s' = files s" "file_part s' = file_part s \<Longrightarrow> pipes s' = pipes s"
  "file_part s' = file_part s \<Longrightarrow> kmem_of s' = kmem_of s"
  by (simp_all add: file_part_def)

lemma file_part_ok: "file_part s' = file_part s \<Longrightarrow> files_ok s' = files_ok s"
  by (simp add: files_ok_def file_part_def)

lemma wake_files [simp]: "files (fold wake ws s) = files s" "pipes (fold wake ws s) = pipes s" "kmem_of (fold wake ws s) = kmem_of s"
  by (induction ws arbitrary: s) (simp_all add: wake_def)

lemma upd_pipe_files [simp]: "files (upd_pipe a r s) = files s" "pipes (upd_pipe a r s) = (pipes s)(a := fst r)" "kmem_of (upd_pipe a r s) = kmem_of s"
  by (simp_all add: upd_pipe_def)

lemma upd_file_files [simp]: "files (upd_file f g s) = (files s)(f := g (files s f))" "pipes (upd_file f g s) = pipes s" "kmem_of (upd_file f g s) = kmem_of s"
  by (simp_all add: upd_file_def)

lemma fs_file_part: "fs_st.more s' = fs_st.more s \<Longrightarrow> file_part s' = file_part s"
  by (cases s; cases s'; simp add: file_part_def)

lemma uartputc_part [simp]: "file_part (uartputc c s) = file_part s" "file_part (upd_input f s) = file_part s"
  by (simp_all add: file_part_def uartputc_def upd_input_def)

lemma consputc_part: "consputc c s = Inr s' \<Longrightarrow> file_part s' = file_part s"
proof -
  have c: "cgaputc d t = Inr s' \<Longrightarrow> file_part s' = file_part t" for d t
    by (auto simp: cgaputc_def Let_def file_part_def split: if_splits)
  show "consputc c s = Inr s' \<Longrightarrow> file_part s' = file_part s"
    by (auto simp: consputc_def split: if_splits dest!: c)
qed

lemma consputs_part: "foldR (\<lambda>c. consputc (uint c)) cs s = Inr s' \<Longrightarrow> file_part s' = file_part s"
  by (erule foldR_keeps [where g = file_part]) (rule consputc_part)

interpretation cons_frame: fs_frame file_part "cons_devsw killed" for killed :: bool
proof
  fix s s' :: "'a cons_st_scheme"
  show "fs_st.more s' = fs_st.more s \<Longrightarrow> file_part s' = file_part s" by (rule fs_file_part)
next
  fix m f ip n r b and s s' :: "'a cons_st_scheme"
  assume "dev_read (cons_devsw killed m) = Some f" and "f ip n s = Inr (r, b, s')"
  then show "file_part s' = file_part s"
    by (auto simp: cons_devsw_def consoleread_def Let_def split: if_splits read_end.splits prod.splits
        dest!: ilock_frame [THEN fs_file_part] iunlock_frame [THEN fs_file_part])
next
  fix m g ip src r' and s s' :: "'a cons_st_scheme"
  assume "dev_write (cons_devsw killed m) = Some g" and "g ip src s = Inr (r', s')"
  then show "file_part s' = file_part s"
    by (auto simp: cons_devsw_def consolewrite_def split: if_splits
        dest!: consputs_part ilock_frame [THEN fs_file_part] iunlock_frame [THEN fs_file_part])
qed

subsection \<open>Lemmas: the invariant\<close>

lemma ends_okD:
  "ends_ok F P \<Longrightarrow> is_end F f a w \<Longrightarrow> end_open w (P a)"
  "ends_ok F P \<Longrightarrow> is_end F f a w \<Longrightarrow> is_end F g a w \<Longrightarrow> f = g"
  "ends_ok F P \<Longrightarrow> is_end F f a w \<Longrightarrow> end_open v (P a) \<Longrightarrow> \<exists>g. is_end F g a v"
  unfolding ends_ok_def by blast+

text \<open>A change that leaves the pipe entries alone.\<close>

lemma same_ends:
  assumes "ftable_ok F P K" and "entry_ok x" and "f_type (F f) \<noteq> FD_PIPE" and "f_type x \<noteq> FD_PIPE"
  shows "ftable_ok (F(f := x)) P K"
proof -
  have "is_end (F(f := x)) = is_end F" using assms(3,4) by (auto simp: is_end_def fun_eq_iff)
  then show ?thesis using assms(1,2) by (simp add: ftable_ok_def ends_ok_def pages_apart_def)
qed

lemma same_pipe_entry:
  assumes "ftable_ok F P K" and "entry_ok x" and "f_type x = f_type (F f)" and "f_pipe x = f_pipe (F f)" and "f_writable x = f_writable (F f)"
  shows "ftable_ok (F(f := x)) P K"
proof -
  have "is_end (F(f := x)) = is_end F" using assms(3-5) by (auto simp: is_end_def fun_eq_iff)
  then show ?thesis using assms(1,2) by (simp add: ftable_ok_def ends_ok_def pages_apart_def)
qed

lemma same_open:
  assumes "ftable_ok F P K" and "pi_readopen p = pi_readopen (P a)" and "pi_writeopen p = pi_writeopen (P a)"
  shows "ftable_ok F (P(a := p)) K"
proof -
  have "end_open w ((P(a := p)) b) = end_open w (P b)" for w b using assms(2,3) by (simp add: end_open_def)
  then show ?thesis using assms(1) unfolding ftable_ok_def ends_ok_def by simp
qed

text \<open>Allocating a page.\<close>

lemma kalloc_ok:
  assumes "ftable_ok F P K" and "kalloc K = (v, K')"
  shows "ftable_ok F P K'" and "v \<noteq> 0 \<Longrightarrow> page_ok (km_end K') v" and "v \<noteq> 0 \<Longrightarrow> \<not> is_end F f v w"
    and "\<exists>vs. pages_rep K' vs \<and> v \<notin> set vs \<and> (\<forall>f a w. is_end F f a w \<longrightarrow> a \<notin> set vs)"
proof -
  obtain vs where vs: "pages_rep K vs" "\<And>f a w. is_end F f a w \<Longrightarrow> a \<notin> set vs \<and> page_ok (km_end K) a"
    using assms(1) unfolding ftable_ok_def pages_apart_def by blast
  note r = kalloc_rep [OF vs(1)]
  have rep: "pages_rep K' (tl vs)" and e: "km_end K' = km_end K" using r(2) kalloc_mem(2) [of K] assms(2) by simp_all
  have v: "v = (if vs = [] then 0 else hd vs)" using r(1) assms(2) by (simp split: if_splits)
  have tl: "set (tl vs) \<subseteq> set vs" by (cases vs) auto
  have apart: "a \<notin> set (tl vs)" if "is_end F f a w" for f a w using vs(2) [OF that] tl by blast
  show "ftable_ok F P K'" using assms(1) rep apart vs(2) e unfolding ftable_ok_def pages_apart_def by metis
  have nz: "v \<noteq> 0 \<Longrightarrow> vs \<noteq> [] \<and> v = hd vs" using v by (simp split: if_splits)
  show "v \<noteq> 0 \<Longrightarrow> page_ok (km_end K') v" using nz vs(1) e by (simp add: pages_rep_def)
  show "v \<noteq> 0 \<Longrightarrow> \<not> is_end F f v w" using nz vs(2) hd_in_set by metis
  have "v \<notin> set (tl vs)"
  proof (cases vs)
    case Nil
    then show ?thesis by simp
  next
    case (Cons x xs)
    then show ?thesis using vs(1) v by (simp add: pages_rep_def)
  qed
  then show "\<exists>vs. pages_rep K' vs \<and> v \<notin> set vs \<and> (\<forall>f a w. is_end F f a w \<longrightarrow> a \<notin> set vs)" using rep apart by blast
qed

text \<open>Closing an end: when the other one is closed too, the page goes back to the allocator.\<close>

lemma close_end_open: "end_open v (fst (pipeclose_end n w p)) = (end_open v p \<and> v \<noteq> w)"
  by (auto simp: end_open_def pipeclose_end_def)

lemma close_ends:
  assumes ok: "ends_ok F P" and f: "is_end F f a w" and x: "f_type x \<noteq> FD_PIPE"
  shows "ends_ok (F(f := x)) (P(a := fst (pipeclose_end n w (P a))))"
proof -
  let ?F = "F(f := x)" and ?P = "P(a := fst (pipeclose_end n w (P a)))"
  have e: "is_end ?F g b v \<longleftrightarrow> is_end F g b v \<and> g \<noteq> f" for g b v using x by (auto simp: is_end_def)
  have o: "end_open v (?P b) \<longleftrightarrow> end_open v (P b) \<and> \<not> (b = a \<and> v = w)" for v b by (auto simp: close_end_open)
  have only: "is_end F g b v \<Longrightarrow> g \<noteq> f \<Longrightarrow> \<not> (b = a \<and> v = w)" for g b v using ends_okD(2) [OF ok f] by blast
  have "end_open v (?P b)" if "is_end ?F g b v" for g b v
    using that only ends_okD(1) [OF ok] unfolding e o by blast
  moreover have "g = h" if "is_end ?F g b v" "is_end ?F h b v" for g h b v
    using that ends_okD(2) [OF ok] unfolding e by blast
  moreover have "\<exists>h. is_end ?F h b u" if g: "is_end ?F g b v" and u: "end_open u (?P b)" for g b v u
  proof -
    obtain h where h: "is_end F h b u" using ends_okD(3) [OF ok] g u unfolding e o by blast
    have "h \<noteq> f" using h f u unfolding o by (auto simp: is_end_def)
    then show ?thesis using h unfolding e by blast
  qed
  ultimately show ?thesis unfolding ends_ok_def by blast
qed

lemma close_pipe_ok:
  fixes n :: nat
  assumes ok: "ftable_ok F P K" and f: "is_end F f a w" and x: "f_type x \<noteq> FD_PIPE" "entry_ok x"
  defines "F' \<equiv> F(f := x)" and "P' \<equiv> P(a := fst (pipeclose_end n w (P a)))"
  shows "ftable_ok F' P' K"
    and "\<not> end_open False (P' a) \<Longrightarrow> \<not> end_open True (P' a) \<Longrightarrow> \<exists>K'. kfree a K = Inr K' \<and> ftable_ok F' P' K'"
proof -
  obtain vs where vs: "pages_rep K vs" "\<And>f a w. is_end F f a w \<Longrightarrow> a \<notin> set vs \<and> page_ok (km_end K) a"
    using ok unfolding ftable_ok_def pages_apart_def by blast
  have ends: "ends_ok F' P'" using close_ends [OF _ f x(1)] ok unfolding F'_def P'_def ftable_ok_def by blast
  have entries: "\<forall>f. entry_ok (F' f)" using ok x(2) by (simp add: ftable_ok_def F'_def)
  have e: "is_end F g b v" if "is_end F' g b v" for g b v using that x(1) by (auto simp: is_end_def F'_def split: if_splits)
  show "ftable_ok F' P' K" using ends entries vs e unfolding ftable_ok_def pages_apart_def by meson
  assume closed: "\<not> end_open False (P' a)" "\<not> end_open True (P' a)"
  have none: "\<not> is_end F' g a v" for g v using ends_okD(1) [OF ends, of g a v] closed by (cases v) auto
  obtain K' where K': "kfree a K = Inr K'" "pages_rep K' (a # vs)" "km_end K' = km_end K"
    using kfree_rep [OF vs(1)] vs(2) [OF f] by blast
  have "b \<notin> set (a # vs) \<and> page_ok (km_end K') b" if "is_end F' g b v" for g b v
    using vs(2) [OF e [OF that]] none that K'(3) by auto
  then show "\<exists>K'. kfree a K = Inr K' \<and> ftable_ok F' P' K'"
    using K'(1,2) ends entries unfolding ftable_ok_def pages_apart_def by blast
qed

text \<open>A new pipe on two unused entries.\<close>

lemma new_pipe_ok:
  assumes ok: "ftable_ok F P K" and k: "kalloc K = (a, K')" "a \<noteq> 0" and f: "f0 \<noteq> f1" "f_type (F f0) \<noteq> FD_PIPE" "f_type (F f1) \<noteq> FD_PIPE"
    and x0: "f_type x0 = FD_PIPE" "f_pipe x0 = a" "\<not> f_writable x0" "entry_ok x0"
    and x1: "f_type x1 = FD_PIPE" "f_pipe x1 = a" "f_writable x1" "entry_ok x1"
    and p: "pi_readopen p" "pi_writeopen p"
  shows "ftable_ok (F(f0 := x0, f1 := x1)) (P(a := p)) K'"
proof -
  let ?F = "F(f0 := x0, f1 := x1)" and ?P = "P(a := p)"
  note k' = kalloc_ok [OF ok k(1)]
  have ends: "ends_ok F P" and entries: "\<And>f. entry_ok (F f)" using ok by (auto simp: ftable_ok_def)
  have e: "is_end ?F g b v \<longleftrightarrow> (is_end F g b v \<and> b \<noteq> a) \<or> (b = a \<and> g = (if v then f1 else f0))" for g b v
    using f x0(1-3) x1(1-3) k'(3) [OF k(2)] unfolding is_end_def by (cases "g = f0"; cases "g = f1"; cases v) auto
  have o: "end_open v (?P a)" for v using p by (simp add: end_open_def)
  have "end_open v (?P b)" if "is_end ?F g b v" for g b v
    using that ends_okD(1) [OF ends] o unfolding e by (cases "b = a") auto
  moreover have "g = h" if "is_end ?F g b v" "is_end ?F h b v" for g h b v
    using that ends_okD(2) [OF ends] unfolding e by blast
  moreover have "\<exists>h. is_end ?F h b u" if g: "is_end ?F g b v" and u: "end_open u (?P b)" for g b v u
  proof (cases "b = a")
    case False
    then show ?thesis using g u ends_okD(3) [OF ends] unfolding e by auto
  qed (simp add: e)
  ultimately have "ends_ok ?F ?P" unfolding ends_ok_def by blast
  moreover have "\<forall>f. entry_ok (?F f)" using entries x0(4) x1(4) by simp
  moreover have "pages_apart ?F K'"
  proof -
    obtain vs where vs: "pages_rep K' vs" "a \<notin> set vs" "\<And>f b w. is_end F f b w \<Longrightarrow> b \<notin> set vs" using k'(4) by blast
    have "page_ok (km_end K') b" if h: "is_end F f b w" for f b w
    proof -
      obtain ws where ws: "pages_rep K' ws" "\<And>f b w. is_end F f b w \<Longrightarrow> b \<notin> set ws \<and> page_ok (km_end K') b"
        using k'(1) unfolding ftable_ok_def pages_apart_def by blast
      then show ?thesis using h by blast
    qed
    then show ?thesis using vs k'(2) [OF k(2)] unfolding pages_apart_def e by blast
  qed
  ultimately show ?thesis by (simp add: ftable_ok_def)
qed

subsection \<open>Lemmas: operations\<close>

lemma pipewrite_open: "pipewrite a killed addr n p = (r, p', ws) \<Longrightarrow> pi_readopen p' = pi_readopen p \<and> pi_writeopen p' = pi_writeopen p"
proof -
  have "pipewrite_loop a killed n cs p ws = (r, p', ws') \<Longrightarrow> pi_readopen p' = pi_readopen p \<and> pi_writeopen p' = pi_writeopen p" for cs p ws ws'
    by (induction cs arbitrary: p ws) (auto split: if_splits)
  then show "pipewrite a killed addr n p = (r, p', ws) \<Longrightarrow> ?thesis" by (simp add: pipewrite_def)
qed

lemma piperead_open: "piperead a killed n p = (r, bytes, p', ws) \<Longrightarrow> pi_readopen p' = pi_readopen p \<and> pi_writeopen p' = pi_writeopen p"
proof -
  have "piperead_copy k p = (bs, p') \<Longrightarrow> pi_readopen p' = pi_readopen p \<and> pi_writeopen p' = pi_writeopen p" for k p bs p'
    by (induction k arbitrary: p bs) (auto simp: Let_def split: if_splits prod.splits)
  then show "piperead a killed n p = (r, bytes, p', ws) \<Longrightarrow> ?thesis" by (auto simp: piperead_def split: if_splits prod.splits)
qed

lemma files_okD: "files_ok s \<Longrightarrow> entry_ok (files s f)"
  by (simp add: files_ok_def ftable_ok_def)

lemma filealloc_cases:
  assumes "filealloc s = (r, s')"
  obtains (none) "r = None" "s' = s"
  | (some) f where "r = Some f" "f < NFILE" "f_ref (files s f) = 0" "s' = upd_file f (\<lambda>x. x\<lparr>f_ref := 1\<rparr>) s"
proof (cases "List.find (\<lambda>f. f_ref (files s f) = 0) [0..<NFILE]")
  case None
  then show ?thesis using assms none by (simp add: filealloc_def)
next
  case (Some f)
  then have "f < NFILE" "f_ref (files s f) = 0" using find_SomeD [OF Some] by simp_all
  moreover have "r = Some f" "s' = upd_file f (\<lambda>x. x\<lparr>f_ref := 1\<rparr>) s" using assms Some by (simp_all add: filealloc_def)
  ultimately show ?thesis using some by blast
qed

lemma filealloc_ok:
  assumes ok: "files_ok s" and run: "filealloc s = (r, s')"
  shows "files_ok s'"
  using run
proof (cases rule: filealloc_cases)
  case (some f)
  then have "f_type (files s f) = FD_NONE" using files_okD [OF ok, of f] by (simp add: entry_ok_def)
  then show ?thesis using ok some unfolding files_ok_def by (auto intro: same_ends simp: entry_ok_def)
qed (use ok in simp)

lemma filedup_ok: "files_ok s \<Longrightarrow> filedup f s = Inr (f', s') \<Longrightarrow> files_ok s'"
  using files_okD [of s f]
  by (auto simp: filedup_def files_ok_def entry_ok_def split: if_splits intro!: same_pipe_entry)

lemma kalloc_s_ok: "files_ok s \<Longrightarrow> kalloc_s s = (v, s') \<Longrightarrow> files_ok s'"
  using kalloc_ok(1) [of "files s" "pipes s" "kmem_of s"]
  by (auto simp: kalloc_s_def files_ok_def split: prod.splits)

lemma pipeclose_ok:
  assumes ok: "files_ok s" and f: "is_end (files s) f a w" and x: "f_type x \<noteq> FD_PIPE" "entry_ok x"
    and t: "files t = (files s)(f := x)" "pipes t = pipes s" "kmem_of t = kmem_of s"
  shows "\<exists>s'. pipeclose a w t = Inr s' \<and> files_ok s'"
proof -
  note c = close_pipe_ok [OF ok [unfolded files_ok_def] f x, of "unat a"]
  show ?thesis
  proof (cases "\<not> end_open False (fst (pipeclose_end (unat a) w (pipes s a))) \<and> \<not> end_open True (fst (pipeclose_end (unat a) w (pipes s a)))")
    case True
    then obtain K' where "kfree a (kmem_of s) = Inr K'"
        "ftable_ok ((files s)(f := x)) ((pipes s)(a := fst (pipeclose_end (unat a) w (pipes s a)))) K'" using c(2) by auto
    then show ?thesis using True t by (auto simp: pipeclose_def Let_def end_open_def kfree_s_def files_ok_def)
  next
    case False
    then show ?thesis using c(1) t by (auto simp: pipeclose_def Let_def end_open_def files_ok_def)
  qed
qed

lemma fileclose_cases:
  assumes ok: "files_ok s" and ref: "0 < f_ref (files s f)"
  shows "(\<exists>s'. fileclose f s = Inr s' \<and> files_ok s') \<or>
    (f_type (files s f) = FD_INODE \<and> (\<forall>s'. fileclose f s = Inr s' \<longrightarrow> files_ok s'))"
proof (cases "1 < f_ref (files s f)")
  case True
  have "files_ok (upd_file f (\<lambda>x. x\<lparr>f_ref := f_ref x - 1\<rparr>) s)"
    using ok True files_okD [OF ok, of f] unfolding files_ok_def by (auto simp: entry_ok_def intro!: same_pipe_entry)
  then show ?thesis using True by (simp add: fileclose_def Let_def)
next
  case False
  then have r: "f_ref (files s f) = 1" using ref by simp
  let ?x = "(files s f)\<lparr>f_ref := 0, f_type := FD_NONE\<rparr>" and ?t = "upd_file f (\<lambda>x. x\<lparr>f_ref := 0, f_type := FD_NONE\<rparr>) (upd_file f (\<lambda>x. x\<lparr>f_ref := f_ref x - 1\<rparr>) s)"
  have x: "f_type ?x \<noteq> FD_PIPE" "entry_ok ?x" by (simp_all add: entry_ok_def)
  have t: "files ?t = (files s)(f := ?x)" "pipes ?t = pipes s" "kmem_of ?t = kmem_of s" by simp_all
  show ?thesis
  proof (cases "f_type (files s f)")
    case FD_NONE
    then have "files_ok ?t" using ok x unfolding files_ok_def t by (auto intro!: same_ends)
    then show ?thesis using FD_NONE r by (simp add: fileclose_def Let_def)
  next
    case FD_PIPE
    then have "is_end (files s) f (f_pipe (files s f)) (f_writable (files s f))" by (simp add: is_end_def)
    then show ?thesis using pipeclose_ok [OF ok _ x t] FD_PIPE r by (simp add: fileclose_def Let_def)
  next
    case FD_INODE
    then have "files_ok ?t" using ok x unfolding files_ok_def t by (auto intro!: same_ends)
    moreover have "file_part s' = file_part ?t" if "fileclose f s = Inr s'" for s'
      using that FD_INODE r by (auto simp: fileclose_def Let_def dest!: frame [THEN fs_file_part])
    ultimately show ?thesis using FD_INODE file_part_ok by blast
  qed
qed

lemma fileclose_ok: "files_ok s \<Longrightarrow> fileclose f s = Inr s' \<Longrightarrow> files_ok s'"
  using fileclose_cases [of s f] by (force simp: fileclose_def split: if_splits)

lemma fileclose_pipe: "files_ok s \<Longrightarrow> f_type (files s f) = FD_PIPE \<Longrightarrow> \<exists>s'. fileclose f s = Inr s'"
  using fileclose_cases [of s f] files_okD [of s f] by (force simp: entry_ok_def)

lemma filestat_ok: "files_ok s \<Longrightarrow> filestat f s = Inr (st, s') \<Longrightarrow> files_ok s'"
  by (auto simp: filestat_def Let_def split: if_splits dest!: frame [THEN fs_file_part, THEN file_part_ok])

lemma upd_pipe_ok:
  "files_ok s \<Longrightarrow> pi_readopen p = pi_readopen (pipes s a) \<Longrightarrow> pi_writeopen p = pi_writeopen (pipes s a) \<Longrightarrow> files_ok (upd_pipe a (p, ws) s)"
  by (simp add: files_ok_def same_open)

lemma upd_off_ok: "files_ok s \<Longrightarrow> files_ok (upd_file f (\<lambda>x. x\<lparr>f_off := g x\<rparr>) s)"
  using files_okD [of s f] by (auto simp: files_ok_def entry_ok_def intro!: same_pipe_entry)

lemmas part_ok = cons_frame.keeps [THEN file_part_ok]

lemma fileread_ok: "files_ok s \<Longrightarrow> fileread (cons_devsw killed) killed f n s = Inr (r, bytes, s') \<Longrightarrow> files_ok s'"
  by (auto simp: fileread_def Let_def split: if_splits fd_type.splits prod.splits
      dest!: piperead_open part_ok intro: upd_pipe_ok simp: upd_off_ok)

lemma filewrite_loop_ok: "files_ok s \<Longrightarrow> filewrite_loop (cons_devsw killed) f addr s = Inr (r, s') \<Longrightarrow> files_ok s'"
proof (induction "length addr" arbitrary: addr s rule: less_induct)
  case less
  show ?case
  proof (cases "addr = []")
    case True
    then show ?thesis using less.prems by (simp add: filewrite_loop.simps)
  next
    case False
    have l: "length (drop fw_max addr) < length addr" using False by (simp add: fw_max_def LOGSIZE_def MAXOPBLOCKS_def)
    have run: "filewrite_loop (cons_devsw killed) f (drop fw_max addr) s1 = Inr (r, s') \<Longrightarrow> files_ok s1 \<Longrightarrow> files_ok s'" for s1
      by (rule less.hyps [OF l])
    have "fw_max \<noteq> 0" by (simp add: fw_max_def LOGSIZE_def MAXOPBLOCKS_def)
    show ?thesis
      using less.prems False \<open>fw_max \<noteq> 0\<close>
      by (subst (asm) filewrite_loop.simps)
        (auto simp: Let_def upd_off_ok split: if_splits dest!: run part_ok)
  qed
qed

lemma filewrite_ok: "files_ok s \<Longrightarrow> filewrite (cons_devsw killed) killed f addr n s = Inr (r, s') \<Longrightarrow> files_ok s'"
  by (auto simp: filewrite_def Let_def split: if_splits fd_type.splits prod.splits
      dest!: pipewrite_open intro: upd_pipe_ok filewrite_loop_ok)

lemma pipealloc_bad_ok: "files_ok s \<Longrightarrow> pipealloc_bad f0 f1 s = Inr (r, s') \<Longrightarrow> files_ok s'"
  by (cases f0; cases f1) (auto simp: pipealloc_bad_def dest: fileclose_ok)

lemma pipealloc_ok:
  assumes ok: "files_ok s" and run: "pipealloc s = Inr (r, s')"
  shows "files_ok s'"
proof -
  obtain r0 s0 where a0: "filealloc s = (r0, s0)" by (cases "filealloc s")
  obtain r1 s1 where a1: "filealloc s0 = (r1, s1)" by (cases "filealloc s0")
  obtain a s2 where k: "kalloc_s s1 = (a, s2)" by (cases "kalloc_s s1")
  have ok0: "files_ok s0" by (rule filealloc_ok [OF ok a0])
  have ok1: "files_ok s1" by (rule filealloc_ok [OF ok0 a1])
  have ok2: "files_ok s2" by (rule kalloc_s_ok [OF ok1 k])
  show ?thesis
  proof (cases "r0 = None \<or> r1 = None \<or> a = 0")
    case True
    then show ?thesis using run a0 a1 k pipealloc_bad_ok ok0 ok1 ok2
      by (cases r0; cases r1) (auto simp: pipealloc_def split: if_splits)
  next
    case False
    then obtain f0 f1 where f: "r0 = Some f0" "r1 = Some f1" "a \<noteq> 0" by auto
    have s0: "f_ref (files s f0) = 0" "s0 = upd_file f0 (\<lambda>x. x\<lparr>f_ref := 1\<rparr>) s" using a0 f(1) by (auto elim: filealloc_cases)
    have s1: "f_ref (files s0 f1) = 0" "s1 = upd_file f1 (\<lambda>x. x\<lparr>f_ref := 1\<rparr>) s0" using a1 f(2) by (auto elim: filealloc_cases)
    have ne: "f0 \<noteq> f1" using s0 s1 by auto
    have ty: "f_type (files s f0) = FD_NONE" "f_type (files s0 f1) = FD_NONE"
      using files_okD [OF ok, of f0] files_okD [OF ok0, of f1] s0 s1 by (simp_all add: entry_ok_def)
    obtain K' where K: "kalloc (kmem_of s1) = (a, K')" "s2 = s1\<lparr>kmem_of := K'\<rparr>"
      using k by (auto simp: kalloc_s_def split: prod.splits)
    have r: "f_ref (files s1 f0) = 1" "f_ref (files s1 f1) = 1" using s0 s1 ne by simp_all
    have "ftable_ok (files s') (pipes s') (kmem_of s')"
      using new_pipe_ok [OF ok1 [unfolded files_ok_def] K(1) f(3) ne] s0 s1 ne ty run a0 a1 k f K r
      by (auto simp: pipealloc_def Let_def entry_ok_def pipe_new_def)
    then show ?thesis by (simp add: files_ok_def)
  qed
qed

lemma file_op_ok: "file_op s s' \<Longrightarrow> files_ok s \<Longrightarrow> files_ok s'"
proof (induction rule: file_op.induct)
  case (op_open s f ip rd' wr')
  then show ?case unfolding files_ok_def by (auto intro!: same_ends simp: entry_ok_def)
qed (blast intro: filealloc_ok filedup_ok fileclose_ok filestat_ok fileread_ok filewrite_ok pipealloc_ok kalloc_s_ok)+

lemma file_ops_ok: "file_op\<^sup>*\<^sup>* s s' \<Longrightarrow> files_ok s \<Longrightarrow> files_ok s'"
  by (induction rule: rtranclp_induct) (blast intro: file_op_ok)+

lemma boot_files_ok: "(\<And>f. f_type (files s f) = FD_NONE \<and> f_ref (files s f) = 0) \<Longrightarrow> pages_rep (kmem_of s) vs \<Longrightarrow> files_ok s"
  by (auto simp: files_ok_def ftable_ok_def entry_ok_def ends_ok_def pages_apart_def is_end_def)

subsection \<open>Properties\<close>

text \<open>
  C5: However operations on files interleave, the file table stays well typed: a count is never
  negative and an unused entry has no type; an entry for a pipe is readable or writable but not
  both, its end of the pipe is open, no other entry has that end, and an end of its pipe is open
  only while an entry has it. The page of such a pipe is never on the free list, so no pipe in
  use is handed out again, and closing the entry returns.
\<close>

theorem files_well_typed:
  assumes "file_op\<^sup>*\<^sup>* s0 s" and "\<forall>f. f_type (files s0 f) = FD_NONE \<and> f_ref (files s0 f) = 0" and "pages_rep (kmem_of s0) vs"
  shows "(\<forall>f. 0 \<le> f_ref (files s f) \<and> (f_ref (files s f) = 0 \<longrightarrow> f_type (files s f) = FD_NONE)) \<and>
    (\<forall>f a w. is_end (files s) f a w \<longrightarrow>
       f_readable (files s f) = (\<not> w) \<and> end_open w (pipes s a) \<and> (\<forall>g. is_end (files s) g a w \<longrightarrow> g = f) \<and>
       (end_open (\<not> w) (pipes s a) \<longrightarrow> (\<exists>g. is_end (files s) g a (\<not> w))) \<and>
       (\<forall>vs. pages_rep (kmem_of s) vs \<longrightarrow> a \<notin> set vs) \<and> (\<exists>s'. fileclose f s = Inr s'))"
proof -
  have ok: "files_ok s" using file_ops_ok [OF assms(1)] boot_files_ok [OF _ assms(3)] assms(2) by blast
  then have ends: "ends_ok (files s) (pipes s)" and apart: "pages_apart (files s) (kmem_of s)"
    by (simp_all add: files_ok_def ftable_ok_def)
  have free: "a \<notin> set us" if "is_end (files s) f a w" "pages_rep (kmem_of s) us" for f a w us
    using apart that pages_rep_unique unfolding pages_apart_def by blast
  have rest: "f_readable (files s f) = (\<not> w)" "\<exists>s'. fileclose f s = Inr s'" if "is_end (files s) f a w" for f a w
    using that files_okD [OF ok, of f] fileclose_pipe [OF ok] by (auto simp: is_end_def entry_ok_def)
  have "f_readable (files s f) = (\<not> w) \<and> end_open w (pipes s a) \<and> (\<forall>g. is_end (files s) g a w \<longrightarrow> g = f) \<and>
       (end_open (\<not> w) (pipes s a) \<longrightarrow> (\<exists>g. is_end (files s) g a (\<not> w))) \<and>
       (\<forall>vs. pages_rep (kmem_of s) vs \<longrightarrow> a \<notin> set vs) \<and> (\<exists>s'. fileclose f s = Inr s')" if h: "is_end (files s) f a w" for f a w
    using rest [OF h] free [OF h] ends_okD(1) [OF ends h] ends_okD(2) [OF ends _ h] ends_okD(3) [OF ends h] by simp
  then show ?thesis using files_okD [OF ok] by (simp add: entry_ok_def)
qed

lemma one_page_rep: "pages_rep one_page [0x80113000]"
  by (simp add: one_page_def pages_rep_def load32_def page_ok_def v2p_def KERNBASE_def PHYSTOP_def PGSIZE_def)

theorem files_well_typed_witness:
  "\<exists>s' s''. pipealloc (boot_kern one_page (boot_sys (boot_table 0))) = Inr (Some (0, 1), s') \<and> fileclose 0 s' = Inr s'' \<and>
     is_end (files s'') 1 0x80113000 True \<and> f_readable (files s'' 1) = False \<and>
     \<not> end_open False (pipes s'' 0x80113000) \<and> (\<exists>s3. fileclose 1 s'' = Inr s3)"
proof -
  let ?s = "boot_kern one_page (boot_sys (boot_table 0))"
  have n: "[0..<NFILE] = 0 # 1 # [2..<NFILE]" by (simp add: NFILE_def upt_conv_Cons)
  have b: "files ?s = (\<lambda>_. \<lparr>f_type = FD_NONE, f_ref = 0, f_readable = False, f_writable = False, f_pipe = 0, f_ip = 0, f_off = 0\<rparr>)"
    "kmem_of ?s = one_page" by (simp_all add: boot_kern_def)
  have k: "kalloc one_page = (0x80113000, one_page\<lparr>km_freelist := 0\<rparr>)" by (simp add: kalloc_def one_page_def load32_def)
  define s' where "s' = snd (projr (pipealloc ?s))"
  have a: "pipealloc ?s = Inr (Some (0, 1), s')"
    unfolding s'_def by (simp add: pipealloc_def filealloc_def n b k kalloc_s_def Let_def)
  have s': "is_end (files s') 0 0x80113000 False" "is_end (files s') 1 0x80113000 True" "f_ref (files s' 0) = 1"
      "pi_readopen (pipes s' 0x80113000)" "pi_writeopen (pipes s' 0x80113000)"
    unfolding s'_def by (simp_all add: pipealloc_def filealloc_def n b k kalloc_s_def Let_def is_end_def pipe_new_def)
  define s'' where "s'' = projr (fileclose 0 s')"
  have c: "fileclose 0 s' = Inr s''" "is_end (files s'') 1 0x80113000 True" "\<not> end_open False (pipes s'' 0x80113000)"
    unfolding s''_def using s'
    by (simp_all add: fileclose_def is_end_def pipeclose_def pipeclose_end_def Let_def end_open_def)
  have "file_op\<^sup>*\<^sup>* ?s s''" using op_pipe [OF a] op_close [OF c(1)] by (meson rtranclp.rtrancl_into_rtrancl rtranclp.rtrancl_refl)
  note t = files_well_typed [OF this, of "[0x80113000]"]
  show ?thesis using t a c one_page_rep b by auto
qed

end
