(* ===== verification/Sysfile_Inv.thy ===== *)
theory Sysfile_Inv
  imports Proc File_Inv
begin

section \<open>Descriptors and reference counts\<close>

text \<open>
  A file's reference count is the number of descriptors that name it. \<open>refs d s\<close> allows
  every count to be off by \<open>d\<close>, for the states inside a system call, between taking a
  descriptor and counting it. Each routine of file.c and sysfile.c that touches a count or a
  descriptor changes \<open>d\<close> by one; the lemmas of the system calls add these changes up to zero.
  \<open>fd_call\<close> is one file system call of a process, or what \<open>fork\<close> and \<open>exit\<close> do with
  the descriptors.
\<close>

subsection \<open>Definitions\<close>

definition ofiles :: "'a kern_scheme \<Rightarrow> nat \<Rightarrow> ptr list" where
  "ofiles s q = p_ofile (procr q s)"

definition slots :: "(nat \<Rightarrow> ptr list) \<Rightarrow> nat \<Rightarrow> (nat \<times> nat) set" where
  "slots O' f = {(q, fd). q < NPROC \<and> fd < NOFILE \<and> O' q ! fd = Some f}"

definition refs :: "(nat \<Rightarrow> int) \<Rightarrow> 'a kern_scheme \<Rightarrow> bool" where
  "refs d s \<longleftrightarrow> (\<forall>q<NPROC. length (ofiles s q) = NOFILE) \<and>
     (\<forall>f. f_ref (files s f) + d f = int (card (slots (ofiles s) f))) \<and>
     (\<forall>f. f_ref (files s f) = 0 \<longrightarrow> f_type (files s f) = FD_NONE)"

text \<open>The part of the state that matters here.\<close>

definition fd_part :: "'a kern_scheme \<Rightarrow> (nat \<Rightarrow> file_ent) \<times> (nat \<Rightarrow> ptr list)" where
  "fd_part s = (files s, ofiles s)"

text \<open>\<open>fork\<close> copies the descriptors to a process that has none.\<close>

inductive fd_call :: "'a kern_scheme \<Rightarrow> 'a kern_scheme \<Rightarrow> bool" where
  call_dup: "p < NPROC \<Longrightarrow> sys_dup p s = Inr (r, s') \<Longrightarrow> fd_call s s'"
| call_read: "p < NPROC \<Longrightarrow> sys_read p s = Inr (r, s') \<Longrightarrow> fd_call s s'"
| call_write: "p < NPROC \<Longrightarrow> sys_write p s = Inr (r, s') \<Longrightarrow> fd_call s s'"
| call_close: "p < NPROC \<Longrightarrow> sys_close p s = Inr (r, s') \<Longrightarrow> fd_call s s'"
| call_fstat: "p < NPROC \<Longrightarrow> sys_fstat p s = Inr (r, s') \<Longrightarrow> fd_call s s'"
| call_link: "p < NPROC \<Longrightarrow> sys_link p s = Inr (r, s') \<Longrightarrow> fd_call s s'"
| call_unlink: "p < NPROC \<Longrightarrow> sys_unlink p s = Inr (r, s') \<Longrightarrow> fd_call s s'"
| call_open: "p < NPROC \<Longrightarrow> sys_open p s = Inr (r, s') \<Longrightarrow> fd_call s s'"
| call_mkdir: "p < NPROC \<Longrightarrow> sys_mkdir p s = Inr (r, s') \<Longrightarrow> fd_call s s'"
| call_mknod: "p < NPROC \<Longrightarrow> sys_mknod p s = Inr (r, s') \<Longrightarrow> fd_call s s'"
| call_chdir: "p < NPROC \<Longrightarrow> sys_chdir p s = Inr (r, s') \<Longrightarrow> fd_call s s'"
| call_pipe: "p < NPROC \<Longrightarrow> sys_pipe p s = Inr (r, s') \<Longrightarrow> fd_call s s'"
| fork_files: "p < NPROC \<Longrightarrow> np < NPROC \<Longrightarrow> p \<noteq> np \<Longrightarrow> ofiles s np = replicate NOFILE None \<Longrightarrow>
    foldR (fork_file p np) [0..<NOFILE] s = Inr s' \<Longrightarrow> fd_call s s'"
| exit_files: "p < NPROC \<Longrightarrow> foldR (exit_file p) [0..<NOFILE] s = Inr s' \<Longrightarrow> fd_call s s'"

subsection \<open>Lemmas: descriptors\<close>

lemma finite_slots: "finite (slots O' f)"
  by (rule finite_subset [of _ "{0..<NPROC} \<times> {0..<NOFILE}"]) (auto simp: slots_def)

lemma slots_fill:
  assumes "q < NPROC" "fd < NOFILE" "length (O' q) = NOFILE" "O' q ! fd = None"
  shows "card (slots (O'(q := (O' q)[fd := Some f])) g) = card (slots O' g) + (if g = f then 1 else 0)"
proof (cases "g = f")
  case True
  have "slots (O'(q := (O' q)[fd := Some f])) f = insert (q, fd) (slots O' f)"
    using assms by (auto simp: slots_def nth_list_update split: if_splits)
  moreover have "(q, fd) \<notin> slots O' f" using assms(4) by (simp add: slots_def)
  ultimately show ?thesis using True finite_slots by simp
next
  case False
  then have "slots (O'(q := (O' q)[fd := Some f])) g = slots O' g"
    using assms by (auto simp: slots_def nth_list_update split: if_splits)
  then show ?thesis using False by simp
qed

lemma slots_clear:
  assumes "q < NPROC" "fd < NOFILE" "length (O' q) = NOFILE" "O' q ! fd = Some f"
  shows "int (card (slots (O'(q := (O' q)[fd := None])) g)) = int (card (slots O' g)) - (if g = f then 1 else 0)"
proof -
  let ?O = "O'(q := (O' q)[fd := None])"
  have "card (slots (?O(q := (?O q)[fd := Some f])) g) = card (slots ?O g) + (if g = f then 1 else 0)"
    by (rule slots_fill) (use assms in simp_all)
  moreover have "?O(q := (?O q)[fd := Some f]) = O'" using assms(4) list_update_id [of "O' q" fd] by (auto simp: fun_eq_iff)
  ultimately show ?thesis by simp
qed

lemma ofiles_set [simp]: "ofiles (set_ofile p fd v s) = (ofiles s)(p := (ofiles s p)[fd := v])" "files (set_ofile p fd v s) = files s"
  by (auto simp: set_ofile_def ofiles_def fun_eq_iff) (simp add: upd_proc_def)

lemma refs_len: "refs d s \<Longrightarrow> q < NPROC \<Longrightarrow> length (ofiles s q) = NOFILE"
  by (simp add: refs_def)

lemma refs_untyped: "refs d s \<Longrightarrow> f_ref (files s f) = 0 \<Longrightarrow> f_type (files s f) = FD_NONE"
  by (simp add: refs_def)

lemma fill_refs:
  "refs d s \<Longrightarrow> p < NPROC \<Longrightarrow> fd < NOFILE \<Longrightarrow> ofiles s p ! fd = None \<Longrightarrow> refs (d(f := d f + 1)) (set_ofile p fd (Some f) s)"
  by (auto simp: refs_def slots_fill)

lemma clear_refs:
  "refs d s \<Longrightarrow> p < NPROC \<Longrightarrow> fd < NOFILE \<Longrightarrow> ofiles s p ! fd = Some f \<Longrightarrow> refs (d(f := d f - 1)) (set_ofile p fd None s)"
  by (auto simp: refs_def slots_clear)

lemma fdalloc_cases:
  assumes "fdalloc p f s = (r, s')"
  obtains (none) "r = None" "s' = s"
  | (some) fd where "r = Some fd" "fd < NOFILE" "ofiles s p ! fd = None" "s' = set_ofile p fd (Some f) s"
proof (cases "List.find (\<lambda>fd. p_ofile (procr p s) ! fd = None) [0..<NOFILE]")
  case None
  then show ?thesis using assms none by (simp add: fdalloc_def)
next
  case (Some fd)
  then have "fd < NOFILE" "ofiles s p ! fd = None" using find_SomeD [OF Some] by (simp_all add: ofiles_def)
  moreover have "r = Some fd" "s' = set_ofile p fd (Some f) s" using assms Some by (simp_all add: fdalloc_def)
  ultimately show ?thesis using some by blast
qed

lemma fdalloc_refs:
  "refs d s \<Longrightarrow> p < NPROC \<Longrightarrow> fdalloc p f s = (Some fd, s') \<Longrightarrow> refs (d(f := d f + 1)) s' \<and> fd < NOFILE \<and> ofiles s' p ! fd = Some f"
  by (erule fdalloc_cases) (simp_all add: fill_refs refs_len)

lemma fdalloc_None: "fdalloc p f s = (None, s') \<Longrightarrow> s' = s"
  by (erule fdalloc_cases) auto

subsection \<open>Lemmas: counts\<close>

lemma refs_same: "fd_part s' = fd_part s \<Longrightarrow> refs d s' = refs d s"
  by (simp add: fd_part_def refs_def)

lemma refs_keep: "fd_part s' = fd_part s \<Longrightarrow> refs d s \<Longrightarrow> refs d s'"
  by (simp add: fd_part_def refs_def)

lemma file_refs:
  assumes "refs d s" and "files s' = (files s)(f := x)" and "ofiles s' = ofiles s"
    and "f_ref x = f_ref (files s f) + k" and "f_ref x = 0 \<longrightarrow> f_type x = FD_NONE"
  shows "refs (d(f := d f - k)) s'"
  using assms by (auto simp: refs_def)

lemma ofiles_upd [simp]: "ofiles (upd_file f g s) = ofiles s" "ofiles (upd_pipe a r s) = ofiles s" "ofiles (s\<lparr>kmem_of := k\<rparr>) = ofiles s"
proof -
  have "ksys (fold wake ws s) = ksys s" for ws and s :: "'a kern_scheme" by (induction ws arbitrary: s) (simp_all add: wake_def)
  then show "ofiles (upd_pipe a r s) = ofiles s" by (simp add: fun_eq_iff ofiles_def procr_def upd_pipe_def)
qed (simp_all add: fun_eq_iff ofiles_def procr_def upd_file_def)

lemma filealloc_refs: "refs d s \<Longrightarrow> filealloc s = (Some f, s') \<Longrightarrow> refs (d(f := d f - 1)) s' \<and> f_ref (files s f) = 0 \<and> f_ref (files s' f) = 1 \<and> f_type (files s' f) = FD_NONE"
  by (erule filealloc_cases) (auto intro!: file_refs [where k = 1] dest: refs_untyped)

lemma filealloc_None: "filealloc s = (None, s') \<Longrightarrow> s' = s"
  by (erule filealloc_cases) auto

lemma filedup_refs: "refs d s \<Longrightarrow> filedup f s = Inr (f', s') \<Longrightarrow> refs (d(f := d f - 1)) s' \<and> f' = f \<and> ofiles s' = ofiles s"
  by (auto simp: filedup_def split: if_splits intro!: file_refs [where k = 1])

subsection \<open>Lemmas: frames\<close>

lemma fs_fd_part: "fs_st.more s' = fs_st.more s \<Longrightarrow> fd_part s' = fd_part s"
  by (cases s; cases s'; simp add: fd_part_def fun_eq_iff ofiles_def procr_def)

lemma ksys_fd_part: "files s' = files s \<Longrightarrow> ksys s' = ksys s \<Longrightarrow> fd_part s' = fd_part s"
  by (simp add: fd_part_def fun_eq_iff ofiles_def procr_def)

lemma consputc_fd: "consputc c s = Inr s' \<Longrightarrow> fd_part s' = fd_part s"
proof -
  have c: "cgaputc d t = Inr s' \<Longrightarrow> fd_part s' = fd_part t" for d t
    by (rule ksys_fd_part) (auto simp: cgaputc_def Let_def split: if_splits)
  have u: "fd_part (uartputc d t) = fd_part t" for d and t :: "'a kern_scheme"
    by (rule ksys_fd_part) (simp_all add: uartputc_def)
  show "consputc c s = Inr s' \<Longrightarrow> fd_part s' = fd_part s"
    by (auto simp: consputc_def u split: if_splits dest!: c)
qed

lemma consputs_fd: "foldR (\<lambda>c. consputc (uint c)) cs s = Inr s' \<Longrightarrow> fd_part s' = fd_part s"
  by (erule foldR_keeps [where g = fd_part]) (rule consputc_fd)

lemma input_fd [simp]: "fd_part (upd_input f s) = fd_part s"
  by (rule ksys_fd_part) (simp_all add: upd_input_def)

interpretation kern_frame: fs_frame fd_part "cons_devsw killed" for killed :: bool
proof
  fix s s' :: "'a kern_scheme"
  show "fs_st.more s' = fs_st.more s \<Longrightarrow> fd_part s' = fd_part s" by (rule fs_fd_part)
next
  fix m f ip n r b and s s' :: "'a kern_scheme"
  assume "dev_read (cons_devsw killed m) = Some f" and "f ip n s = Inr (r, b, s')"
  then show "fd_part s' = fd_part s"
    by (auto simp: cons_devsw_def consoleread_def Let_def split: if_splits read_end.splits prod.splits
        dest!: ilock_frame [THEN fs_fd_part] iunlock_frame [THEN fs_fd_part])
next
  fix m g ip src r' and s s' :: "'a kern_scheme"
  assume "dev_write (cons_devsw killed m) = Some g" and "g ip src s = Inr (r', s')"
  then show "fd_part s' = fd_part s"
    by (auto simp: cons_devsw_def consolewrite_def split: if_splits
        dest!: consputs_fd ilock_frame [THEN fs_fd_part] iunlock_frame [THEN fs_fd_part])
qed

lemma fd_partD: "fd_part s' = fd_part s \<Longrightarrow> files s' = files s" "fd_part s' = fd_part s \<Longrightarrow> ofiles s' = ofiles s"
  by (simp_all add: fd_part_def)

lemma uwrite_fd: "uwrite_s p va bs s = Inr s' \<Longrightarrow> fd_part s' = fd_part s"
  by (auto simp: uwrite_s_def fd_part_def)

lemma kfree_fd: "kfree_s v s = Inr s' \<Longrightarrow> fd_part s' = fd_part s"
  by (auto simp: kfree_s_def fd_part_def)

lemma pipeclose_fd: "pipeclose a w s = Inr s' \<Longrightarrow> fd_part s' = fd_part s"
  by (auto simp: pipeclose_def Let_def fd_part_def split: if_splits dest!: kfree_fd)

lemmas fd_frame = kern_frame.keeps uwrite_fd pipeclose_fd

lemma fileclose_refs:
  assumes "refs d s" and "fileclose f s = Inr s'"
  shows "refs (d(f := d f + 1)) s'" and "ofiles s' = ofiles s"
    and "g \<noteq> f \<Longrightarrow> files s' g = files s g"
proof -
  let ?t = "upd_file f (\<lambda>x. x\<lparr>f_ref := f_ref x - 1\<rparr>) s"
  have t: "refs (d(f := d f + 1)) ?t" if "1 < f_ref (files s f)"
    using file_refs [OF assms(1), of ?t f "(files s f)\<lparr>f_ref := f_ref (files s f) - 1\<rparr>" "-1"] that by simp
  let ?u = "upd_file f (\<lambda>x. x\<lparr>f_ref := 0, f_type := FD_NONE\<rparr>) ?t"
  have u: "refs (d(f := d f + 1)) ?u" if "f_ref (files s f) = 1"
    using file_refs [OF assms(1), of ?u f "(files s f)\<lparr>f_ref := 0, f_type := FD_NONE\<rparr>" "-1"] that by simp
  have ref: "0 < f_ref (files s f)" using assms(2) by (simp add: fileclose_def split: if_splits)
  have part: "fd_part s' = fd_part (if 1 < f_ref (files s f) then ?t else ?u)"
    using assms(2) ref by (auto simp: fileclose_def Let_def split: if_splits fd_type.splits dest!: fd_frame)
  show "refs (d(f := d f + 1)) s'" using refs_same [OF part] t u ref by (simp split: if_splits)
  show "ofiles s' = ofiles s" using fd_partD(2) [OF part] by (simp split: if_splits)
  show "g \<noteq> f \<Longrightarrow> files s' g = files s g" using fd_partD(1) [OF part] by (simp split: if_splits)
qed

lemma refs_eq: "refs d s \<Longrightarrow> (\<And>f. d f = e f) \<Longrightarrow> refs e s"
  by (simp add: refs_def)

lemma kalloc_s_fd: "kalloc_s s = (a, s') \<Longrightarrow> fd_part s' = fd_part s"
  by (auto simp: kalloc_s_def fd_part_def split: prod.splits)

lemma retype_refs: "refs d s \<Longrightarrow> f_ref (files s f) \<noteq> 0 \<Longrightarrow> f_ref (g (files s f)) = f_ref (files s f) \<Longrightarrow> refs d (upd_file f g s)"
  using file_refs [of d s "upd_file f g s" f "g (files s f)" 0] by simp

lemma upd_pipe_refs [simp]: "refs d (upd_pipe a r s) = refs d s"
  by (rule refs_same) (simp add: fd_part_def)

lemma pipealloc_bad_refs:
  assumes "refs d s" and "pipealloc_bad f0 f1 s = Inr (r, s')" and "f0 = None \<Longrightarrow> f1 = None"
  shows "r = None" and "refs (\<lambda>f. d f + (if f0 = Some f then 1 else 0) + (if f1 = Some f then 1 else 0)) s'" and "ofiles s' = ofiles s"
proof -
  show r: "r = None" using assms(2) by (auto simp: pipealloc_bad_def)
  consider (a) "f0 = None" "f1 = None" "s' = s" | (b) x where "f0 = Some x" "f1 = None" "fileclose x s = Inr s'"
    | (c) x y s1 where "f0 = Some x" "f1 = Some y" "fileclose x s = Inr s1" "fileclose y s1 = Inr s'"
    using assms(2,3) by (cases f0; cases f1) (auto simp: pipealloc_bad_def)
  then have "refs (\<lambda>f. d f + (if f0 = Some f then 1 else 0) + (if f1 = Some f then 1 else 0)) s' \<and> ofiles s' = ofiles s"
  proof cases
    case a
    then show ?thesis using assms(1) by simp
  next
    case b
    then show ?thesis using fileclose_refs(1,2) [OF assms(1) b(3)] by (auto elim!: refs_eq)
  next
    case c
    note s1 = fileclose_refs(1,2) [OF assms(1) c(3)]
    show ?thesis using c fileclose_refs(1,2) [OF s1(1) c(4)] s1(2) by (auto elim!: refs_eq)
  qed
  then show "refs (\<lambda>f. d f + (if f0 = Some f then 1 else 0) + (if f1 = Some f then 1 else 0)) s'" and "ofiles s' = ofiles s" by simp_all
qed

lemma pipealloc_refs:
  assumes "refs d s" and "pipealloc s = Inr (r, s')"
  shows "ofiles s' = ofiles s" and "r = None \<Longrightarrow> refs d s'"
    and "r = Some (f0, f1) \<Longrightarrow> f0 \<noteq> f1 \<and> refs (d(f0 := d f0 - 1, f1 := d f1 - 1)) s'"
proof -
  obtain r0 s0 where a0: "filealloc s = (r0, s0)" by (cases "filealloc s")
  obtain r1 s1 where a1: "filealloc s0 = (r1, s1)" by (cases "filealloc s0")
  obtain a s2 where k: "kalloc_s s1 = (a, s2)" by (cases "kalloc_s s1")
  have o0: "ofiles s0 = ofiles s" using a0 by (auto elim!: filealloc_cases)
  have o1: "ofiles s1 = ofiles s0" using a1 by (auto elim!: filealloc_cases)
  note part = kalloc_s_fd [OF k]
  have o2: "ofiles s2 = ofiles s1" by (rule fd_partD(2) [OF part])
  have "ofiles s' = ofiles s \<and> (r = None \<longrightarrow> refs d s') \<and> (r = Some (f0, f1) \<longrightarrow> f0 \<noteq> f1 \<and> refs (d(f0 := d f0 - 1, f1 := d f1 - 1)) s')"
  proof (cases r0)
    case None
    then have "pipealloc_bad None None s0 = Inr (r, s')" using assms(2) a0 by (simp add: pipealloc_def)
    then show ?thesis using None a0 filealloc_None [of s s0] assms(1) by (simp add: pipealloc_bad_def)
  next
    case (Some x)
    note x = filealloc_refs [OF assms(1) a0 [unfolded Some]]
    show ?thesis
    proof (cases r1)
      case None
      then have "pipealloc_bad (Some x) None s0 = Inr (r, s')" using assms(2) a0 a1 Some filealloc_None [of s0 s1] by (simp add: pipealloc_def)
      then show ?thesis using x pipealloc_bad_refs [of "d(x := d x - 1)" s0 "Some x" None r s'] o0 by (auto elim!: refs_eq split: if_splits)
    next
      case (Some y)
      note y = filealloc_refs [OF conjunct1 [OF x] a1 [unfolded Some]]
      have ne: "x \<noteq> y" using x y by auto
      have s2: "refs (d(x := d x - 1, y := d y - 1)) s2" "files s2 = files s1"
        using y ne refs_same [OF part] fd_partD(1) [OF part] by simp_all
      show ?thesis
      proof (cases "a = 0")
        case True
        then have "pipealloc_bad (Some x) (Some y) s2 = Inr (r, s')" using assms(2) a0 a1 k \<open>r0 = Some x\<close> Some by (simp add: pipealloc_def)
        then show ?thesis using s2 ne pipealloc_bad_refs [of "d(x := d x - 1, y := d y - 1)" s2 "Some x" "Some y" r s'] o0 o1 o2
          by (auto elim!: refs_eq split: if_splits)
      next
        case False
        have "f_ref (files s2 x) \<noteq> 0" "f_ref (files s2 y) \<noteq> 0"
          using x y ne s2(2) a1 Some by (auto elim!: filealloc_cases)
        then show ?thesis using assms(2) a0 a1 k \<open>r0 = Some x\<close> Some False s2 ne o0 o1 o2
          by (auto simp: pipealloc_def Let_def intro!: retype_refs)
      qed
    qed
  qed
  then show "ofiles s' = ofiles s" and "r = None \<Longrightarrow> refs d s'"
    and "r = Some (f0, f1) \<Longrightarrow> f0 \<noteq> f1 \<and> refs (d(f0 := d f0 - 1, f1 := d f1 - 1)) s'" by blast+
qed

subsection \<open>Lemmas: calls that leave descriptors alone\<close>

named_theorems call_frame \<open>parts of system calls that keep descriptors and counts\<close>

declare fd_frame [call_frame]

lemma namei_p_fd [call_frame]: "namei_p p path s = Inr (r, s') \<Longrightarrow> fd_part s' = fd_part s"
  by (auto simp: namei_p_def at_cwd_def devs_def split: option.splits if_splits dest!: fd_frame)

lemma nameiparent_p_fd [call_frame]: "nameiparent_p p path s = Inr (r, s') \<Longrightarrow> fd_part s' = fd_part s"
  by (auto simp: nameiparent_p_def at_cwd_def devs_def split: option.splits if_splits dest!: fd_frame)

lemma end_ret_fd [call_frame]: "end_ret v s = Inr (r, s') \<Longrightarrow> fd_part s' = fd_part s"
  by (auto simp: end_ret_def dest!: fd_frame)

lemma add_nlink_fd [call_frame]: "add_nlink ip v s = Inr s' \<Longrightarrow> fd_part s' = fd_part s"
  by (auto simp: add_nlink_def dest!: fd_frame)

lemma devs_fd [call_frame]:
  "readi (devs p t) ip off n s = Inr (r, b, s') \<Longrightarrow> fd_part s' = fd_part s"
  "writei (devs p t) ip src off s = Inr (r', s') \<Longrightarrow> fd_part s' = fd_part s"
  "dirlookup (devs p t) dp name s = Inr (q, s') \<Longrightarrow> fd_part s' = fd_part s"
  "dirlink (devs p t) dp name i s = Inr (r', s') \<Longrightarrow> fd_part s' = fd_part s"
  by (auto simp: devs_def dest!: fd_frame)

lemma sys_link_bad_fd [call_frame]: "sys_link_bad ip s = Inr (r, s') \<Longrightarrow> fd_part s' = fd_part s"
  by (auto simp: sys_link_bad_def dest!: call_frame)

lemma sys_link_dir_fd [call_frame]: "sys_link_dir p ip new s = Inr (r, s') \<Longrightarrow> fd_part s' = fd_part s"
  by (auto simp: sys_link_dir_def split: option.splits if_splits dest!: call_frame)

lemma sys_link_fd: "sys_link p s = Inr (r, s') \<Longrightarrow> fd_part s' = fd_part s"
  by (auto simp: sys_link_def orfail_def split: option.splits if_splits dest!: call_frame)

lemma isdirempty_fd [call_frame]: "isdirempty p dp s = Inr (r, s') \<Longrightarrow> fd_part s' = fd_part s"
proof -
  have step: "isdirempty_step p dp off a = Inr b \<Longrightarrow> fd_part (snd b) = fd_part (snd a)" for off and a b :: "bool \<times> 'a kern_scheme"
    by (auto simp: isdirempty_step_def split: prod.splits if_splits dest!: call_frame)
  show "isdirempty p dp s = Inr (r, s') \<Longrightarrow> fd_part s' = fd_part s"
    unfolding isdirempty_def using foldR_keeps [where g = "\<lambda>a. fd_part (snd a)", OF _ step] by fastforce
qed

lemma unlink_found_fd [call_frame]: "unlink_found p dp ip off s = Inr (r, s') \<Longrightarrow> fd_part s' = fd_part s"
  by (auto simp: unlink_found_def split: if_splits dest!: call_frame)

lemma sys_unlink_fd: "sys_unlink p s = Inr (r, s') \<Longrightarrow> fd_part s' = fd_part s"
  by (auto simp: sys_unlink_def orfail_def Let_def split: option.splits if_splits dest!: call_frame)

lemma create_new_fd [call_frame]: "create_new p dp name type major minor s = Inr (r, s') \<Longrightarrow> fd_part s' = fd_part s"
  by (auto simp: create_new_def split: if_splits dest!: call_frame)

lemma create_fd [call_frame]: "create p path type major minor s = Inr (r, s') \<Longrightarrow> fd_part s' = fd_part s"
  by (auto simp: create_def split: option.splits if_splits dest!: call_frame)

lemma open_inode_fd [call_frame]: "open_inode p path omode s = Inr (r, s') \<Longrightarrow> fd_part s' = fd_part s"
  by (auto simp: open_inode_def split: option.splits if_splits dest!: call_frame)

lemma finish_create_fd [call_frame]: "finish_create a = Inr (r, s') \<Longrightarrow> fd_part s' = fd_part (snd a)"
  by (auto simp: finish_create_def split: prod.splits option.splits dest!: call_frame)

lemma sys_mkdir_fd: "sys_mkdir p s = Inr (r, s') \<Longrightarrow> fd_part s' = fd_part s"
  by (auto simp: sys_mkdir_def split: option.splits dest!: call_frame)

lemma sys_mknod_fd: "sys_mknod p s = Inr (r, s') \<Longrightarrow> fd_part s' = fd_part s"
  by (auto simp: sys_mknod_def split: option.splits dest!: call_frame)

lemma cwd_fd [simp]: "fd_part (upd_proc p (\<lambda>r. r\<lparr>p_cwd := v\<rparr>) s) = fd_part s"
  by (auto simp: fd_part_def fun_eq_iff ofiles_def) (simp add: upd_proc_def)

lemma sys_chdir_fd: "sys_chdir p s = Inr (r, s') \<Longrightarrow> fd_part s' = fd_part s"
  by (auto simp: sys_chdir_def split: option.splits if_splits dest!: call_frame)

lemma filestat_fd [call_frame]: "filestat f s = Inr (r, s') \<Longrightarrow> fd_part s' = fd_part s"
  by (auto simp: filestat_def Let_def split: if_splits dest!: call_frame)

lemma stat_fd [call_frame]: "foldR (\<lambda>(off, bs). uwrite_s p (a + off) bs) ws s = Inr s' \<Longrightarrow> fd_part s' = fd_part s"
  by (erule foldR_keeps [where g = fd_part]) (auto dest!: call_frame)

lemma sys_fstat_fd: "sys_fstat p s = Inr (r, s') \<Longrightarrow> fd_part s' = fd_part s"
  by (auto simp: sys_fstat_def orfail_def split: option.splits dest!: call_frame)

subsection \<open>Lemmas: calls on descriptors\<close>

lemmas refs_frame = call_frame [THEN refs_same]

lemma argfd_Some: "argfd p n s = Inr (Some (fd, f)) \<Longrightarrow> fd < NOFILE \<and> ofiles s p ! fd = Some f"
  by (auto simp: argfd_def ofiles_def split: option.splits if_splits)

lemma sys_dup_refs:
  assumes "refs (\<lambda>_. 0) s" and "p < NPROC" and "sys_dup p s = Inr (r, s')"
  shows "refs (\<lambda>_. 0) s'"
proof -
  obtain x where x: "argfd p 0 s = Inr x" using assms(3) by (auto simp: sys_dup_def orfail_def)
  show ?thesis
  proof (cases x)
    case None
    then show ?thesis using assms x by (simp add: sys_dup_def orfail_def)
  next
    case (Some y)
    obtain fd f where y: "y = (fd, f)" by (cases y)
    obtain v s1 where v: "fdalloc p f s = (v, s1)" by (cases "fdalloc p f s")
    show ?thesis
    proof (cases v)
      case None
      then show ?thesis using assms x Some y v fdalloc_None [of p f s s1] by (simp add: sys_dup_def orfail_def)
    next
      case [simp]: (Some fd')
      have s1: "refs ((\<lambda>_. 0)(f := 0 + 1)) s1" using fdalloc_refs [OF assms(1,2)] v by auto
      obtain f' where "filedup f s1 = Inr (f', s')" using assms(3) x \<open>x = Some y\<close> y v by (auto simp: sys_dup_def orfail_def)
      then show ?thesis using filedup_refs [OF s1] refs_eq by fastforce
    qed
  qed
qed

lemma sys_close_refs:
  assumes "refs (\<lambda>_. 0) s" and "p < NPROC" and "sys_close p s = Inr (r, s')"
  shows "refs (\<lambda>_. 0) s'"
proof -
  obtain x where x: "argfd p 0 s = Inr x" using assms(3) by (auto simp: sys_close_def orfail_def)
  show ?thesis
  proof (cases x)
    case None
    then show ?thesis using assms x by (simp add: sys_close_def orfail_def)
  next
    case (Some y)
    obtain fd f where y: "y = (fd, f)" by (cases y)
    note fd = argfd_Some [OF x [unfolded Some y]]
    have "refs ((\<lambda>_. 0)(f := 0 - 1)) (set_ofile p fd None s)" using clear_refs [OF assms(1,2)] fd by blast
    moreover have "fileclose f (set_ofile p fd None s) = Inr s'" using assms(3) x Some y by (auto simp: sys_close_def orfail_def)
    ultimately show ?thesis using fileclose_refs(1) refs_eq by fastforce
  qed
qed

lemma upd_off_refs: "refs d s \<Longrightarrow> refs d (upd_file f (\<lambda>x. x\<lparr>f_off := g x\<rparr>) s)"
  using file_refs [of d s "upd_file f (\<lambda>x. x\<lparr>f_off := g x\<rparr>) s" f "(files s f)\<lparr>f_off := g (files s f)\<rparr>" 0]
  by (auto simp: refs_untyped)

lemma fileread_refs: "refs d s \<Longrightarrow> fileread (devs p t) killed f n s = Inr (r, bytes, s') \<Longrightarrow> refs d s'"
  by (auto simp: fileread_def Let_def split: if_splits fd_type.splits prod.splits dest!: refs_frame simp: upd_off_refs)

lemma filewrite_loop_refs: "refs d s \<Longrightarrow> filewrite_loop (devs p t) f addr s = Inr (r, s') \<Longrightarrow> refs d s'"
proof (induction "length addr" arbitrary: addr s rule: less_induct)
  case less
  show ?case
  proof (cases "addr = []")
    case True
    then show ?thesis using less.prems by (simp add: filewrite_loop.simps)
  next
    case False
    have l: "length (drop fw_max addr) < length addr" using False by (simp add: fw_max_def LOGSIZE_def MAXOPBLOCKS_def)
    have run: "filewrite_loop (devs p t) f (drop fw_max addr) s1 = Inr (r, s') \<Longrightarrow> refs d s1 \<Longrightarrow> refs d s'" for s1
      by (rule less.hyps [OF l])
    have "fw_max \<noteq> 0" by (simp add: fw_max_def LOGSIZE_def MAXOPBLOCKS_def)
    then show ?thesis
      using less.prems False
      by (subst (asm) filewrite_loop.simps) (auto simp: Let_def upd_off_refs split: if_splits dest!: run refs_frame)
  qed
qed

lemma filewrite_refs: "refs d s \<Longrightarrow> filewrite (devs p t) killed f addr n s = Inr (r, s') \<Longrightarrow> refs d s'"
  by (auto simp: filewrite_def Let_def split: if_splits fd_type.splits prod.splits dest: filewrite_loop_refs)

lemma finish_rw_Inr: "finish_rw x s = Inr (r, s') \<Longrightarrow> s' = s"
  by (auto simp: finish_rw_def split: rwres.splits)

lemma sys_read_refs:
  assumes "refs d s" and "sys_read p s = Inr (r, s')"
  shows "refs d s'"
proof -
  have "s' = s \<or> (\<exists>killed f n v bytes s1. fileread (devs p s) killed f n s = Inr (v, bytes, s1) \<and> fd_part s' = fd_part s1)"
    using assms(2) by (auto simp: sys_read_def orfail_def split: option.splits dest!: finish_rw_Inr uwrite_fd) blast
  then show ?thesis using assms(1) fileread_refs [OF assms(1)] refs_same [of s' _ d] by blast
qed

lemma sys_write_refs:
  assumes "refs d s" and "sys_write p s = Inr (r, s')"
  shows "refs d s'"
proof -
  have "s' = s \<or> (\<exists>killed f bytes n v. filewrite (devs p s) killed f bytes n s = Inr (v, s'))"
    using assms(2) by (auto simp: sys_write_def orfail_def split: option.splits dest!: finish_rw_Inr)
  then show ?thesis using assms(1) filewrite_refs [OF assms(1)] by blast
qed

lemma open_file_refs:
  assumes ok: "refs (\<lambda>_. 0) s" and p: "p < NPROC" and run: "open_file p ip omode s = Inr (r, s')"
  shows "refs (\<lambda>_. 0) s'"
proof -
  obtain v s1 where v: "filealloc s = (v, s1)" by (cases "filealloc s")
  show ?thesis
  proof (cases v)
    case None
    then have "fd_part s' = fd_part s"
      using run v filealloc_None [of s s1] by (auto simp: open_file_def Let_def dest!: call_frame)
    then show ?thesis using ok refs_same by blast
  next
    case (Some f)
    note a = filealloc_refs [OF ok v [unfolded Some]]
    obtain w s2 where w: "fdalloc p f s1 = (w, s2)" by (cases "fdalloc p f s1")
    show ?thesis
    proof (cases w)
      case None
      then obtain s3 where "fileclose f s1 = Inr s3" "fd_part s' = fd_part s3"
        using run v Some w fdalloc_None [of p f s1 s2] by (auto simp: open_file_def Let_def dest!: call_frame)
      moreover have "refs (\<lambda>_. 0) s3" using fileclose_refs(1) [OF conjunct1 [OF a] calculation(1)] by (rule refs_eq) simp
      ultimately show ?thesis using refs_same by blast
    next
      case [simp]: (Some fd)
      have s2: "refs (\<lambda>_. 0) s2"
        using conjunct1 [OF fdalloc_refs [OF conjunct1 [OF a] p, of f fd s2]] w by (auto elim!: refs_eq)
      have f2: "files s2 = files s1" using w by (auto elim!: fdalloc_cases)
      obtain s3 g where s3: "fd_part s3 = fd_part s2" and s': "s' = upd_file f g s3" and g: "\<And>x. f_ref (g x) = f_ref x"
        using run v \<open>v = Some f\<close> w by (auto simp: open_file_def Let_def dest!: call_frame)
      have "f_ref (files s3 f) \<noteq> 0" using a f2 fd_partD(1) [OF s3] by simp
      then show ?thesis unfolding s' using retype_refs [of "\<lambda>_. 0" s3] refs_same [OF s3] s2 g by simp
    qed
  qed
qed

lemma sys_open_refs:
  assumes "refs (\<lambda>_. 0) s" and "p < NPROC" and "sys_open p s = Inr (r, s')"
  shows "refs (\<lambda>_. 0) s'"
proof -
  have "fd_part s' = fd_part s \<or> (\<exists>s1 ip omode. fd_part s1 = fd_part s \<and> open_file p ip omode s1 = Inr (r, s'))"
    using assms(3) by (auto simp: sys_open_def orfail_def split: option.splits dest!: call_frame)
  then show ?thesis using assms(1) refs_same open_file_refs [OF _ assms(2)] by blast
qed

lemma sys_pipe_refs:
  assumes ok: "refs (\<lambda>_. 0) s" and p: "p < NPROC" and run: "sys_pipe p s = Inr (r, s')"
  shows "refs (\<lambda>_. 0) s'"
proof -
  have "s' = s \<or> (\<exists>fd x s1. argptr p 0 8 s = Inr (Some fd) \<and> pipealloc s = Inr (x, s1))"
    using run by (auto simp: sys_pipe_def orfail_def split: option.splits)
  then show ?thesis
  proof (elim disjE exE conjE)
    fix fd x s1
    assume a: "argptr p 0 8 s = Inr (Some fd)" and x: "pipealloc s = Inr (x, s1)"
    note r1 = pipealloc_refs [OF ok x]
    show ?thesis
    proof (cases x)
      case None
      then show ?thesis using run a x r1 by (simp add: sys_pipe_def orfail_def)
    next
      case (Some y)
      obtain f0 f1 where y: "x = Some (f0, f1)" using Some by (cases y) simp
      have ne: "f0 \<noteq> f1" and s1: "refs ((\<lambda>_. 0)(f0 := 0 - 1, f1 := 0 - 1)) s1" using r1(3) [OF y] by auto
      have bad: "refs (\<lambda>_. 0) s'" if "refs d t" "fileclose f0 t = Inr t1" "fileclose f1 t1 = Inr s'"
          "\<And>f. d f = (if f = f0 \<or> f = f1 then -1 else 0)" for d t t1
        using fileclose_refs(1) [OF fileclose_refs(1) [OF that(1,2)] that(3)] by (rule refs_eq) (use ne that(4) in simp)
      obtain v0 s2 where v0: "fdalloc p f0 s1 = (v0, s2)" by (cases "fdalloc p f0 s1")
      show ?thesis
      proof (cases v0)
        case None
        then obtain t1 where "fileclose f0 s1 = Inr t1" "fileclose f1 t1 = Inr s'"
          using run a x y v0 fdalloc_None [of p f0 s1 s2] by (auto simp: sys_pipe_def orfail_def Let_def)
        then show ?thesis using bad [OF s1] by simp
      next
        case [simp]: (Some fd0)
        note d0 = fdalloc_refs [OF s1 p v0 [unfolded Some]]
        obtain v1 s3 where v1: "fdalloc p f1 s2 = (v1, s3)" by (cases "fdalloc p f1 s2")
        show ?thesis
        proof (cases v1)
          case None
          then obtain t1 where t1: "fileclose f0 (set_ofile p fd0 None s2) = Inr t1" "fileclose f1 t1 = Inr s'"
            using run a x y v0 v1 fdalloc_None [of p f1 s2 s3] by (auto simp: sys_pipe_def orfail_def Let_def)
          show ?thesis by (rule bad [OF clear_refs [OF conjunct1 [OF d0] p] t1]) (use d0 ne in auto)
        next
          case [simp]: (Some fd1)
          have "fd_part s' = fd_part s3" using run a x y v0 v1 by (auto simp: sys_pipe_def orfail_def Let_def dest!: uwrite_fd)
          moreover have "refs (\<lambda>_. 0) s3"
            using conjunct1 [OF fdalloc_refs [OF conjunct1 [OF d0] p v1 [unfolded Some]]] by (rule refs_eq) (use ne in auto)
          ultimately show ?thesis using refs_same by blast
        qed
      qed
    qed
  qed (use ok in simp)
qed

lemma fork_files_refs:
  assumes "refs (\<lambda>_. 0) s" and "np < NPROC" and "p \<noteq> np" and "foldR (fork_file p np) xs s = Inr s'"
    and "distinct xs" and "\<forall>i\<in>set xs. i < NOFILE \<and> ofiles s np ! i = None"
  shows "refs (\<lambda>_. 0) s'"
  using assms(1,4,5,6)
proof (induction xs arbitrary: s)
  case (Cons i xs)
  then obtain s1 where s1: "fork_file p np i s = Inr s1" "foldR (fork_file p np) xs s1 = Inr s'" by auto
  have i: "i < NOFILE" "ofiles s np ! i = None" using Cons.prems(4) by auto
  have "refs (\<lambda>_. 0) s1 \<and> (\<forall>j. j \<noteq> i \<longrightarrow> ofiles s1 np ! j = ofiles s np ! j)"
  proof (cases "ofiles s p ! i")
    case None
    then show ?thesis using s1(1) Cons.prems(1) by (simp add: fork_file_def ofiles_def)
  next
    case (Some f)
    then obtain f' t where t: "filedup f s = Inr (f', t)" "s1 = set_ofile np i (Some f') t"
      using s1(1) by (auto simp: fork_file_def ofiles_def)
    note d = filedup_refs [OF Cons.prems(1) t(1)]
    have "refs (\<lambda>_. 0) (set_ofile np i (Some f) t)"
      using fill_refs [OF conjunct1 [OF d] assms(2) i(1), of f] d i(2) by (auto elim!: refs_eq)
    then show ?thesis using d t(2) by auto
  qed
  moreover from this have "\<forall>j\<in>set xs. j < NOFILE \<and> ofiles s1 np ! j = None" using Cons.prems(3,4) by (metis distinct.simps(2) list.set_intros(2))
  ultimately show ?case using Cons.IH [OF _ s1(2)] Cons.prems(3) by simp
qed simp

lemma exit_files_refs:
  assumes "refs (\<lambda>_. 0) s" and "p < NPROC" and "foldR (exit_file p) xs s = Inr s'" and "\<forall>i\<in>set xs. i < NOFILE"
  shows "refs (\<lambda>_. 0) s'"
  using assms(1,3,4)
proof (induction xs arbitrary: s)
  case (Cons i xs)
  then obtain s1 where s1: "exit_file p i s = Inr s1" "foldR (exit_file p) xs s1 = Inr s'" by auto
  have i: "i < NOFILE" using Cons.prems(3) by simp
  have "refs (\<lambda>_. 0) s1"
  proof (cases "ofiles s p ! i")
    case None
    then show ?thesis using s1(1) Cons.prems(1) by (simp add: exit_file_def ofiles_def)
  next
    case (Some f)
    then obtain t where t: "fileclose f s = Inr t" "s1 = set_ofile p i None t"
      using s1(1) by (auto simp: exit_file_def ofiles_def)
    note c = fileclose_refs [OF Cons.prems(1) t(1)]
    show ?thesis unfolding t(2) using clear_refs [OF c(1) assms(2) i, of f] c(2) Some by (auto elim!: refs_eq)
  qed
  then show ?case using Cons.IH [OF _ s1(2)] Cons.prems(3) by simp
qed simp

lemma fd_call_refs: "fd_call s s' \<Longrightarrow> refs (\<lambda>_. 0) s \<Longrightarrow> refs (\<lambda>_. 0) s'"
proof (induction rule: fd_call.induct)
  case (fork_files p np s s')
  then show ?case using fork_files_refs [of s np p "[0..<NOFILE]" s'] by simp
next
  case (exit_files p s s')
  then show ?case using exit_files_refs [of s p "[0..<NOFILE]" s'] by simp
qed (blast intro: sys_dup_refs sys_read_refs sys_write_refs sys_close_refs sys_open_refs sys_pipe_refs
  sys_link_fd [THEN refs_keep] sys_unlink_fd [THEN refs_keep] sys_mkdir_fd [THEN refs_keep] sys_mknod_fd [THEN refs_keep] sys_chdir_fd [THEN refs_keep] sys_fstat_fd [THEN refs_keep])+

lemma fd_calls_refs: "fd_call\<^sup>*\<^sup>* s s' \<Longrightarrow> refs (\<lambda>_. 0) s \<Longrightarrow> refs (\<lambda>_. 0) s'"
  by (induction rule: rtranclp_induct) (blast intro: fd_call_refs)+

subsection \<open>Properties\<close>

text \<open>
  C4: Whatever file system calls the processes make, and however \<open>fork\<close> and \<open>exit\<close>
  duplicate and close descriptors in between, the reference count of every file is the number of
  descriptors that name it. A file named by a descriptor is therefore never given out again, and
  one that no descriptor names is unused.
\<close>

theorem descriptors_counted:
  assumes "fd_call\<^sup>*\<^sup>* s0 s" and "refs (\<lambda>_. 0) s0"
  shows "\<forall>f. f_ref (files s f) = int (card {(q, fd). q < NPROC \<and> fd < NOFILE \<and> p_ofile (procr q s) ! fd = Some f}) \<and>
    (f_ref (files s f) = 0 \<longrightarrow> f_type (files s f) = FD_NONE) \<and>
    (\<forall>q<NPROC. \<forall>fd<NOFILE. p_ofile (procr q s) ! fd = Some f \<longrightarrow> fst (filealloc s) \<noteq> Some f)"
proof
  fix f
  have ok: "refs (\<lambda>_. 0) s" by (rule fd_calls_refs [OF assms])
  have c: "f_ref (files s f) = int (card (slots (ofiles s) f))" using ok by (simp add: refs_def)
  have "fst (filealloc s) \<noteq> Some f" if "q < NPROC" "fd < NOFILE" "p_ofile (procr q s) ! fd = Some f" for q fd
  proof -
    have "(q, fd) \<in> slots (ofiles s) f" using that by (simp add: slots_def ofiles_def)
    then have "f_ref (files s f) \<noteq> 0" using c finite_slots by (auto simp: card_eq_0_iff)
    then show ?thesis by (cases "filealloc s") (auto elim!: filealloc_cases)
  qed
  then show "f_ref (files s f) = int (card {(q, fd). q < NPROC \<and> fd < NOFILE \<and> p_ofile (procr q s) ! fd = Some f}) \<and>
    (f_ref (files s f) = 0 \<longrightarrow> f_type (files s f) = FD_NONE) \<and>
    (\<forall>q<NPROC. \<forall>fd<NOFILE. p_ofile (procr q s) ! fd = Some f \<longrightarrow> fst (filealloc s) \<noteq> Some f)"
    using c refs_untyped [OF ok, of f] by (simp add: slots_def ofiles_def)
qed

text \<open>A process whose descriptor 0 is file 5, which it duplicates.\<close>

theorem descriptors_counted_witness:
  "\<exists>(s :: kern) s'. sys_dup 2 s = Inr (1, s') \<and> f_ref (files s 5) = 1 \<and> f_ref (files s' 5) = 2 \<and>
     int (card {(q, fd). q < NPROC \<and> fd < NOFILE \<and> p_ofile (procr q s') ! fd = Some 5}) = 2"
proof -
  define s :: kern where "s = set_ofile 2 0 (Some 5) (upd_file 5 (\<lambda>x. x\<lparr>f_type := FD_INODE, f_ref := 1\<rparr>) (page_kern (\<lambda>_. 0)))"
  have o: "ofiles (page_kern (\<lambda>_. 0)) = (\<lambda>_. replicate NOFILE None)"
    by (auto simp: fun_eq_iff ofiles_def page_kern_def boot_kern_def boot_sys_def procr_def updp_def boot_table_def page_proc_def zero_proc_def NOFILE_def)
  have f: "files (page_kern (\<lambda>_. 0)) = (\<lambda>_. \<lparr>f_type = FD_NONE, f_ref = 0, f_readable = False, f_writable = False, f_pipe = 0, f_ip = 0, f_off = 0\<rparr>)"
    by (simp add: page_kern_def boot_kern_def)
  have n: "2 < NPROC" "0 < NOFILE" "1 < NOFILE" by (simp_all add: NPROC_def NOFILE_def)
  let ?t = "upd_file 5 (\<lambda>x. x\<lparr>f_type := FD_INODE, f_ref := 1\<rparr>) (page_kern (\<lambda>_. 0))"
  have "refs (\<lambda>_. 0) (page_kern (\<lambda>_. 0))" using o f by (simp add: refs_def slots_def)
  then have "refs ((\<lambda>_. 0)(5 := 0 - 1)) ?t"
    using file_refs [of "\<lambda>_. 0" "page_kern (\<lambda>_. 0)" ?t 5 "(files (page_kern (\<lambda>_. 0)) 5)\<lparr>f_type := FD_INODE, f_ref := 1\<rparr>" 1] f by simp
  from fill_refs [OF this n(1,2), of 5] have ok: "refs (\<lambda>_. 0) s" unfolding s_def using o n(2) by (auto elim!: refs_eq)
  have pr: "procr 2 ?t = page_proc" using page_kern_simps(1) by (simp add: upd_file_def procr_def)
  have procr: "procr 2 s = page_proc\<lparr>p_ofile := (p_ofile page_proc)[0 := Some 5]\<rparr>" "kmem_of s = page_kmem (\<lambda>_. 0)"
    by (simp_all add: s_def set_ofile_def pr) (simp add: upd_file_def upd_proc_def)
  have "fetchint 2 0x104 s = Inr (Some 0)" by (simp add: fetchint_def procr page_uread4 Let_def int32_def)
  then have a: "argfd 2 0 s = Inr (Some (0, 5))"
    by (simp add: argfd_def argint_def procr page_proc_def zero_proc_def NOFILE_def)
  have u: "[0..<NOFILE] = 0 # 1 # [2..<NOFILE]" by (simp add: NOFILE_def upt_conv_Cons)
  have b: "fdalloc 2 5 s = (Some 1, set_ofile 2 1 (Some 5) s)"
    by (simp add: fdalloc_def u procr page_proc_def zero_proc_def)
  have f5: "files s = (files (page_kern (\<lambda>_. 0)))(5 := (files (page_kern (\<lambda>_. 0)) 5)\<lparr>f_type := FD_INODE, f_ref := 1\<rparr>)" by (simp add: s_def)
  define s' where "s' = upd_file 5 (\<lambda>x. x\<lparr>f_ref := f_ref x + 1\<rparr>) (set_ofile 2 1 (Some 5) s)"
  have d: "sys_dup 2 s = Inr (1, s')" by (simp add: sys_dup_def orfail_def a b filedup_def f5 s'_def)
  have r: "f_ref (files s 5) = 1" "f_ref (files s' 5) = 2" by (simp_all add: s'_def f5)
  have "fd_call\<^sup>*\<^sup>* s s'" using call_dup [OF n(1) d] by blast
  from descriptors_counted [OF this ok]
  have "f_ref (files s' 5) = int (card {(q, fd). q < NPROC \<and> fd < NOFILE \<and> p_ofile (procr q s') ! fd = Some 5})" by (rule allE) (erule conjunct1)
  then show ?thesis using d r by (intro exI [of _ s] exI [of _ s'] conjI) (simp_all only:)
qed

end
