(* ===== verification/Sh.thy ===== *)
theory Sh
  imports Sysfile
begin

section \<open>The shell (sh.c)\<close>

text \<open>
  The parser of the shell with its syntax trees, the scripts of system calls that \<open>runcmd\<close>
  makes of them, and the builtin commands. The command line is a list of bytes, with the
  terminating NUL past its end, and a pointer into it is an offset. A word is the pair of
  offsets \<open>(q, eq)\<close>; \<open>nulterminate\<close> makes a C string of it. \<open>panic\<close> of the shell, which
  prints and exits, is the error \<open>Panic\<close>.

  The parsing routines call each other; they take a bound on the depth of the calls, and the
  bound \<open>parsecmd\<close> gives them is never reached. The main results are that the parser returns
  on every line, that the words it found are terminated in place without touching each other,
  and that every syntax tree, written out as a command line, is parsed back.
\<close>

subsection \<open>Definitions: commands and tokens\<close>

definition MAXARGS :: nat where "MAXARGS = 10"

text \<open>The structures \<open>execcmd\<close>, \<open>redircmd\<close>, \<open>pipecmd\<close>, \<open>listcmd\<close> and \<open>backcmd\<close>; \<open>'w\<close> is the
  type of words.\<close>

datatype 'w cmd =
    EXEC "'w list"
  | REDIR "'w cmd" 'w int int
  | PIPE "'w cmd" "'w cmd"
  | LIST "'w cmd" "'w cmd"
  | BACK "'w cmd"

definition whitespace :: "u8 list" where "whitespace = [32, 9, 13, 10, 11]"
definition symbols :: "u8 list" where "symbols = [60, 124, 62, 38, 59, 40, 41]"

definition at :: "u8 list \<Rightarrow> nat \<Rightarrow> u8" where
  "at b s = (if s < length b then b ! s else 0)"

text \<open>A loop that advances \<open>s\<close> before \<open>es\<close> while the character satisfies \<open>P\<close>.\<close>

function skip :: "(u8 \<Rightarrow> bool) \<Rightarrow> u8 list \<Rightarrow> nat \<Rightarrow> nat" where
  "skip P b s = (if s < length b \<and> P (b ! s) then skip P b (s + 1) else s)"
  by pat_completeness auto

termination skip
  by (relation "measure (\<lambda>(P, b, s). length b - s)") auto

declare skip.simps [simp del]

definition isws :: "u8 \<Rightarrow> bool" where "isws c \<longleftrightarrow> c \<in> set whitespace"
definition inword :: "u8 \<Rightarrow> bool" where "inword c \<longleftrightarrow> c \<notin> set whitespace \<and> c \<notin> set symbols"

text \<open>The kind of the token, its bounds and where the next one starts. The kind is a character:
  NUL at the end, \<open>a\<close> for a word, \<open>+\<close> for two greater signs.\<close>

definition gettoken :: "u8 list \<Rightarrow> nat \<Rightarrow> u8 \<times> nat \<times> nat \<times> nat" where
  "gettoken b ps =
     (let q = skip isws b ps; c = at b q;
          (ret, eq) =
            (if c = 0 then (c, q)
             else if c \<in> set [124, 40, 41, 59, 38, 60] then (c, q + 1)
             else if c = 62 then if at b (q + 1) = 62 then (43, q + 2) else (c, q + 1)
             else (97, skip inword b q))
      in (ret, q, eq, skip isws b eq))"

definition peek :: "u8 list \<Rightarrow> nat \<Rightarrow> u8 list \<Rightarrow> bool \<times> nat" where
  "peek b ps toks = (let s = skip isws b ps in (at b s \<noteq> 0 \<and> at b s \<in> set toks, s))"

subsection \<open>Definitions: the parser\<close>

text \<open>The commands that \<open>parseredirs\<close> wraps around its argument, innermost first.\<close>

definition redir_of :: "u8 \<Rightarrow> nat \<times> nat \<Rightarrow> ((nat \<times> nat) \<times> int \<times> int) list" where
  "redir_of tok w =
     (if tok = 60 then [(w, O_RDONLY, 0)]
      else if tok = 62 then [(w, O_WRONLY OR O_CREATE, 1)]
      else if tok = 43 then [(w, O_WRONLY OR O_CREATE, 1)]
      else [])"

fun parseredirs :: "nat \<Rightarrow> u8 list \<Rightarrow> nat \<Rightarrow> (((nat \<times> nat) \<times> int \<times> int) list \<times> nat) kres" where
  "parseredirs 0 b ps = Inl Diverge"
| "parseredirs (Suc n) b ps =
     (case peek b ps [60, 62] of (r, ps) \<Rightarrow>
        if \<not> r then Inr ([], ps)
        else
          case gettoken b ps of (tok, _, _, ps) \<Rightarrow>
          case gettoken b ps of (w, q, eq, ps) \<Rightarrow>
            if w \<noteq> 97 then Inl (Panic ''missing file for redirection'')
            else bindR (parseredirs n b ps) (\<lambda>(rs, ps). Inr (redir_of tok (q, eq) @ rs, ps)))"

definition redirs :: "'w cmd \<Rightarrow> ('w \<times> int \<times> int) list \<Rightarrow> 'w cmd" where
  "redirs c rs = fold (\<lambda>(f, md, fd) c. REDIR c f md fd) rs c"

text \<open>The loop of \<open>parseexec\<close> with the number of words before: the words and redirections.\<close>

fun parseargs :: "nat \<Rightarrow> u8 list \<Rightarrow> nat \<Rightarrow> nat \<Rightarrow> (((nat \<times> nat) list \<times> ((nat \<times> nat) \<times> int \<times> int) list) \<times> nat) kres" where
  "parseargs 0 b argc ps = Inl Diverge"
| "parseargs (Suc n) b argc ps =
     (case peek b ps [124, 41, 38, 59] of (r, ps) \<Rightarrow>
        if r then Inr (([], []), ps)
        else
          case gettoken b ps of (tok, q, eq, ps) \<Rightarrow>
            if tok = 0 then Inr (([], []), ps)
            else if tok \<noteq> 97 then Inl (Panic ''syntax'')
            else if argc + 1 \<ge> MAXARGS then Inl (Panic ''too many args'')
            else
              bindR (parseredirs n b ps) (\<lambda>(rs, ps).
              bindR (parseargs n b (argc + 1) ps) (\<lambda>((ws, rs'), ps). Inr (((q, eq) # ws, rs @ rs'), ps))))"

text \<open>The loop of \<open>parseline\<close> over ampersands.\<close>

fun parseback :: "nat \<Rightarrow> u8 list \<Rightarrow> 'w cmd \<Rightarrow> nat \<Rightarrow> ('w cmd \<times> nat) kres" where
  "parseback 0 b c ps = Inl Diverge"
| "parseback (Suc n) b c ps =
     (case peek b ps [38] of (r, ps) \<Rightarrow>
        if \<not> r then Inr (c, ps)
        else case gettoken b ps of (_, _, _, ps) \<Rightarrow> parseback n b (BACK c) ps)"

fun parseline :: "nat \<Rightarrow> u8 list \<Rightarrow> nat \<Rightarrow> ((nat \<times> nat) cmd \<times> nat) kres"
  and parsepipe :: "nat \<Rightarrow> u8 list \<Rightarrow> nat \<Rightarrow> ((nat \<times> nat) cmd \<times> nat) kres"
  and parseexec :: "nat \<Rightarrow> u8 list \<Rightarrow> nat \<Rightarrow> ((nat \<times> nat) cmd \<times> nat) kres"
  and parseblock :: "nat \<Rightarrow> u8 list \<Rightarrow> nat \<Rightarrow> ((nat \<times> nat) cmd \<times> nat) kres" where
  "parseline 0 b ps = Inl Diverge"
| "parseline (Suc n) b ps =
     bindR (parsepipe n b ps) (\<lambda>(c, ps).
     bindR (parseback n b c ps) (\<lambda>(c, ps).
       case peek b ps [59] of (r, ps) \<Rightarrow>
         if \<not> r then Inr (c, ps)
         else case gettoken b ps of (_, _, _, ps) \<Rightarrow>
           bindR (parseline n b ps) (\<lambda>(r, ps). Inr (LIST c r, ps))))"
| "parsepipe 0 b ps = Inl Diverge"
| "parsepipe (Suc n) b ps =
     bindR (parseexec n b ps) (\<lambda>(c, ps).
       case peek b ps [124] of (r, ps) \<Rightarrow>
         if \<not> r then Inr (c, ps)
         else case gettoken b ps of (_, _, _, ps) \<Rightarrow>
           bindR (parsepipe n b ps) (\<lambda>(r, ps). Inr (PIPE c r, ps)))"
| "parseexec 0 b ps = Inl Diverge"
| "parseexec (Suc n) b ps =
     (case peek b ps [40] of (r, ps) \<Rightarrow>
        if r then parseblock n b ps
        else
          bindR (parseredirs n b ps) (\<lambda>(rs, ps).
          bindR (parseargs n b 0 ps) (\<lambda>((ws, rs'), ps). Inr (redirs (EXEC ws) (rs @ rs'), ps))))"
| "parseblock 0 b ps = Inl Diverge"
| "parseblock (Suc n) b ps =
     (case peek b ps [40] of (r, ps) \<Rightarrow>
        if \<not> r then Inl (Panic ''parseblock'')
        else case gettoken b ps of (_, _, _, ps) \<Rightarrow>
          bindR (parseline n b ps) (\<lambda>(c, ps).
            case peek b ps [41] of (r, ps) \<Rightarrow>
              if \<not> r then Inl (Panic ''syntax - missing )'')
              else case gettoken b ps of (_, _, _, ps) \<Rightarrow>
                bindR (parseredirs n b ps) (\<lambda>(rs, ps). Inr (redirs c rs, ps))))"

text \<open>\<open>nulterminate\<close> on the buffer with its terminator, and \<open>parsecmd\<close>: the tree and the buffer.\<close>

primrec nulterminate :: "(nat \<times> nat) cmd \<Rightarrow> u8 list \<Rightarrow> u8 list" where
  "nulterminate (EXEC ws) b = fold (\<lambda>(q, eq) b. b[eq := 0]) ws b"
| "nulterminate (REDIR c f md fd) b = (nulterminate c b)[snd f := 0]"
| "nulterminate (PIPE l r) b = nulterminate r (nulterminate l b)"
| "nulterminate (LIST l r) b = nulterminate r (nulterminate l b)"
| "nulterminate (BACK c) b = nulterminate c b"

definition parsecmd :: "u8 list \<Rightarrow> ((nat \<times> nat) cmd \<times> u8 list) kres" where
  "parsecmd b =
     bindR (parseline (4 * length b + 4) b 0) (\<lambda>(c, ps).
       case peek b ps [] of
         (_, ps) \<Rightarrow> if ps \<noteq> length b then Inl (Panic ''syntax'') else Inr (c, nulterminate c (b @ [0])))"

text \<open>The string at a word, as \<open>exec\<close> and \<open>open\<close> see it.\<close>

definition cstring :: "u8 list \<Rightarrow> nat \<times> nat \<Rightarrow> u8 list" where
  "cstring b w = takeWhile (\<lambda>c. c \<noteq> 0) (drop (fst w) b)"

subsection \<open>Definitions: running a command\<close>

text \<open>
  What a process of the shell does from some point on until it exits: the system calls it makes
  in order, with what it does instead of going on when a call fails. \<open>AFork\<close> has the script of
  the child first. A descriptor is a number or one of the two ends of the pipe made last.
\<close>

datatype sh_fd = Fd int | P0 | P1

datatype act =
    AExec "u8 list" "u8 list list"
  | AClose sh_fd
  | ADup sh_fd
  | AOpen "u8 list" int "act list"
  | APipe "act list"
  | AFork "act list" "act list"
  | AWait
  | APrint "u8 list"
  | AExit

definition panic_script :: "string \<Rightarrow> act list" where
  "panic_script msg = [APrint (bytes_of msg @ [10]), AExit]"

definition fork1 :: "act list \<Rightarrow> act" where
  "fork1 child = AFork child (panic_script ''fork'')"

primrec runcmd :: "u8 list cmd \<Rightarrow> act list" where
  "runcmd (EXEC argv) =
     (if argv = [] then [AExit]
      else [AExec (hd argv) argv, APrint (bytes_of ''exec '' @ hd argv @ bytes_of '' failed'' @ [10]), AExit])"
| "runcmd (REDIR c f md fd) =
     [AClose (Fd fd), AOpen f md [APrint (bytes_of ''open '' @ f @ bytes_of '' failed'' @ [10]), AExit]] @ runcmd c"
| "runcmd (LIST l r) = [fork1 (runcmd l), AWait] @ runcmd r"
| "runcmd (PIPE l r) =
     [APipe (panic_script ''pipe''),
      fork1 ([AClose (Fd 1), ADup P1, AClose P0, AClose P1] @ runcmd l),
      fork1 ([AClose (Fd 0), ADup P0, AClose P0, AClose P1] @ runcmd r),
      AClose P0, AClose P1, AWait, AWait, AExit]"
| "runcmd (BACK c) = [fork1 (runcmd c), AExit]"

subsection \<open>Definitions: builtin commands\<close>

text \<open>\<open>makeint\<close> computes in a C int: the additions and the multiplication wrap.\<close>

fun makeint :: "u32 \<Rightarrow> u8 list \<Rightarrow> u32" where
  "makeint val (c # p) = (if 48 \<le> c \<and> c \<le> 57 then makeint (10 * val + (ucast c - 48)) p else val)"
| "makeint val [] = val"

datatype builtin = Setuid int | Setgid int | PrintUid | PrintGid | BadSet | BadGet

definition chomp :: "u8 list \<Rightarrow> u8 list" where
  "chomp p = dropWhile (\<lambda>c. c = 32) p"

definition setbuiltin :: "u8 list \<Rightarrow> builtin" where
  "setbuiltin p =
     (let p = chomp (drop 4 p) in
      if strncmp_l (bytes_of ''uid'') p 3 = 0 then Setuid (sint (makeint 0 (chomp (drop 3 p))))
      else if strncmp_l (bytes_of ''gid'') p 3 = 0 then Setgid (sint (makeint 0 (chomp (drop 3 p))))
      else BadSet)"

definition getbuiltin :: "u8 list \<Rightarrow> builtin" where
  "getbuiltin p =
     (let p = chomp (drop 4 p) in
      if strncmp_l (bytes_of ''uid'') p 3 = 0 then PrintUid
      else if strncmp_l (bytes_of ''gid'') p 3 = 0 then PrintGid
      else BadGet)"

text \<open>The entries of the table \<open>fdt\<close> that match, in its order.\<close>

definition dobuiltin :: "u8 list \<Rightarrow> builtin list" where
  "dobuiltin cmd =
     (if strncmp_l cmd (bytes_of ''_set'') 4 = 0 then [setbuiltin cmd] else []) @
     (if strncmp_l cmd (bytes_of ''_get'') 4 = 0 then [getbuiltin cmd] else [])"

text \<open>What \<open>main\<close> does with one line: change directory, run builtins, or run the script in a
  child and wait.\<close>

datatype sh_line = Cd "u8 list" | Builtins "builtin list" | Child "act list kres"

definition sh_main_line :: "u8 list \<Rightarrow> sh_line" where
  "sh_main_line buf =
     (if strncmp_l buf (bytes_of ''cd '') 3 = 0 then Cd (drop 3 (butlast buf))
      else if ch buf = 95 then Builtins (dobuiltin buf)
      else Child (bindR (parsecmd buf) (\<lambda>(c, b). Inr (runcmd (map_cmd (cstring b) c)))))"

subsection \<open>Definitions: writing a command out\<close>

datatype token = Word "u8 list" | Sym u8

fun tok_bytes :: "token \<Rightarrow> u8 list" where
  "tok_bytes (Word w) = w"
| "tok_bytes (Sym c) = [c]"

text \<open>A space after every token.\<close>

definition print :: "token list \<Rightarrow> u8 list" where
  "print ts = concat (map (\<lambda>t. tok_bytes t @ [32]) ts)"

definition redir_toks :: "(u8 list \<times> int \<times> int) list \<Rightarrow> token list" where
  "redir_toks rs = concat (map (\<lambda>(f, md, fd). [Sym (if fd = 0 then 60 else 62), Word f]) rs)"

text \<open>The levels of the grammar: 0 a line, 1 a command in the background, 2 a pipeline, 3 a
  simple command. A tree of a lower level is put in parentheses.\<close>

fun level :: "'w cmd \<Rightarrow> nat" where
  "level (LIST l r) = 0"
| "level (BACK c) = 1"
| "level (PIPE l r) = 2"
| "level c = 3"

definition paren :: "nat \<Rightarrow> 'w cmd \<Rightarrow> token list \<Rightarrow> token list" where
  "paren k c ts = (if k \<le> level c then ts else Sym 40 # ts @ [Sym 41])"

primrec toks :: "u8 list cmd \<Rightarrow> token list" where
  "toks (EXEC ws) = map Word ws"
| "toks (REDIR c f md fd) = paren 3 c (toks c) @ redir_toks [(f, md, fd)]"
| "toks (PIPE l r) = paren 3 l (toks l) @ [Sym 124] @ paren 2 r (toks r)"
| "toks (LIST l r) = paren 1 l (toks l) @ [Sym 59] @ paren 0 r (toks r)"
| "toks (BACK c) = paren 1 c (toks c) @ [Sym 38]"

definition show_cmd :: "u8 list cmd \<Rightarrow> u8 list" where
  "show_cmd c = print (toks c)"

text \<open>Words of characters that are neither blank nor special, fewer than \<open>MAXARGS\<close> in a command,
  and redirections that the syntax has.\<close>

definition word_ok :: "u8 list \<Rightarrow> bool" where
  "word_ok w \<longleftrightarrow> w \<noteq> [] \<and> list_all (\<lambda>c. inword c \<and> c \<noteq> 0) w"

definition redir_ok :: "int \<Rightarrow> int \<Rightarrow> bool" where
  "redir_ok md fd \<longleftrightarrow> md = O_RDONLY \<and> fd = 0 \<or> md = O_WRONLY OR O_CREATE \<and> fd = 1"

primrec cmd_ok :: "u8 list cmd \<Rightarrow> bool" where
  "cmd_ok (EXEC ws) \<longleftrightarrow> length ws < MAXARGS \<and> list_all word_ok ws"
| "cmd_ok (REDIR c f md fd) \<longleftrightarrow> cmd_ok c \<and> word_ok f \<and> redir_ok md fd"
| "cmd_ok (PIPE l r) \<longleftrightarrow> cmd_ok l \<and> cmd_ok r"
| "cmd_ok (LIST l r) \<longleftrightarrow> cmd_ok l \<and> cmd_ok r"
| "cmd_ok (BACK c) \<longleftrightarrow> cmd_ok c"

definition fine :: "u8 list \<Rightarrow> nat \<Rightarrow> ('x \<times> nat) kres \<Rightarrow> bool" where
  "fine b ps r \<longleftrightarrow> r \<noteq> Inl Diverge \<and> (\<forall>x ps'. r = Inr (x, ps') \<longrightarrow> ps \<le> ps' \<and> ps' \<le> length b)"

definition sub :: "u8 list \<Rightarrow> nat \<times> nat \<Rightarrow> u8 list" where
  "sub b w = take (snd w - fst w) (drop (fst w) b)"

text \<open>A maximal run of word characters.\<close>

definition word_at :: "u8 list \<Rightarrow> nat \<times> nat \<Rightarrow> bool" where
  "word_at b w \<longleftrightarrow> fst w < snd w \<and> snd w \<le> length b \<and> (\<forall>i. fst w \<le> i \<and> i < snd w \<longrightarrow> inword (b ! i)) \<and>
     (snd w < length b \<longrightarrow> \<not> inword (b ! snd w))"

definition sound :: "u8 list \<Rightarrow> ('x \<Rightarrow> bool) \<Rightarrow> ('x \<times> nat) kres \<Rightarrow> bool" where
  "sound b P r \<longleftrightarrow> (\<forall>x ps. r = Inr (x, ps) \<longrightarrow> P x \<and> ps \<le> length b)"

definition args_words :: "u8 list \<Rightarrow> (nat \<times> nat) list \<times> ((nat \<times> nat) \<times> int \<times> int) list \<Rightarrow> bool" where
  "args_words b x \<longleftrightarrow> (\<forall>w\<in>set (fst x). word_at b w) \<and> (\<forall>y\<in>set (snd x). word_at b (fst y))"

definition good_tok :: "token \<Rightarrow> bool" where
  "good_tok t \<longleftrightarrow> (case t of Word w \<Rightarrow> word_ok w | Sym x \<Rightarrow> x \<in> set symbols)"

text \<open>The rest of the line from \<open>ps\<close> on is the printed list of tokens.\<close>

definition stands :: "u8 list \<Rightarrow> nat \<Rightarrow> token list \<Rightarrow> bool" where
  "stands b ps ts \<longleftrightarrow> ps \<le> length b \<and> drop ps b = print ts \<and> list_all good_tok ts"

definition starts :: "u8 list \<Rightarrow> token list \<Rightarrow> bool" where
  "starts cs ts \<longleftrightarrow> (case ts of Sym x # _ \<Rightarrow> x \<in> set cs | _ \<Rightarrow> False)"

text \<open>What can follow a command of each level.\<close>

definition follow :: "nat \<Rightarrow> token list \<Rightarrow> bool" where
  "follow k ts \<longleftrightarrow> (case ts of [] \<Rightarrow> True | Word w # _ \<Rightarrow> False
     | Sym x # _ \<Rightarrow> x = 41 \<or> x = 59 \<and> 1 \<le> k \<or> x = 38 \<and> 2 \<le> k \<or> x = 124 \<and> 3 \<le> k)"

fun parser :: "nat \<Rightarrow> nat \<Rightarrow> u8 list \<Rightarrow> nat \<Rightarrow> ((nat \<times> nat) cmd \<times> nat) kres" where
  "parser 0 n b ps = parseline n b ps"
| "parser (Suc 0) n b ps = bindR (parsepipe n b ps) (\<lambda>(c, ps). parseback n b c ps)"
| "parser (Suc (Suc 0)) n b ps = parsepipe n b ps"
| "parser k n b ps = parseexec n b ps"

definition depth :: "nat \<Rightarrow> nat" where
  "depth k = (if k = 0 then 4 else if k \<le> 2 then 3 else 2)"

definition parses :: "nat \<Rightarrow> token list \<Rightarrow> u8 list cmd \<Rightarrow> bool" where
  "parses k T c \<longleftrightarrow> (\<forall>b ps ts n. stands b ps (T @ ts) \<longrightarrow> follow k ts \<longrightarrow> 4 * length (print (T @ ts)) + depth k \<le> n \<longrightarrow>
     (\<exists>c' ps'. parser k n b ps = Inr (c', ps') \<and> stands b ps' ts \<and> map_cmd (sub b) c' = c))"

definition redirs_ok :: "(u8 list \<times> int \<times> int) list \<Rightarrow> bool" where
  "redirs_ok rs \<longleftrightarrow> list_all (\<lambda>(f, md, fd). redir_ok md fd) rs"

definition sub_redirs :: "u8 list \<Rightarrow> ((nat \<times> nat) \<times> int \<times> int) list \<Rightarrow> (u8 list \<times> int \<times> int) list" where
  "sub_redirs b = map (\<lambda>(w, md, fd). (sub b w, md, fd))"

primrec base :: "'w cmd \<Rightarrow> 'w cmd" where
  "base (EXEC ws) = EXEC ws"
| "base (REDIR c f md fd) = base c"
| "base (PIPE l r) = PIPE l r"
| "base (LIST l r) = LIST l r"
| "base (BACK c) = BACK c"

primrec reds :: "'w cmd \<Rightarrow> ('w \<times> int \<times> int) list" where
  "reds (EXEC ws) = []"
| "reds (REDIR c f md fd) = reds c @ [(f, md, fd)]"
| "reds (PIPE l r) = []"
| "reds (LIST l r) = []"
| "reds (BACK c) = []"

primrec unback :: "'w cmd \<Rightarrow> 'w cmd" where
  "unback (EXEC ws) = EXEC ws"
| "unback (REDIR c f md fd) = REDIR c f md fd"
| "unback (PIPE l r) = PIPE l r"
| "unback (LIST l r) = LIST l r"
| "unback (BACK c) = unback c"

primrec backs :: "'w cmd \<Rightarrow> nat" where
  "backs (EXEC ws) = 0"
| "backs (REDIR c f md fd) = 0"
| "backs (PIPE l r) = 0"
| "backs (LIST l r) = 0"
| "backs (BACK c) = Suc (backs c)"

subsection \<open>Lemmas: scanning\<close>

lemma skip_eq: "skip P b s = s + length (takeWhile P (drop s b))"
proof (induction P b s rule: skip.induct)
  case (1 P b s)
  show ?case
  proof (cases "s < length b \<and> P (b ! s)")
    case True
    then have "drop s b = b ! s # drop (s + 1) b" by (simp add: Cons_nth_drop_Suc)
    then show ?thesis using 1 True by (simp add: skip.simps [of P b s])
  next
    case False
    then show ?thesis by (cases "s < length b") (simp_all add: skip.simps [of P b s] Cons_nth_drop_Suc [symmetric])
  qed
qed

lemma skip_bounds: "s \<le> skip P b s" "s \<le> length b \<Longrightarrow> skip P b s \<le> length b"
proof -
  show "s \<le> skip P b s" by (simp add: skip_eq)
  assume "s \<le> length b"
  moreover have "length (takeWhile P (drop s b)) \<le> length b - s" using length_takeWhile_le [of P "drop s b"] by simp
  ultimately show "skip P b s \<le> length b" by (simp add: skip_eq)
qed

lemma skip_stop: "skip P b s < length b \<Longrightarrow> \<not> P (b ! skip P b s)" "skip P b (skip P b s) = skip P b s"
proof -
  let ?n = "length (takeWhile P (drop s b))"
  show n: "\<not> P (b ! skip P b s)" if "skip P b s < length b"
    using nth_length_takeWhile [of P "drop s b"] that by (simp add: skip_eq)
  show "skip P b (skip P b s) = skip P b s"
    using n by (subst skip.simps) auto
qed

lemma at_nonzero: "at b s \<noteq> 0 \<Longrightarrow> s < length b"
  by (simp add: at_def split: if_splits)

lemma gettoken_bounds:
  assumes "gettoken b ps = (t, q, eq, ps')" and "ps \<le> length b"
  shows "ps \<le> q" and "q \<le> eq" and "eq \<le> ps'" and "ps' \<le> length b" and "t \<noteq> 0 \<Longrightarrow> q < eq"
proof -
  let ?q = "skip isws b ps"
  have q: "ps \<le> ?q" "?q \<le> length b" using skip_bounds [where s = ps and b = b] assms(2) by auto
  have g: "q = ?q" "ps' = skip isws b eq" using assms(1) by (auto simp: gettoken_def Let_def split: prod.splits if_splits)
  have w: "?q < skip inword b ?q" if "at b ?q \<noteq> 0" "at b ?q \<notin> set [124, 40, 41, 59, 38, 60]" "at b ?q \<noteq> 62"
  proof -
    have "?q < length b" using that(1) by (rule at_nonzero)
    moreover have "\<not> isws (b ! ?q)" by (rule skip_stop(1)) fact
    moreover have "at b ?q = b ! ?q" using calculation(1) by (simp add: at_def)
    ultimately have "inword (b ! ?q)" using that(2,3) by (auto simp: inword_def isws_def symbols_def)
    then show ?thesis using \<open>?q < length b\<close> skip_bounds(1) [of "?q + 1" inword b] by (simp add: skip.simps [of inword b ?q])
  qed
  have e: "?q \<le> eq \<and> eq \<le> length b \<and> (t \<noteq> 0 \<longrightarrow> ?q < eq)"
    using assms(1) q w skip_bounds [where s = "?q" and P = inword and b = b] at_nonzero [of b ?q] at_nonzero [of b "?q + 1"]
    by (auto simp: gettoken_def Let_def split: if_splits)
  then show "ps \<le> q" and "q \<le> eq" and "eq \<le> ps'" and "ps' \<le> length b" and "t \<noteq> 0 \<Longrightarrow> q < eq"
    using q g skip_bounds [where s = "eq" and P = isws and b = b] by auto
qed

lemma peek_bounds:
  assumes "peek b ps cs = (r, ps')" and "ps \<le> length b"
  shows "ps \<le> ps'" and "ps' \<le> length b" and "r \<Longrightarrow> gettoken b ps' = (t, q, eq, ps'') \<Longrightarrow> ps' < ps'' \<and> ps'' \<le> length b"
proof -
  have p: "ps' = skip isws b ps" using assms(1) by (auto simp: peek_def Let_def)
  then show b: "ps \<le> ps'" "ps' \<le> length b" using skip_bounds [where s = "ps" and P = isws and b = b] assms(2) by auto
  assume r: "r" and g: "gettoken b ps' = (t, q, eq, ps'')"
  have "at b ps' \<noteq> 0" using assms(1) r by (auto simp: peek_def Let_def)
  then have "t \<noteq> 0" using g p skip_stop(2) [of isws b ps] by (auto simp: gettoken_def Let_def split: if_splits)
  then show "ps' < ps'' \<and> ps'' \<le> length b" using gettoken_bounds [OF g b(2)] by linarith
qed

subsection \<open>Lemmas: the parser returns\<close>

lemma fineI: "r \<noteq> Inl Diverge \<Longrightarrow> (\<And>x ps'. r = Inr (x, ps') \<Longrightarrow> ps \<le> ps' \<and> ps' \<le> length b) \<Longrightarrow> fine b ps r"
  by (simp add: fine_def)

lemma fine_Inr [simp]: "fine b ps (Inr (x, ps')) \<longleftrightarrow> ps \<le> ps' \<and> ps' \<le> length b"
  by (simp add: fine_def)

lemma fine_Panic [simp]: "fine b ps (Inl (Panic e))"
  by (simp add: fine_def)

lemma fine_bind:
  assumes "fine b ps m" and "\<And>x ps1. m = Inr (x, ps1) \<Longrightarrow> ps \<le> ps1 \<Longrightarrow> ps1 \<le> length b \<Longrightarrow> fine b ps (f (x, ps1))"
  shows "fine b ps (bindR m f)"
  using assms by (cases m) (auto simp: fine_def)

lemma fine_weaken: "fine b ps1 r \<Longrightarrow> ps \<le> ps1 \<Longrightarrow> fine b ps r"
  by (auto simp: fine_def)

lemma parseredirs_fine: "ps \<le> length b \<Longrightarrow> length b - ps < n \<Longrightarrow> fine b ps (parseredirs n b ps)"
proof (induction n arbitrary: ps)
  case (Suc n)
  obtain r p1 where p: "peek b ps [60, 62] = (r, p1)" by (cases "peek b ps [60, 62]")
  obtain tok q0 eq0 p2 where g: "gettoken b p1 = (tok, q0, eq0, p2)" by (cases "gettoken b p1") auto
  obtain w q eq p3 where g': "gettoken b p2 = (w, q, eq, p3)" by (cases "gettoken b p2") auto
  note pb = peek_bounds [OF p Suc.prems(1)]
  show ?case
  proof (cases r)
    case True
    have p2: "p1 < p2" "p2 \<le> length b" using pb(3) [OF True g] by auto
    have p3: "p2 \<le> p3" "p3 \<le> length b" using gettoken_bounds(1-4) [OF g' p2(2)] by auto
    have "fine b p3 (parseredirs n b p3)" using Suc.IH [OF p3(2)] Suc.prems p2 p3 pb(1) by linarith
    then have "fine b ps (parseredirs n b p3)" by (rule fine_weaken) (use p2 p3 pb(1) in linarith)
    then show ?thesis using True p g g' by (auto intro!: fine_bind)
  next
    case False
    then show ?thesis using p pb by simp
  qed
qed simp

lemma parseargs_fine: "ps \<le> length b \<Longrightarrow> length b - ps < n \<Longrightarrow> fine b ps (parseargs n b argc ps)"
proof (induction n arbitrary: argc ps)
  case (Suc n)
  obtain r p1 where p: "peek b ps [124, 41, 38, 59] = (r, p1)" by (cases "peek b ps [124, 41, 38, 59]")
  obtain tok q eq p2 where g: "gettoken b p1 = (tok, q, eq, p2)" by (cases "gettoken b p1") auto
  note pb = peek_bounds(1,2) [OF p Suc.prems(1)]
  note gb = gettoken_bounds [OF g pb(2)]
  have "fine b ps (bindR (parseredirs n b p2) (\<lambda>(rs, ps). bindR (parseargs n b (argc + 1) ps) (\<lambda>((ws, rs'), ps). Inr (((q, eq) # ws, rs @ rs'), ps))))"
    if "tok = 97"
  proof -
    have p2: "p1 < p2" "p2 \<le> length b" using gb that by auto
    have "fine b p2 (parseredirs n b p2)" by (rule parseredirs_fine) (use Suc.prems p2 pb(1) in linarith)+
    then have rd: "fine b ps (parseredirs n b p2)" "\<And>x p3. parseredirs n b p2 = Inr (x, p3) \<Longrightarrow> p2 \<le> p3"
      using p2 pb(1) by (auto simp: fine_def dest: fine_weaken)
    have "fine b ps (parseargs n b (argc + 1) p3)" if "p2 \<le> p3" "p3 \<le> length b" for p3
    proof -
      have "fine b p3 (parseargs n b (argc + 1) p3)" by (rule Suc.IH) (use that Suc.prems p2 pb(1) in linarith)+
      then show ?thesis by (rule fine_weaken) (use that p2 pb(1) in linarith)
    qed
    then show ?thesis using rd by (auto intro!: fine_bind)
  qed
  then show ?case using p g pb gb by auto
qed simp

lemma parseback_fine: "ps \<le> length b \<Longrightarrow> length b - ps < n \<Longrightarrow> fine b ps (parseback n b c ps)"
proof (induction n arbitrary: c ps)
  case (Suc n)
  obtain r p1 where p: "peek b ps [38] = (r, p1)" by (cases "peek b ps [38]")
  obtain tok q eq p2 where g: "gettoken b p1 = (tok, q, eq, p2)" by (cases "gettoken b p1") auto
  note pb = peek_bounds [OF p Suc.prems(1)]
  have "fine b ps (parseback n b (BACK c) p2)" if r
  proof -
    have p2: "p1 < p2" "p2 \<le> length b" using pb(3) [OF that g] by auto
    have "fine b p2 (parseback n b (BACK c) p2)" by (rule Suc.IH) (use Suc.prems p2 pb(1) in linarith)+
    then show ?thesis by (rule fine_weaken) (use p2 pb(1) in linarith)
  qed
  then show ?case using p g pb(1,2) by auto
qed simp

text \<open>The step after \<open>peek\<close> has found a token.\<close>

lemma fine_after:
  assumes "peek b ps cs = (r, p1)" and "ps \<le> length b" and "r" and "gettoken b p1 = (tok, q, eq, p2)"
    and "\<And>p. ps < p \<Longrightarrow> p \<le> length b \<Longrightarrow> fine b p (m p)"
  shows "fine b ps (m p2)" and "ps < p2" and "p2 \<le> length b"
proof -
  have p: "p1 < p2 \<and> p2 \<le> length b" "ps \<le> p1" using peek_bounds [OF assms(1,2)] assms(3,4) by auto
  then show "ps < p2" "p2 \<le> length b" by auto
  then show "fine b ps (m p2)" using fine_weaken [OF assms(5) [of p2]] by simp
qed

lemma parse_fine:
  "ps \<le> length b \<Longrightarrow>
    (4 * (length b - ps) + 4 \<le> n \<longrightarrow> fine b ps (parseline n b ps)) \<and>
    (4 * (length b - ps) + 3 \<le> n \<longrightarrow> fine b ps (parsepipe n b ps)) \<and>
    (4 * (length b - ps) + 2 \<le> n \<longrightarrow> fine b ps (parseexec n b ps)) \<and>
    (4 * (length b - ps) + 1 \<le> n \<longrightarrow> fine b ps (parseblock n b ps))"
proof (induction n arbitrary: ps)
  case (Suc n)
  have IH: "p \<le> length b \<Longrightarrow> 4 * (length b - p) + 4 \<le> n \<Longrightarrow> fine b p (parseline n b p)"
    "p \<le> length b \<Longrightarrow> 4 * (length b - p) + 3 \<le> n \<Longrightarrow> fine b p (parsepipe n b p)"
    "p \<le> length b \<Longrightarrow> 4 * (length b - p) + 2 \<le> n \<Longrightarrow> fine b p (parseexec n b p)"
    "p \<le> length b \<Longrightarrow> 4 * (length b - p) + 1 \<le> n \<Longrightarrow> fine b p (parseblock n b p)" for p using Suc.IH [of p] by blast+
  show ?case
  proof (intro conjI impI)
    assume n: "4 * (length b - ps) + 4 \<le> Suc n"
    have tl: "fine b ps (case peek b p [59] of (r, p) \<Rightarrow> if \<not> r then Inr (c, p)
         else case gettoken b p of (_, _, _, p) \<Rightarrow> bindR (parseline n b p) (\<lambda>(r, ps). Inr (LIST c r, ps)))"
      if "ps \<le> p" "p \<le> length b" for p c
    proof -
      obtain r p1 where pk: "peek b p [59] = (r, p1)" by (cases "peek b p [59]")
      obtain tok q eq p2 where g: "gettoken b p1 = (tok, q, eq, p2)" by (cases "gettoken b p1") auto
      have "fine b p (parseline n b p2)" if r
        by (rule fine_after(1) [OF pk \<open>p \<le> length b\<close> that g]) (rule IH(1); use n \<open>ps \<le> p\<close> in linarith)
      then have "fine b ps (parseline n b p2)" if r using that \<open>ps \<le> p\<close> fine_weaken by blast
      then show ?thesis using pk g peek_bounds(1,2) [OF pk that(2)] that by (auto intro!: fine_bind)
    qed
    have pp: "fine b ps (parsepipe n b ps)" by (rule IH(2)) (use Suc.prems n in linarith)+
    have bk: "fine b ps (parseback n b c p)" if "ps \<le> p" "p \<le> length b" for c p
      by (rule fine_weaken [OF parseback_fine]) (use that n in linarith)+
    show "fine b ps (parseline (Suc n) b ps)"
      unfolding parseline.simps using pp bk tl by (intro fine_bind) (auto intro!: fine_bind)
  next
    assume n: "4 * (length b - ps) + 3 \<le> Suc n"
    have tl: "fine b ps (case peek b p [124] of (r, p) \<Rightarrow> if \<not> r then Inr (c, p)
         else case gettoken b p of (_, _, _, p) \<Rightarrow> bindR (parsepipe n b p) (\<lambda>(r, ps). Inr (PIPE c r, ps)))"
      if "ps \<le> p" "p \<le> length b" for p c
    proof -
      obtain r p1 where pk: "peek b p [124] = (r, p1)" by (cases "peek b p [124]")
      obtain tok q eq p2 where g: "gettoken b p1 = (tok, q, eq, p2)" by (cases "gettoken b p1") auto
      have "fine b p (parsepipe n b p2)" if r
        by (rule fine_after(1) [OF pk \<open>p \<le> length b\<close> that g]) (rule IH(2); use n \<open>ps \<le> p\<close> in linarith)
      then have "fine b ps (parsepipe n b p2)" if r using that \<open>ps \<le> p\<close> fine_weaken by blast
      then show ?thesis using pk g peek_bounds(1,2) [OF pk that(2)] that by (auto intro!: fine_bind)
    qed
    have pp: "fine b ps (parseexec n b ps)" by (rule IH(3)) (use Suc.prems n in linarith)+
    show "fine b ps (parsepipe (Suc n) b ps)"
      unfolding parsepipe.simps using pp tl by (intro fine_bind) auto
  next
    assume n: "4 * (length b - ps) + 2 \<le> Suc n"
    obtain r p1 where pk: "peek b ps [40] = (r, p1)" by (cases "peek b ps [40]")
    note pb = peek_bounds(1,2) [OF pk Suc.prems]
    have bl: "fine b ps (parseblock n b p1)" by (rule fine_weaken [OF IH(4)]) (use pb n in linarith)+
    have rd: "fine b ps (parseredirs n b p1)" by (rule fine_weaken [OF parseredirs_fine]) (use pb n in linarith)+
    have ar: "fine b ps (parseargs n b 0 p)" if "ps \<le> p" "p \<le> length b" for p
      by (rule fine_weaken [OF parseargs_fine]) (use that n in linarith)+
    have "fine b ps (bindR (parseredirs n b p1) (\<lambda>(rs, ps). bindR (parseargs n b 0 ps) (\<lambda>((ws, rs'), ps). Inr (redirs (EXEC ws) (rs @ rs'), ps))))"
      using rd ar by (intro fine_bind) (auto intro!: fine_bind)
    then show "fine b ps (parseexec (Suc n) b ps)" using pk bl by simp
  next
    assume n: "4 * (length b - ps) + 1 \<le> Suc n"
    obtain r p1 where pk: "peek b ps [40] = (r, p1)" by (cases "peek b ps [40]")
    obtain tok q eq p2 where g: "gettoken b p1 = (tok, q, eq, p2)" by (cases "gettoken b p1") auto
    have rd: "fine b ps (parseredirs n b p)" if "ps < p" "p \<le> length b" for p
      by (rule fine_weaken [OF parseredirs_fine]) (use that n in linarith)+
    have tl: "fine b ps (case peek b p [41] of (r, p) \<Rightarrow> if \<not> r then Inl (Panic ''syntax - missing )'')
        else case gettoken b p of (_, _, _, p) \<Rightarrow> bindR (parseredirs n b p) (\<lambda>(rs, p). Inr (redirs c rs, p)))"
      if "ps \<le> p" "p \<le> length b" for p c
    proof -
      obtain r p1 where pk: "peek b p [41] = (r, p1)" by (cases "peek b p [41]")
      obtain tok q eq p2 where g: "gettoken b p1 = (tok, q, eq, p2)" by (cases "gettoken b p1") auto
      have "ps < p2 \<and> p2 \<le> length b" if r using peek_bounds [OF pk \<open>p \<le> length b\<close>] that g \<open>ps \<le> p\<close> by fastforce
      then show ?thesis using pk g rd by (auto intro!: fine_bind)
    qed
    have "fine b ps (parseline n b p2)" if r
      by (rule fine_after(1) [OF pk Suc.prems that g]) (rule IH(1); use n in linarith)
    then have "fine b ps (bindR (parseline n b p2) (\<lambda>(c, p). case peek b p [41] of (r, p) \<Rightarrow> if \<not> r then Inl (Panic ''syntax - missing )'')
        else case gettoken b p of (_, _, _, p) \<Rightarrow> bindR (parseredirs n b p) (\<lambda>(rs, p). Inr (redirs c rs, p))))" if r
      using that tl by (intro fine_bind) auto
    then show "fine b ps (parseblock (Suc n) b ps)" using pk g by simp
  qed
qed simp

lemma parsecmd_never_diverges: "parsecmd b \<noteq> Inl Diverge"
proof -
  have "fine b 0 (parseline (4 * length b + 4) b 0)" using parse_fine [of 0 b "4 * length b + 4"] by simp
  then show ?thesis by (cases "parseline (4 * length b + 4) b 0") (auto simp: parsecmd_def fine_def split: prod.splits)
qed

subsection \<open>Lemmas: words\<close>

lemma gettoken_word_at:
  assumes "gettoken b ps = (97, q, eq, ps')" and "ps \<le> length b"
  shows "word_at b (q, eq)"
proof -
  let ?q = "skip isws b ps"
  have q: "q = ?q" "eq = skip inword b ?q" using assms(1) by (auto simp: gettoken_def Let_def split: if_splits)
  have lt: "q < eq" "eq \<le> ps'" "ps' \<le> length b" using gettoken_bounds [OF assms] by auto
  have "inword (b ! i)" if "q \<le> i" "i < eq" for i
  proof -
    have i: "i - q < length (takeWhile inword (drop q b))" using that q by (simp add: skip_eq)
    then have "inword (drop q b ! (i - q))" using nth_mem set_takeWhileD takeWhile_nth by metis
    then show ?thesis using that lt by simp
  qed
  moreover have "\<not> inword (b ! eq)" if "eq < length b" using skip_stop(1) that q(2) by blast
  ultimately show ?thesis using lt by (simp add: word_at_def)
qed

lemma sound_Inr [simp]: "sound b P (Inr (x, ps)) \<longleftrightarrow> P x \<and> ps \<le> length b"
  by (simp add: sound_def)

lemma sound_Inl [simp]: "sound b P (Inl e)"
  by (simp add: sound_def)

lemma sound_bind:
  assumes "sound b P m" and "\<And>x ps. P x \<Longrightarrow> ps \<le> length b \<Longrightarrow> sound b Q (f (x, ps))"
  shows "sound b Q (bindR m f)"
  using assms by (cases m) (auto simp: sound_def)

text \<open>The offset after \<open>peek\<close> or \<open>gettoken\<close> is in the line.\<close>

lemma peek_in:
  assumes "ps \<le> length b"
  obtains r p where "peek b ps cs = (r, p)" and "p \<le> length b"
  using peek_bounds(2) [OF _ assms] by (cases "peek b ps cs") blast

lemma gettoken_in:
  assumes "ps \<le> length b"
  obtains t q eq p where "gettoken b ps = (t, q, eq, p)" and "p \<le> length b" and "t = 97 \<longrightarrow> word_at b (q, eq)"
  using gettoken_bounds(4) [OF _ assms] gettoken_word_at [OF _ assms] by (cases "gettoken b ps") blast

lemma parseredirs_words: "ps \<le> length b \<Longrightarrow> sound b (\<lambda>rs. \<forall>x\<in>set rs. word_at b (fst x)) (parseredirs n b ps)"
proof (induction n arbitrary: ps)
  case (Suc n)
  obtain r p1 where p: "peek b ps [60, 62] = (r, p1)" "p1 \<le> length b" using peek_in [OF Suc.prems] .
  obtain tok q0 eq0 p2 where g: "gettoken b p1 = (tok, q0, eq0, p2)" "p2 \<le> length b" using gettoken_in [OF p(2)] .
  obtain w q eq p3 where g': "gettoken b p2 = (w, q, eq, p3)" "p3 \<le> length b" "w = 97 \<longrightarrow> word_at b (q, eq)" using gettoken_in [OF g(2)] .
  show ?case using p g g' by (auto intro!: sound_bind [OF Suc.IH] simp: redir_of_def)
qed simp

lemma args_words_Nil [simp]: "args_words b ([], [])"
  by (simp add: args_words_def)

lemma parseargs_words: "ps \<le> length b \<Longrightarrow> sound b (args_words b) (parseargs n b argc ps)"
proof (induction n arbitrary: argc ps)
  case (Suc n)
  obtain r p1 where p: "peek b ps [124, 41, 38, 59] = (r, p1)" "p1 \<le> length b" using peek_in [OF Suc.prems] .
  obtain tok q eq p2 where g: "gettoken b p1 = (tok, q, eq, p2)" "p2 \<le> length b" "tok = 97 \<longrightarrow> word_at b (q, eq)" using gettoken_in [OF p(2)] .
  have "sound b (args_words b) (bindR (parseredirs n b p2) (\<lambda>(rs, ps). bindR (parseargs n b (argc + 1) ps) (\<lambda>((ws, rs'), ps). Inr (((q, eq) # ws, rs @ rs'), ps))))"
    if "tok = 97"
    using g that by (auto intro!: sound_bind [OF parseredirs_words] sound_bind [OF Suc.IH] simp: args_words_def)
  then show ?case using p g by auto
qed simp

lemma set_redirs: "set_cmd (redirs c rs) = set_cmd c \<union> fst ` set rs"
  unfolding redirs_def by (induction rs arbitrary: c) auto

lemma redirs_words: "set_cmd (redirs c rs) \<subseteq> Collect P \<longleftrightarrow> set_cmd c \<subseteq> Collect P \<and> (\<forall>x\<in>set rs. P (fst x))"
  unfolding set_redirs by blast

lemma exec_words: "set_cmd (redirs (EXEC ws) rs) \<subseteq> Collect P \<longleftrightarrow> (\<forall>w\<in>set ws. P w) \<and> (\<forall>x\<in>set rs. P (fst x))"
  unfolding redirs_words by auto

lemma parseback_words: "ps \<le> length b \<Longrightarrow> set_cmd c \<subseteq> Collect (word_at b) \<Longrightarrow> sound b (\<lambda>c. set_cmd c \<subseteq> Collect (word_at b)) (parseback n b c ps)"
proof (induction n arbitrary: c ps)
  case (Suc n)
  obtain r p1 where p: "peek b ps [38] = (r, p1)" "p1 \<le> length b" using peek_in [OF Suc.prems(1)] .
  obtain tok q eq p2 where g: "gettoken b p1 = (tok, q, eq, p2)" "p2 \<le> length b" using gettoken_in [OF p(2)] .
  show ?case using p g Suc.IH [OF g(2), of "BACK c"] Suc.prems(2) by auto
qed simp

lemma parse_words:
  "ps \<le> length b \<Longrightarrow> sound b (\<lambda>c. set_cmd c \<subseteq> Collect (word_at b)) (parseline n b ps) \<and>
    sound b (\<lambda>c. set_cmd c \<subseteq> Collect (word_at b)) (parsepipe n b ps) \<and>
    sound b (\<lambda>c. set_cmd c \<subseteq> Collect (word_at b)) (parseexec n b ps) \<and>
    sound b (\<lambda>c. set_cmd c \<subseteq> Collect (word_at b)) (parseblock n b ps)"
proof (induction n arbitrary: ps)
  case (Suc n)
  let ?W = "\<lambda>c. set_cmd c \<subseteq> Collect (word_at b)"
  have IH: "sound b ?W (parseline n b p)" "sound b ?W (parsepipe n b p)" "sound b ?W (parseexec n b p)" "sound b ?W (parseblock n b p)"
    if "p \<le> length b" for p using Suc.IH [OF that] by auto
  have line: "sound b ?W (case peek b p [59] of (r, p) \<Rightarrow> if \<not> r then Inr (c, p)
         else case gettoken b p of (_, _, _, p) \<Rightarrow> bindR (parseline n b p) (\<lambda>(r, ps). Inr (LIST c r, ps)))"
    if h: "p \<le> length b" "?W c" for p c
  proof -
    obtain r p1 where p: "peek b p [59] = (r, p1)" "p1 \<le> length b" using peek_in [OF h(1)] .
    obtain tok q eq p2 where g: "gettoken b p1 = (tok, q, eq, p2)" "p2 \<le> length b" using gettoken_in [OF p(2)] .
    show ?thesis using p g h by (auto intro!: sound_bind [OF IH(1)])
  qed
  have pipe: "sound b ?W (case peek b p [124] of (r, p) \<Rightarrow> if \<not> r then Inr (c, p)
         else case gettoken b p of (_, _, _, p) \<Rightarrow> bindR (parsepipe n b p) (\<lambda>(r, ps). Inr (PIPE c r, ps)))"
    if h: "p \<le> length b" "?W c" for p c
  proof -
    obtain r p1 where p: "peek b p [124] = (r, p1)" "p1 \<le> length b" using peek_in [OF h(1)] .
    obtain tok q eq p2 where g: "gettoken b p1 = (tok, q, eq, p2)" "p2 \<le> length b" using gettoken_in [OF p(2)] .
    show ?thesis using p g h by (auto intro!: sound_bind [OF IH(2)])
  qed
  have block: "sound b ?W (case peek b p [41] of (r, p) \<Rightarrow> if \<not> r then Inl (Panic ''syntax - missing )'')
        else case gettoken b p of (_, _, _, p) \<Rightarrow> bindR (parseredirs n b p) (\<lambda>(rs, p). Inr (redirs c rs, p)))"
    if h: "p \<le> length b" "?W c" for p c
  proof -
    obtain r p1 where p: "peek b p [41] = (r, p1)" "p1 \<le> length b" using peek_in [OF h(1)] .
    obtain tok q eq p2 where g: "gettoken b p1 = (tok, q, eq, p2)" "p2 \<le> length b" using gettoken_in [OF p(2)] .
    show ?thesis using p g h by (auto intro!: sound_bind [OF parseredirs_words] simp: redirs_words)
  qed
  obtain r p1 where p: "peek b ps [40] = (r, p1)" "p1 \<le> length b" using peek_in [OF Suc.prems] .
  obtain tok q eq p2 where g: "gettoken b p1 = (tok, q, eq, p2)" "p2 \<le> length b" using gettoken_in [OF p(2)] .
  have "sound b ?W (bindR (parseredirs n b p1) (\<lambda>(rs, ps). bindR (parseargs n b 0 ps) (\<lambda>((ws, rs'), ps). Inr (redirs (EXEC ws) (rs @ rs'), ps))))"
    using p by (auto intro!: sound_bind [OF parseredirs_words] sound_bind [OF parseargs_words] simp: exec_words args_words_def)
  then have "sound b ?W (parseexec (Suc n) b ps)" using p IH(4) by simp
  moreover have "sound b ?W (parseline (Suc n) b ps)" unfolding parseline.simps
    using Suc.prems line by (auto intro!: sound_bind [OF IH(2)] sound_bind [OF parseback_words])
  moreover have "sound b ?W (parsepipe (Suc n) b ps)" unfolding parsepipe.simps
    using Suc.prems pipe by (auto intro!: sound_bind [OF IH(3)])
  moreover have "sound b ?W (bindR (parseline n b p2) (\<lambda>(c, p). case peek b p [41] of (r, p) \<Rightarrow> if \<not> r then Inl (Panic ''syntax - missing )'')
        else case gettoken b p of (_, _, _, p) \<Rightarrow> bindR (parseredirs n b p) (\<lambda>(rs, p). Inr (redirs c rs, p))))"
    using g block by (auto intro!: sound_bind [OF IH(1)])
  then have "sound b ?W (parseblock (Suc n) b ps)" using p g by simp
  ultimately show ?case by simp
qed simp

lemma parsecmd_words: "parsecmd b = Inr (c, b') \<Longrightarrow> set_cmd c \<subseteq> Collect (word_at b) \<and> b' = nulterminate c (b @ [0])"
  using parse_words [of 0 b "4 * length b + 4"] by (auto simp: parsecmd_def sound_def split: prod.splits if_splits)

text \<open>Terminating the words does not touch any of them.\<close>

lemma length_fold_upd [simp]: "length (fold (\<lambda>(q, eq) b. b[eq := 0]) ws b) = length b"
  by (induction ws arbitrary: b) auto

lemma length_nulterminate [simp]: "length (nulterminate c b) = length b"
  by (induction c arbitrary: b) auto

lemma nth_nulterminate: "i < length b \<Longrightarrow> nulterminate c b ! i = (if i \<in> snd ` set_cmd c then 0 else b ! i)"
proof (induction c arbitrary: b)
  case (EXEC ws)
  then show ?case
  proof (induction ws arbitrary: b)
    case (Cons w ws)
    then show ?case using Cons.IH [of "b[snd w := 0]"] by (auto simp: nth_list_update split: prod.splits)
  qed simp
next
  case (REDIR c f md fd)
  then show ?case by (cases "i = snd f") (simp_all add: image_Un)
qed (simp_all add: image_Un)

lemma word_reads_back:
  assumes c: "set_cmd c \<subseteq> Collect (word_at b)" and w: "w \<in> set_cmd c" and nz: "0 \<notin> set b"
  shows "cstring (nulterminate c (b @ [0])) w = sub b w"
proof -
  obtain q eq where [simp]: "w = (q, eq)" by (cases w)
  have wd: "word_at b (q, eq)" using c w by auto
  then have le: "q < eq" "eq \<le> length b" by (auto simp: word_at_def)
  let ?b = "nulterminate c (b @ [0])"
  have in_w: "?b ! i = b ! i" if i: "q \<le> i" "i < eq" for i
  proof -
    have "i \<notin> snd ` set_cmd c"
    proof
      assume "i \<in> snd ` set_cmd c"
      then obtain v where v: "v \<in> set_cmd c" "snd v = i" by auto
      then have "\<not> inword (b ! i)" using c i le by (auto simp: word_at_def)
      then show False using wd i by (auto simp: word_at_def)
    qed
    then show ?thesis using nth_nulterminate [of i "b @ [0]" c] i le by (simp add: nth_append)
  qed
  have at_eq: "?b ! eq = 0" using nth_nulterminate [of eq "b @ [0]" c] w le by (force simp: image_iff)
  have len: "length ?b = length b + 1" by simp
  have "drop q ?b = map (\<lambda>i. b ! i) [q..<eq] @ drop eq ?b"
    by (rule nth_equalityI) (use le len in_w in \<open>auto simp: nth_append add.commute\<close>)
  moreover have "drop eq ?b = 0 # drop (Suc eq) ?b" using le len at_eq by (metis Cons_nth_drop_Suc le_imp_less_Suc Suc_eq_plus1)
  moreover have "map (\<lambda>i. b ! i) [q..<eq] = sub b w"
    by (rule nth_equalityI) (use le in \<open>auto simp: sub_def\<close>)
  moreover have "\<forall>x\<in>set (sub b w). x \<noteq> 0" using nz by (auto simp: sub_def dest: in_set_takeD in_set_dropD)
  ultimately show ?thesis by (simp add: cstring_def takeWhile_append2)
qed

subsection \<open>Lemmas: tokens of a printed line\<close>

lemma print_simps [simp]: "print [] = []" "print (t # ts) = tok_bytes t @ 32 # print ts" "print (ts @ us) = print ts @ print us"
  by (simp_all add: print_def)

lemma good_tok_hd:
  assumes "good_tok t"
  obtains c cs where "tok_bytes t = c # cs" "\<not> isws c" "c \<noteq> 0"
proof (cases t)
  case (Word w)
  then show ?thesis using assms that by (cases w) (auto simp: good_tok_def word_ok_def inword_def isws_def)
next
  case (Sym x)
  then show ?thesis using assms that by (auto simp: good_tok_def symbols_def isws_def whitespace_def)
qed

lemma stands_skip:
  assumes "stands b ps ts"
  shows "skip isws b ps = ps"
proof -
  have "takeWhile isws (print ts) = []"
    using assms by (cases ts) (auto simp: stands_def elim!: good_tok_hd)
  then show ?thesis using assms by (simp add: skip_eq stands_def)
qed

lemma stands_at: "stands b ps ts \<Longrightarrow> at b ps = ch (print ts)"
  by (cases "ps < length b") (auto simp: at_def ch_def stands_def hd_drop_conv_nth [symmetric])

lemma stands_Cons:
  assumes "stands b ps (t # ts)"
  defines "e \<equiv> ps + length (tok_bytes t)"
  shows "drop e b = 32 # print ts" and "skip isws b e = e + 1" and "stands b (e + 1) ts"
proof -
  have d: "drop ps b = tok_bytes t @ 32 # print ts" using assms(1) by (simp add: stands_def)
  have "drop e b = drop (length (tok_bytes t)) (drop ps b)" by (simp add: e_def add.commute)
  then show e: "drop e b = 32 # print ts" unfolding d by simp
  then have "e < length b" using drop_eq_Nil [of e b] by (metis not_le list.distinct(1))
  moreover have e1: "drop (e + 1) b = print ts" using e by (metis Suc_eq_plus1 drop_Suc list.sel(3) tl_drop)
  ultimately show s: "stands b (e + 1) ts" using assms(1) by (simp add: stands_def)
  have "skip isws b (e + 1) = e + 1" using s by (rule stands_skip)
  moreover have "b ! e = 32" using e \<open>e < length b\<close> by (metis Cons_nth_drop_Suc list.inject)
  ultimately show "skip isws b e = e + 1" using \<open>e < length b\<close> by (subst skip.simps) (simp add: isws_def whitespace_def)
qed

lemma gettoken_Word:
  assumes "stands b ps (Word w # ts)"
  shows "gettoken b ps = (97, ps, ps + length w, ps + length w + 1)" and "stands b (ps + length w + 1) ts" and "sub b (ps, ps + length w) = w"
proof -
  note s = stands_Cons [OF assms]
  show "stands b (ps + length w + 1) ts" using s(3) by simp
  have d: "drop ps b = w @ 32 # print ts" and w: "word_ok w" using assms by (auto simp: stands_def good_tok_def)
  have "skip inword b ps = ps + length w"
    using d w by (simp add: skip_eq takeWhile_append2 list_all_iff word_ok_def) (simp add: inword_def whitespace_def)
  moreover obtain c cs where c: "w = c # cs" using w by (cases w) (auto simp: word_ok_def)
  have "at b ps = c" using stands_at [OF assms] c by (simp add: ch_def)
  moreover have "c \<noteq> 0" "c \<notin> set symbols" using w c by (auto simp: word_ok_def inword_def)
  ultimately show "gettoken b ps = (97, ps, ps + length w, ps + length w + 1)"
    using stands_skip [OF assms] s(2) by (simp add: gettoken_def Let_def symbols_def)
  show "sub b (ps, ps + length w) = w" using d by (simp add: sub_def)
qed

lemma gettoken_Sym:
  assumes "stands b ps (Sym x # ts)"
  shows "gettoken b ps = (x, ps, ps + 1, ps + 2)" and "stands b (ps + 2) ts"
proof -
  note s = stands_Cons [OF assms]
  show "stands b (ps + 2) ts" using s(3) by simp
  have x: "at b ps = x" using stands_at [OF assms] by (simp add: ch_def)
  have "drop (ps + 1) b = 32 # print ts" using s(1) by simp
  then have "at b (ps + 1) = 32" by (metis at_def drop_eq_Nil hd_drop_conv_nth leI list.distinct(1) list.sel(1))
  moreover have "x \<in> set symbols" using assms by (simp add: stands_def good_tok_def)
  then have "x \<noteq> 0" "x = 62 \<or> x \<in> set [124, 40, 41, 59, 38, 60]" by (auto simp: symbols_def)
  ultimately show "gettoken b ps = (x, ps, ps + 1, ps + 2)"
    using stands_skip [OF assms] s(2) x by (auto simp: gettoken_def Let_def)
qed

lemma peek_stands:
  assumes "stands b ps ts" and "set cs \<subseteq> set symbols"
  shows "peek b ps cs = (starts cs ts, ps)"
proof -
  have "(at b ps \<noteq> 0 \<and> at b ps \<in> set cs) = starts cs ts"
  proof (cases ts)
    case Nil
    then show ?thesis using stands_at [OF assms(1)] by (simp add: starts_def ch_def)
  next
    case (Cons t us)
    have g: "good_tok t" using assms(1) Cons by (simp add: stands_def)
    show ?thesis
    proof (cases t)
      case (Word w)
      then obtain c cs' where "w = c # cs'" "inword c" using g by (cases w) (auto simp: good_tok_def word_ok_def)
      then show ?thesis using stands_at [OF assms(1)] Cons Word assms(2) by (auto simp: starts_def ch_def inword_def)
    next
      case (Sym x)
      then show ?thesis using stands_at [OF assms(1)] Cons g by (auto simp: starts_def ch_def good_tok_def symbols_def)
    qed
  qed
  then show ?thesis using stands_skip [OF assms(1)] by (simp add: peek_def)
qed

subsection \<open>Lemmas: parsing a printed line\<close>

lemma symbols_sub:
  "set [60, 62] \<subseteq> set symbols" "set [124, 41, 38, 59] \<subseteq> set symbols" "set [38] \<subseteq> set symbols" "set [59] \<subseteq> set symbols"
  "set [124] \<subseteq> set symbols" "set [40] \<subseteq> set symbols" "set [41] \<subseteq> set symbols"
  by (simp_all add: symbols_def)

lemma redir_toks_simps [simp]: "redir_toks [] = []"
  "redir_toks ((f, md, fd) # rs) = Sym (if fd = 0 then 60 else 62) # Word f # redir_toks rs"
  "redir_toks (rs @ rs') = redir_toks rs @ redir_toks rs'"
  by (simp_all add: redir_toks_def)

lemma parseredirs_stands:
  "stands b ps (redir_toks rs @ ts) \<Longrightarrow> redirs_ok rs \<Longrightarrow> \<not> starts [60, 62] ts \<Longrightarrow> length (print (redir_toks rs @ ts)) < n \<Longrightarrow>
    \<exists>rs' ps'. parseredirs n b ps = Inr (rs', ps') \<and> stands b ps' ts \<and> sub_redirs b rs' = rs"
proof (induction rs arbitrary: ps n)
  case Nil
  then obtain m where "n = Suc m" by (cases n) auto
  then show ?case using Nil peek_stands [OF Nil(1) symbols_sub(1)] by (simp add: sub_redirs_def)
next
  case (Cons x rs)
  obtain f md fd where x: "x = (f, md, fd)" by (cases x)
  obtain m where n: "n = Suc m" using Cons.prems(4) by (cases n) auto
  let ?s = "if fd = 0 then 60 else 62 :: u8"
  have st: "stands b ps (Sym ?s # Word f # redir_toks rs @ ts)" using Cons.prems(1) x by simp
  note g1 = gettoken_Sym [OF st]
  note g2 = gettoken_Word [OF g1(2)]
  have pk: "peek b ps [60, 62] = (True, ps)" using peek_stands [OF st symbols_sub(1)] by (simp add: starts_def)
  obtain rs' ps' where r: "parseredirs m b (ps + 2 + length f + 1) = Inr (rs', ps')" "stands b ps' ts" "sub_redirs b rs' = rs"
    using Cons.IH [OF g2(2) _ Cons.prems(3), of m] Cons.prems(2,4) x n by (auto simp: redirs_ok_def)
  have "redir_of ?s (ps + 2, ps + 2 + length f) = [((ps + 2, ps + 2 + length f), md, fd)]"
    using Cons.prems(2) x by (auto simp: redir_of_def redirs_ok_def redir_ok_def)
  then show ?case using pk g1(1) g2(1,3) r by (auto simp: n x sub_redirs_def)
qed

lemma follow_starts: "follow k ts \<Longrightarrow> \<not> starts [60, 62] ts" "follow k ts \<Longrightarrow> \<not> starts [40] ts"
  "follow k ts \<Longrightarrow> k \<le> 2 \<Longrightarrow> \<not> starts [124] ts" "follow k ts \<Longrightarrow> k \<le> 1 \<Longrightarrow> \<not> starts [38] ts" "follow k ts \<Longrightarrow> k = 0 \<Longrightarrow> \<not> starts [59] ts"
  by (auto simp: follow_def starts_def split: list.splits token.splits)

lemma follow_up: "follow k ts \<Longrightarrow> k \<le> l \<Longrightarrow> follow l ts"
  by (auto simp: follow_def split: list.splits token.splits)

lemma stands_end: "stands b ps [] \<Longrightarrow> gettoken b ps = (0, ps, ps, ps)"
  using stands_skip [of b ps "[]"] stands_at [of b ps "[]"] by (simp add: gettoken_def ch_def)

lemma parseargs_end:
  assumes "stands b ps ts" and "follow 3 ts" and "0 < n"
  shows "parseargs n b argc ps = Inr (([], []), ps)"
proof -
  obtain m where n: "n = Suc m" using assms(3) by (cases n) auto
  note pk = peek_stands [OF assms(1) symbols_sub(2)]
  show ?thesis
  proof (cases ts)
    case Nil
    then show ?thesis using pk stands_end assms(1) n by (simp add: starts_def)
  next
    case (Cons t us)
    then have "starts [124, 41, 38, 59] ts" using assms(2) by (cases t) (auto simp: follow_def starts_def)
    then show ?thesis using pk n by simp
  qed
qed

lemma parseargs_stands:
  "stands b ps (map Word ws @ redir_toks rs @ ts) \<Longrightarrow> redirs_ok rs \<Longrightarrow> follow 3 ts \<Longrightarrow> (ws = [] \<Longrightarrow> rs = []) \<Longrightarrow>
    argc + length ws < MAXARGS \<Longrightarrow> length (print (map Word ws @ redir_toks rs @ ts)) < n \<Longrightarrow>
    \<exists>ws' rs' ps'. parseargs n b argc ps = Inr ((ws', rs'), ps') \<and> stands b ps' ts \<and> map (sub b) ws' = ws \<and> sub_redirs b rs' = rs"
proof (induction ws arbitrary: argc ps n)
  case Nil
  then show ?case using parseargs_end [of b ps ts n argc] by (simp add: sub_redirs_def)
next
  case (Cons w ws)
  obtain m where n: "n = Suc m" using Cons.prems(6) by (cases n) auto
  have st: "stands b ps (Word w # map Word ws @ redir_toks rs @ ts)" using Cons.prems(1) by simp
  note g = gettoken_Word [OF st]
  let ?p = "ps + length w + 1"
  have pk: "peek b ps [124, 41, 38, 59] = (False, ps)" using peek_stands [OF st symbols_sub(2)] by (simp add: starts_def)
  have len: "length (print (map Word ws @ redir_toks rs @ ts)) < m" using Cons.prems(6) n by simp
  have "\<exists>rs1 p1 ws2 rs2 p2. parseredirs m b ?p = Inr (rs1, p1) \<and> parseargs m b (argc + 1) p1 = Inr ((ws2, rs2), p2) \<and>
      stands b p2 ts \<and> map (sub b) ws2 = ws \<and> sub_redirs b (rs1 @ rs2) = rs"
  proof (cases ws)
    case Nil
    obtain rs1 p1 where r: "parseredirs m b ?p = Inr (rs1, p1)" "stands b p1 ts" "sub_redirs b rs1 = rs"
      using parseredirs_stands [of b ?p rs ts m] g(2) Nil Cons.prems(2) follow_starts(1) [OF Cons.prems(3)] len by auto
    then show ?thesis using parseargs_end [OF r(2) Cons.prems(3), of m "argc + 1"] len Nil by auto
  next
    case (Cons v vs)
    have "parseredirs m b ?p = Inr ([], ?p)"
      using parseredirs_stands [of b ?p "[]" "map Word ws @ redir_toks rs @ ts" m] peek_stands [OF g(2) symbols_sub(1)] len g(2) Cons
      by (cases m) (auto simp: starts_def)
    moreover obtain ws2 rs2 p2 where "parseargs m b (argc + 1) ?p = Inr ((ws2, rs2), p2)" "stands b p2 ts" "map (sub b) ws2 = ws" "sub_redirs b rs2 = rs"
      using Cons.IH [OF g(2) Cons.prems(2,3) _ _ len, of "argc + 1"] Cons Cons.prems(5) by auto
    ultimately show ?thesis by auto
  qed
  then obtain rs1 p1 ws2 rs2 p2 where "parseredirs m b ?p = Inr (rs1, p1)" "parseargs m b (argc + 1) p1 = Inr ((ws2, rs2), p2)"
      "stands b p2 ts" "map (sub b) ws2 = ws" "sub_redirs b (rs1 @ rs2) = rs" by blast
  then show ?case using pk g(1,3) Cons.prems(5) n by auto
qed

lemma map_redirs: "map_cmd (sub b) (redirs c rs) = redirs (map_cmd (sub b) c) (sub_redirs b rs)"
  unfolding redirs_def sub_redirs_def by (induction rs arbitrary: c) auto

lemma redirs_append: "redirs c (rs @ rs') = redirs (redirs c rs) rs'"
  by (simp add: redirs_def)

lemma sub_redirs_append: "sub_redirs b (rs @ rs') = sub_redirs b rs @ sub_redirs b rs'"
  by (simp add: sub_redirs_def)

lemma parsesD:
  assumes "parses k T c" and "stands b ps (T @ ts)" and "follow k ts" and "4 * length (print (T @ ts)) + depth k \<le> n"
  obtains c' ps' where "parser k n b ps = Inr (c', ps')" "stands b ps' ts" "map_cmd (sub b) c' = c"
  using assms unfolding parses_def by blast

lemma parses_exec:
  assumes "length ws < MAXARGS" and "redirs_ok rs"
  shows "parses 3 (map Word ws @ redir_toks rs) (redirs (EXEC ws) rs)"
  unfolding parses_def
proof (intro allI impI)
  fix b ps ts n
  assume st: "stands b ps ((map Word ws @ redir_toks rs) @ ts)" and fo: "follow 3 ts"
    and "4 * length (print ((map Word ws @ redir_toks rs) @ ts)) + depth 3 \<le> n"
  then obtain m where n: "n = Suc m" and m: "length (print (map Word ws @ redir_toks rs @ ts)) < m" by (cases n) (auto simp: depth_def)
  have "\<not> starts [40] (map Word ws @ redir_toks rs @ ts)"
    using follow_starts(2) [OF fo] by (cases ws; cases rs) (auto simp: starts_def split: if_splits)
  then have pk: "peek b ps [40] = (False, ps)" using peek_stands [of b ps _ "[40]"] st symbols_sub(6) by auto
  have "\<exists>rs1 p1 ws2 rs2 p2. parseredirs m b ps = Inr (rs1, p1) \<and> parseargs m b 0 p1 = Inr ((ws2, rs2), p2) \<and>
      stands b p2 ts \<and> map (sub b) ws2 = ws \<and> sub_redirs b (rs1 @ rs2) = rs"
  proof (cases ws)
    case Nil
    obtain rs1 p1 where r: "parseredirs m b ps = Inr (rs1, p1)" "stands b p1 ts" "sub_redirs b rs1 = rs"
      using parseredirs_stands [of b ps rs ts m] st Nil assms(2) follow_starts(1) [OF fo] m by auto
    then show ?thesis using parseargs_end [OF r(2) fo, of m 0] m Nil by auto
  next
    case (Cons v vs)
    have ns: "\<not> starts [60, 62] (map Word ws @ redir_toks rs @ ts)" using Cons by (simp add: starts_def)
    obtain rs1 p1 where r: "parseredirs m b ps = Inr (rs1, p1)" "stands b p1 (map Word ws @ redir_toks rs @ ts)" "sub_redirs b rs1 = []"
      using parseredirs_stands [of b ps "[]" "map Word ws @ redir_toks rs @ ts" m] st ns m by (auto simp: redirs_ok_def)
    then show ?thesis using parseargs_stands [OF r(2) assms(2) fo _ _ m, of 0] Cons assms(1) by (auto simp: sub_redirs_append)
  qed
  then obtain rs1 p1 ws2 rs2 p2 where r: "parseredirs m b ps = Inr (rs1, p1)" "parseargs m b 0 p1 = Inr ((ws2, rs2), p2)"
      "stands b p2 ts" "map (sub b) ws2 = ws" "sub_redirs b (rs1 @ rs2) = rs" by blast
  have "parser 3 n b ps = Inr (redirs (EXEC ws2) (rs1 @ rs2), p2)" using pk r(1,2) by (simp add: n eval_nat_numeral)
  then show "\<exists>c' ps'. parser 3 n b ps = Inr (c', ps') \<and> stands b ps' ts \<and> map_cmd (sub b) c' = redirs (EXEC ws) rs"
    using r(3-5) by (auto simp: map_redirs)
qed

lemma parses_block:
  assumes "parses 0 T c" and "redirs_ok rs"
  shows "parses 3 (Sym 40 # T @ Sym 41 # redir_toks rs) (redirs c rs)"
  unfolding parses_def
proof (intro allI impI)
  fix b ps ts n
  assume "stands b ps ((Sym 40 # T @ Sym 41 # redir_toks rs) @ ts)" and fo: "follow 3 ts"
    and "4 * length (print ((Sym 40 # T @ Sym 41 # redir_toks rs) @ ts)) + depth 3 \<le> n"
  then obtain m where n: "n = Suc (Suc m)" and st: "stands b ps (Sym 40 # T @ Sym 41 # redir_toks rs @ ts)"
    and m: "4 * length (print (T @ Sym 41 # redir_toks rs @ ts)) + depth 0 \<le> m" by (cases n; cases "n - 1") (auto simp: depth_def)
  have pk: "peek b ps [40] = (True, ps)" using peek_stands [OF st symbols_sub(6)] by (simp add: starts_def)
  note g = gettoken_Sym [OF st]
  have "follow 0 (Sym 41 # redir_toks rs @ ts)" by (simp add: follow_def)
  then obtain c' p1 where l: "parseline m b (ps + 2) = Inr (c', p1)" "stands b p1 (Sym 41 # redir_toks rs @ ts)" "map_cmd (sub b) c' = c"
    using parsesD [OF assms(1) g(2) _ m] by auto
  have pk': "peek b p1 [41] = (True, p1)" using peek_stands [OF l(2) symbols_sub(7)] by (simp add: starts_def)
  note g' = gettoken_Sym [OF l(2)]
  obtain rs' p2 where r: "parseredirs m b (p1 + 2) = Inr (rs', p2)" "stands b p2 ts" "sub_redirs b rs' = rs"
    using parseredirs_stands [OF g'(2) assms(2) follow_starts(1) [OF fo], of m] m by auto
  have "parser 3 n b ps = Inr (redirs c' rs', p2)" using pk g(1) l(1) pk' g'(1) r(1) by (simp add: n eval_nat_numeral)
  then show "\<exists>c' ps'. parser 3 n b ps = Inr (c', ps') \<and> stands b ps' ts \<and> map_cmd (sub b) c' = redirs c rs"
    using r(2,3) l(3) by (auto simp: map_redirs)
qed

lemma parses_up3: "parses 3 T c \<Longrightarrow> parses 2 T c"
  unfolding parses_def [of 2]
proof (intro allI impI)
  fix b ps ts n
  assume p: "parses 3 T c" and st: "stands b ps (T @ ts)" and fo: "follow 2 ts" and "4 * length (print (T @ ts)) + depth 2 \<le> n"
  then obtain m where n: "n = Suc m" and m: "4 * length (print (T @ ts)) + depth 3 \<le> m" by (cases n) (auto simp: depth_def)
  obtain c' p1 where e: "parseexec m b ps = Inr (c', p1)" "stands b p1 ts" "map_cmd (sub b) c' = c"
    using parsesD [OF p st follow_up [OF fo] m] by (auto simp: eval_nat_numeral)
  have "peek b p1 [124] = (False, p1)" using peek_stands [OF e(2) symbols_sub(5)] follow_starts(3) [OF fo] by simp
  then show "\<exists>c' ps'. parser 2 n b ps = Inr (c', ps') \<and> stands b ps' ts \<and> map_cmd (sub b) c' = c" using e by (simp add: n eval_nat_numeral)
qed

lemma parses_pipe: "parses 3 A l \<Longrightarrow> parses 2 B r \<Longrightarrow> parses 2 (A @ Sym 124 # B) (PIPE l r)"
  unfolding parses_def [of 2 "A @ Sym 124 # B"]
proof (intro allI impI)
  fix b ps ts n
  assume p: "parses 3 A l" "parses 2 B r" and "stands b ps ((A @ Sym 124 # B) @ ts)" and fo: "follow 2 ts"
    and "4 * length (print ((A @ Sym 124 # B) @ ts)) + depth 2 \<le> n"
  then obtain m where n: "n = Suc m" and st: "stands b ps (A @ Sym 124 # B @ ts)" and m: "4 * length (print (A @ Sym 124 # B @ ts)) + depth 3 \<le> m"
    by (cases n) (auto simp: depth_def)
  have "follow 3 (Sym 124 # B @ ts)" by (simp add: follow_def)
  then obtain l' p1 where e: "parseexec m b ps = Inr (l', p1)" "stands b p1 (Sym 124 # B @ ts)" "map_cmd (sub b) l' = l"
    using parsesD [OF p(1) st _ m] by (auto simp: eval_nat_numeral)
  have pk: "peek b p1 [124] = (True, p1)" using peek_stands [OF e(2) symbols_sub(5)] by (simp add: starts_def)
  note g = gettoken_Sym [OF e(2)]
  have "4 * length (print (B @ ts)) + depth 2 \<le> m" using m by (simp add: depth_def)
  then obtain r' p2 where f: "parsepipe m b (p1 + 2) = Inr (r', p2)" "stands b p2 ts" "map_cmd (sub b) r' = r"
    using parsesD [OF p(2) g(2) fo] by (auto simp: eval_nat_numeral)
  show "\<exists>c' ps'. parser 2 n b ps = Inr (c', ps') \<and> stands b ps' ts \<and> map_cmd (sub b) c' = PIPE l r"
    using e pk g f by (simp add: n eval_nat_numeral)
qed

lemma parseback_stands:
  "stands b ps (replicate j (Sym 38) @ ts) \<Longrightarrow> follow 1 ts \<Longrightarrow> length (print (replicate j (Sym 38) @ ts)) < n \<Longrightarrow>
    \<exists>ps'. parseback n b c ps = Inr ((BACK ^^ j) c, ps') \<and> stands b ps' ts"
proof (induction j arbitrary: c ps n)
  case 0
  then obtain m where "n = Suc m" by (cases n) auto
  then show ?case using 0 peek_stands [OF 0(1) symbols_sub(3)] follow_starts(4) by auto
next
  case (Suc j)
  then obtain m where n: "n = Suc m" by (cases n) auto
  have st: "stands b ps (Sym 38 # replicate j (Sym 38) @ ts)" using Suc.prems(1) by simp
  have pk: "peek b ps [38] = (True, ps)" using peek_stands [OF st symbols_sub(3)] by (simp add: starts_def)
  note g = gettoken_Sym [OF st]
  obtain p where "parseback m b (BACK c) (ps + 2) = Inr ((BACK ^^ j) (BACK c), p)" "stands b p ts"
    using Suc.IH [OF g(2) Suc.prems(2), of m "BACK c"] Suc.prems(3) n by auto
  then show ?case using pk g n by (simp add: funpow_swap1)
qed

lemma map_BACK: "map_cmd f ((BACK ^^ j) c) = (BACK ^^ j) (map_cmd f c)"
  by (induction j) simp_all

lemma parses_back: "parses 2 A c \<Longrightarrow> parses 1 (A @ replicate j (Sym 38)) ((BACK ^^ j) c)"
  unfolding parses_def [of 1]
proof (intro allI impI)
  fix b ps ts n
  assume p: "parses 2 A c" and "stands b ps ((A @ replicate j (Sym 38)) @ ts)" and fo: "follow 1 ts"
    and "4 * length (print ((A @ replicate j (Sym 38)) @ ts)) + depth 1 \<le> n"
  then have st: "stands b ps (A @ replicate j (Sym 38) @ ts)" and m: "4 * length (print (A @ replicate j (Sym 38) @ ts)) + depth 2 \<le> n"
    by (auto simp: depth_def)
  have "follow 2 (replicate j (Sym 38) @ ts)" using follow_up [OF fo, of 2] by (cases j) (auto simp: follow_def)
  then obtain c' p1 where e: "parsepipe n b ps = Inr (c', p1)" "stands b p1 (replicate j (Sym 38) @ ts)" "map_cmd (sub b) c' = c"
    using parsesD [OF p st _ m] by (auto simp: eval_nat_numeral)
  obtain p2 where f: "parseback n b c' p1 = Inr ((BACK ^^ j) c', p2)" "stands b p2 ts"
    using parseback_stands [OF e(2) fo, of n c'] m by (auto simp: depth_def)
  show "\<exists>c' ps'. parser 1 n b ps = Inr (c', ps') \<and> stands b ps' ts \<and> map_cmd (sub b) c' = (BACK ^^ j) c"
    using e f by (simp add: map_BACK)
qed

lemma parseline_eq:
  "parseline (Suc n) b ps = bindR (parser 1 n b ps) (\<lambda>(c, ps).
       case peek b ps [59] of (r, ps) \<Rightarrow>
         if \<not> r then Inr (c, ps)
         else case gettoken b ps of (_, _, _, ps) \<Rightarrow> bindR (parseline n b ps) (\<lambda>(r, ps). Inr (LIST c r, ps)))"
  by (cases "parsepipe n b ps") (auto split: prod.splits)

lemma parses_up1: "parses 1 T c \<Longrightarrow> parses 0 T c"
  unfolding parses_def [of 0]
proof (intro allI impI)
  fix b ps ts n
  assume p: "parses 1 T c" and st: "stands b ps (T @ ts)" and fo: "follow 0 ts" and "4 * length (print (T @ ts)) + depth 0 \<le> n"
  then obtain m where n: "n = Suc m" and m: "4 * length (print (T @ ts)) + depth 1 \<le> m" by (cases n) (auto simp: depth_def)
  obtain c' p1 where e: "parser 1 m b ps = Inr (c', p1)" "stands b p1 ts" "map_cmd (sub b) c' = c"
    using parsesD [OF p st follow_up [OF fo] m] by auto
  have "peek b p1 [59] = (False, p1)" using peek_stands [OF e(2) symbols_sub(4)] follow_starts(5) [OF fo] by simp
  then show "\<exists>c' ps'. parser 0 n b ps = Inr (c', ps') \<and> stands b ps' ts \<and> map_cmd (sub b) c' = c"
    using e by (simp add: n parseline_eq del: parseline.simps)
qed

lemma parses_list: "parses 1 A l \<Longrightarrow> parses 0 B r \<Longrightarrow> parses 0 (A @ Sym 59 # B) (LIST l r)"
  unfolding parses_def [of 0 "A @ Sym 59 # B"]
proof (intro allI impI)
  fix b ps ts n
  assume p: "parses 1 A l" "parses 0 B r" and "stands b ps ((A @ Sym 59 # B) @ ts)" and fo: "follow 0 ts"
    and "4 * length (print ((A @ Sym 59 # B) @ ts)) + depth 0 \<le> n"
  then obtain m where n: "n = Suc m" and st: "stands b ps (A @ Sym 59 # B @ ts)" and m: "4 * length (print (A @ Sym 59 # B @ ts)) + depth 1 \<le> m"
    by (cases n) (auto simp: depth_def)
  have "follow 1 (Sym 59 # B @ ts)" by (simp add: follow_def)
  then obtain l' p1 where e: "parser 1 m b ps = Inr (l', p1)" "stands b p1 (Sym 59 # B @ ts)" "map_cmd (sub b) l' = l"
    using parsesD [OF p(1) st _ m] by auto
  have pk: "peek b p1 [59] = (True, p1)" using peek_stands [OF e(2) symbols_sub(4)] by (simp add: starts_def)
  note g = gettoken_Sym [OF e(2)]
  have "4 * length (print (B @ ts)) + depth 0 \<le> m" using m by (simp add: depth_def)
  then obtain r' p2 where f: "parseline m b (p1 + 2) = Inr (r', p2)" "stands b p2 ts" "map_cmd (sub b) r' = r"
    using parsesD [OF p(2) g(2) fo] by auto
  show "\<exists>c' ps'. parser 0 n b ps = Inr (c', ps') \<and> stands b ps' ts \<and> map_cmd (sub b) c' = LIST l r"
    using e pk g f by (simp add: n parseline_eq del: parseline.simps)
qed

text \<open>From the level of a tree to every level, with parentheses where they are needed.\<close>

lemma parses_down:
  assumes "parses k T c" and "j \<le> k" and "k \<le> 3"
  shows "parses j T c"
proof -
  have u2: "parses 2 T c \<Longrightarrow> parses 1 T c" using parses_back [of T c 0] by simp
  have "k = 0 \<or> k = 1 \<or> k = 2 \<or> k = 3" "j = 0 \<or> j = 1 \<or> j = 2 \<or> j = 3" using assms(2,3) by auto
  then show ?thesis using assms(1,2) parses_up3 u2 parses_up1 by auto
qed

lemma parses_paren:
  assumes "parses (level c) T c" and "k \<le> 3"
  shows "parses k (paren k c T) c"
proof (cases "k \<le> level c")
  case True
  have "level c \<le> 3" by (cases c) auto
  then show ?thesis using True assms(1) parses_down by (simp add: paren_def)
next
  case False
  have "level c \<le> 3" by (cases c) auto
  then have "parses 0 T c" using assms(1) parses_down by blast
  then have "parses 3 (Sym 40 # T @ [Sym 41]) c" using parses_block [of T c "[]"] by (simp add: redirs_ok_def redirs_def)
  then show ?thesis using False assms(2) parses_down by (simp add: paren_def)
qed

lemma base_reds: "redirs (base c) (reds c) = c" "size (base c) \<le> size c"
  by (induction c) (simp_all add: redirs_append, simp_all add: redirs_def)

lemma base_not_REDIR: "base c \<noteq> REDIR d f md fd"
  by (induction c) simp_all

lemma toks_reds: "cmd_ok c \<Longrightarrow> paren 3 c (toks c) = paren 3 (base c) (toks (base c)) @ redir_toks (reds c) \<and> redirs_ok (reds c) \<and> cmd_ok (base c)"
  by (induction c) (auto simp: paren_def redirs_ok_def)

lemma unback_backs: "(BACK ^^ backs c) (unback c) = c" "size (unback c) \<le> size c" "cmd_ok c \<Longrightarrow> cmd_ok (unback c)"
  by (induction c) simp_all

lemma toks_backs: "paren 1 c (toks c) = paren 2 (unback c) (toks (unback c)) @ replicate (backs c) (Sym 38)"
  by (induction c) (auto simp: paren_def replicate_append_same)

lemma parses_toks: "cmd_ok c \<Longrightarrow> parses (level c) (toks c) c"
proof (induction "size c" arbitrary: c rule: less_induct)
  case less
  have IH: "parses k (paren k d (toks d)) d" if "size d < size c" "cmd_ok d" "k \<le> 3" for d k
    using parses_paren [OF less.hyps [OF that(1,2)] that(3)] .
  show ?case
  proof (cases c)
    case (EXEC ws)
    then show ?thesis using parses_exec [of ws "[]"] less.prems by (simp add: redirs_ok_def redirs_def)
  next
    case (REDIR d f md fd)
    have t: "toks c = paren 3 (base c) (toks (base c)) @ redir_toks (reds c)" "redirs_ok (reds c)" "cmd_ok (base c)"
      using toks_reds [OF less.prems] REDIR by (auto simp: paren_def)
    have sz: "size (base c) < size c" using base_reds(2) [of d] REDIR by simp
    have "parses 3 (paren 3 (base c) (toks (base c)) @ redir_toks (reds c)) (redirs (base c) (reds c))"
    proof (cases "\<exists>ws. base c = EXEC ws")
      case True
      then show ?thesis using parses_exec t(2,3) by (auto simp: paren_def)
    next
      case False
      have l: "level (base c) < 3" using False base_not_REDIR [of c] by (cases "base c") auto
      have "parses 0 (toks (base c)) (base c)" using IH [OF sz t(3), of 0] by (simp add: paren_def)
      then show ?thesis using parses_block [OF _ t(2)] l by (simp add: paren_def)
    qed
    then show ?thesis using t(1) base_reds(1) [of c] REDIR by simp
  next
    case (PIPE l r)
    then show ?thesis using parses_pipe [OF IH [of l 3] IH [of r 2]] less.prems by simp
  next
    case (LIST l r)
    then show ?thesis using parses_list [OF IH [of l 1] IH [of r 0]] less.prems by simp
  next
    case (BACK d)
    have sz: "size (unback c) < size c" using unback_backs(2) [of d] BACK by simp
    have "parses 1 (paren 1 c (toks c)) c"
      using parses_back [OF IH [OF sz unback_backs(3) [OF less.prems], of 2], of "backs c"] toks_backs [of c] unback_backs(1) [of c] by simp
    then show ?thesis using BACK by (simp add: paren_def)
  qed
qed

lemma good_tok_simps [simp]: "good_tok (Word w) = word_ok w" "good_tok (Sym x) = (x \<in> set symbols)"
  by (simp_all add: good_tok_def)

lemma good_toks: "cmd_ok c \<Longrightarrow> list_all good_tok (toks c)"
proof -
  have s: "40 \<in> set symbols" "41 \<in> set symbols" "38 \<in> set symbols" "59 \<in> set symbols" "124 \<in> set symbols" "60 \<in> set symbols" "62 \<in> set symbols"
    by (simp_all add: symbols_def)
  have p: "list_all good_tok (paren k d ts) = list_all good_tok ts" for k and d :: "u8 list cmd" and ts
    by (simp add: paren_def s)
  have w: "list_all good_tok (map Word ws) = list_all word_ok ws" for ws by (induction ws) simp_all
  show "cmd_ok c \<Longrightarrow> list_all good_tok (toks c)"
    by (induction c) (simp_all add: p w s)
qed

lemma print_nonzero: "list_all good_tok ts \<Longrightarrow> 0 \<notin> set (print ts)"
proof (induction ts)
  case (Cons t ts)
  then show ?case by (cases t) (auto simp: word_ok_def symbols_def list_all_iff)
qed simp

subsection \<open>Properties\<close>

text \<open>
  C38: The shell reads back every command: a syntax tree written out as a command line is parsed,
  after the words have been terminated in place, to the same tree, with its words, redirections,
  pipelines, lists, background commands and the grouping that the parentheses give.
\<close>

theorem shell_parses_back:
  assumes "cmd_ok c"
  shows "\<exists>c' b'. parsecmd (show_cmd c) = Inr (c', b') \<and> map_cmd (cstring b') c' = c"
proof -
  let ?b = "show_cmd c"
  have good: "list_all good_tok (toks c)" by (rule good_toks [OF assms])
  have st: "stands ?b 0 (toks c @ [])" using good by (simp add: stands_def show_cmd_def)
  have "parses 0 (toks c) c" using parses_paren [OF parses_toks [OF assms], of 0] by (simp add: paren_def)
  then obtain c' p where r: "parseline (4 * length ?b + 4) ?b 0 = Inr (c', p)" "stands ?b p []" "map_cmd (sub ?b) c' = c"
    using parsesD [OF _ st, of 0 c "4 * length ?b + 4"] by (auto simp: follow_def depth_def show_cmd_def)
  have "p = length ?b" using r(2) by (simp add: stands_def)
  moreover have "skip isws ?b p = p" by (rule stands_skip [OF r(2)])
  ultimately have run: "parsecmd ?b = Inr (c', nulterminate c' (?b @ [0]))" using r(1) by (simp add: parsecmd_def peek_def)
  have "0 \<notin> set ?b" using print_nonzero [OF good] by (simp add: show_cmd_def)
  then have "map_cmd (cstring (nulterminate c' (?b @ [0]))) c' = map_cmd (sub ?b) c'"
    using word_reads_back parsecmd_words [OF run] by (intro cmd.map_cong0) blast
  then show ?thesis using run r(3) by auto
qed

theorem shell_parses_back_witness:
  "\<exists>c' b'. parsecmd (bytes_of ''( ls > f ; cat ) | wc & '') = Inr (c', b') \<and>
     map_cmd (cstring b') c' =
       BACK (PIPE (LIST (REDIR (EXEC [bytes_of ''ls'']) (bytes_of ''f'') (O_WRONLY OR O_CREATE) 1) (EXEC [bytes_of ''cat''])) (EXEC [bytes_of ''wc'']))"
proof -
  let ?c = "BACK (PIPE (LIST (REDIR (EXEC [bytes_of ''ls'']) (bytes_of ''f'') (O_WRONLY OR O_CREATE) 1) (EXEC [bytes_of ''cat''])) (EXEC [bytes_of ''wc'']))"
  have "cmd_ok ?c" by (simp add: word_ok_def inword_def whitespace_def symbols_def bytes_of_def MAXARGS_def redir_ok_def)
  moreover have "show_cmd ?c = bytes_of ''( ls > f ; cat ) | wc & ''" by (simp add: show_cmd_def paren_def bytes_of_def)
  ultimately show ?thesis using shell_parses_back [of ?c] by simp
qed

text \<open>
  C39: For every command line the parser returns, with a tree or an error, within the bound on
  nested calls it is given; and every word of the tree, after \<open>nulterminate\<close> has written the
  terminators into the line, is the C string of exactly the characters between its two ends.
\<close>

theorem parsecmd_terminates:
  assumes "0 \<notin> set b"
  shows "parsecmd b \<noteq> Inl Diverge \<and>
    (\<forall>c b'. parsecmd b = Inr (c, b') \<longrightarrow> (\<forall>w\<in>set_cmd c. cstring b' w = sub b w \<and> sub b w \<noteq> [] \<and> list_all inword (sub b w)))"
proof -
  have "cstring b' w = sub b w \<and> sub b w \<noteq> [] \<and> list_all inword (sub b w)" if "parsecmd b = Inr (c, b')" "w \<in> set_cmd c" for c b' w
  proof -
    have w: "word_at b w" "b' = nulterminate c (b @ [0])" using parsecmd_words [OF that(1)] that(2) by auto
    have "sub b w = map ((!) b) [fst w..<snd w]" by (rule nth_equalityI) (use w(1) in \<open>auto simp: sub_def word_at_def\<close>)
    then have "sub b w \<noteq> [] \<and> list_all inword (sub b w)" using w(1) by (auto simp: word_at_def list_all_iff)
    then show ?thesis using word_reads_back [OF _ that(2) assms] parsecmd_words [OF that(1)] w(2) by blast
  qed
  then show ?thesis using parsecmd_never_diverges by blast
qed

theorem parsecmd_terminates_witness:
  "parsecmd (bytes_of ''a(b'') \<noteq> Inl Diverge \<and> parsecmd (bytes_of ''a(b'') = Inl (Panic ''syntax'')"
proof -
  have "0 \<notin> set (bytes_of ''a(b'')" by (simp add: bytes_of_def)
  moreover have "parsecmd (bytes_of ''a(b'') = Inl (Panic ''syntax'')" by code_simp
  ultimately show ?thesis using parsecmd_terminates [of "bytes_of ''a(b''"] by simp
qed

end
