(* ===== verification/Umalloc.thy ===== *)
theory Umalloc
  imports Diskfmt
begin

section \<open>The user-level allocator (umalloc.c)\<close>

text \<open>
  \<open>malloc\<close> and \<open>free\<close> keep the free blocks of a process on a ring, ordered by address, that
  starts at the static header \<open>base\<close>. An address is counted in headers (8 bytes), as the
  pointer arithmetic of the code does; \<open>hptr\<close> and \<open>hsize\<close> are the two words at every address,
  whether a header is there or user data. The loops that follow the ring may run forever on a
  corrupted one, so their result is optional. The end of the process is a whole number of headers,
  as \<open>exec\<close> leaves it and \<open>morecore\<close> keeps it. What the kernel answers to \<open>sbrk\<close> is a parameter:
  \<open>grow brk n\<close> says whether it extends a process that ends at \<open>brk\<close> by \<open>n\<close> bytes.

  \<open>heap_ok\<close> is the invariant, for a given set of blocks in use. The lemmas show that on such a
  heap both routines return, that a new block is in nobody's use, and that neither writes to the
  contents of a block in use.
\<close>

subsection \<open>Definitions\<close>

record heap =
  hptr :: "nat \<Rightarrow> nat"
  hsize :: "nat \<Rightarrow> nat"
  freep :: nat
  brk :: nat

definition set_ptr :: "nat \<Rightarrow> nat \<Rightarrow> heap \<Rightarrow> heap" where
  "set_ptr p v s = s\<lparr>hptr := (hptr s)(p := v)\<rparr>"

definition set_size :: "nat \<Rightarrow> nat \<Rightarrow> heap \<Rightarrow> heap" where
  "set_size p v s = s\<lparr>hsize := (hsize s)(p := v)\<rparr>"

text \<open>The loop of \<open>free\<close>: the block of the ring after which \<open>bp\<close> goes.\<close>

partial_function (option) free_loop :: "(nat \<Rightarrow> nat) \<Rightarrow> nat \<Rightarrow> nat \<Rightarrow> nat option" where
  "free_loop ptr bp p =
     (if p < bp \<and> bp < ptr p then Some p
      else if ptr p \<le> p \<and> (p < bp \<or> bp < ptr p) then Some p
      else free_loop ptr bp (ptr p))"

text \<open>Joining \<open>bp\<close> with the block after it, and then with the block before it.\<close>

definition join_next :: "nat \<Rightarrow> nat \<Rightarrow> heap \<Rightarrow> heap" where
  "join_next bp p s =
     (if bp + hsize s bp = hptr s p
      then set_ptr bp (hptr s (hptr s p)) (set_size bp (hsize s bp + hsize s (hptr s p)) s)
      else set_ptr bp (hptr s p) s)"

definition join_prev :: "nat \<Rightarrow> nat \<Rightarrow> heap \<Rightarrow> heap" where
  "join_prev bp p s =
     (if p + hsize s p = bp then set_ptr p (hptr s bp) (set_size p (hsize s p + hsize s bp) s)
      else set_ptr p bp s)"

definition free_at :: "nat \<Rightarrow> nat \<Rightarrow> heap \<Rightarrow> heap" where
  "free_at bp p s = (join_prev bp p (join_next bp p s))\<lparr>freep := p\<rparr>"

definition free :: "nat \<Rightarrow> heap \<Rightarrow> heap option" where
  "free ap s =
     (let bp = ap - 1 in map_option (\<lambda>p. free_at bp p s) (free_loop (hptr s) bp (freep s)))"

text \<open>The argument of \<open>sbrk\<close> is a C int: a large number of bytes is negative.\<close>

definition sbrk :: "(nat \<Rightarrow> int \<Rightarrow> bool) \<Rightarrow> nat \<Rightarrow> heap \<Rightarrow> (nat \<times> heap) option" where
  "sbrk grow bytes s =
     (let n = int32 (bytes mod 2 ^ 32) in
      if grow (brk s) n then Some (brk s, s\<lparr>brk := nat (int (brk s) + n div 8)\<rparr>) else None)"

definition morecore :: "(nat \<Rightarrow> int \<Rightarrow> bool) \<Rightarrow> nat \<Rightarrow> heap \<Rightarrow> (nat \<times> heap) option" where
  "morecore grow nu s =
     (let nu = (if nu < 4096 then 4096 else nu) in
      case sbrk grow (nu * 8) s of
        None \<Rightarrow> Some (0, s)
      | Some (hp, s) \<Rightarrow> map_option (\<lambda>s. (freep s, s)) (free (hp + 1) (set_size hp nu s)))"

text \<open>A block that is large enough: the whole of it, or its end.\<close>

definition malloc_take :: "nat \<Rightarrow> nat \<Rightarrow> nat \<Rightarrow> heap \<Rightarrow> nat \<times> heap" where
  "malloc_take nunits prevp p s =
     (if hsize s p = nunits then (p + 1, (set_ptr prevp (hptr s p) s)\<lparr>freep := prevp\<rparr>)
      else
        let s = set_size p (hsize s p - nunits) s; p = p + hsize s p
        in (p + 1, (set_size p nunits s)\<lparr>freep := prevp\<rparr>))"

partial_function (option) malloc_loop :: "(nat \<Rightarrow> int \<Rightarrow> bool) \<Rightarrow> nat \<Rightarrow> nat \<Rightarrow> nat \<Rightarrow> heap \<Rightarrow> (nat \<times> heap) option" where
  "malloc_loop grow nunits prevp p s =
     (if nunits \<le> hsize s p then Some (malloc_take nunits prevp p s)
      else if p = freep s then
        (case morecore grow nunits s of
           None \<Rightarrow> None
         | Some (p, s) \<Rightarrow> if p = 0 then Some (0, s) else malloc_loop grow nunits p (hptr s p) s)
      else malloc_loop grow nunits p (hptr s p) s)"

definition units :: "nat \<Rightarrow> nat" where
  "units nbytes = (nbytes + 8 - 1) mod 2 ^ 32 div 8 + 1"

definition malloc :: "(nat \<Rightarrow> int \<Rightarrow> bool) \<Rightarrow> nat \<Rightarrow> nat \<Rightarrow> heap \<Rightarrow> (nat \<times> heap) option" where
  "malloc grow base nbytes s =
     (let s = (if freep s = 0 then set_size base 0 (set_ptr base base (s\<lparr>freep := base\<rparr>)) else s)
      in malloc_loop grow (units nbytes) (freep s) (hptr s (freep s)) s)"

text \<open>A ring through the given addresses, and a list with the last link to \<open>z\<close>.\<close>

primrec links :: "(nat \<Rightarrow> nat) \<Rightarrow> nat list \<Rightarrow> nat \<Rightarrow> bool" where
  "links ptr [] z \<longleftrightarrow> True"
| "links ptr (x # xs) z \<longleftrightarrow> ptr x = (if xs = [] then z else hd xs) \<and> links ptr xs z"

definition block :: "heap \<Rightarrow> nat \<Rightarrow> nat set" where
  "block s x = {x..<x + hsize s x}"

text \<open>The blocks, free or in use, are not empty, lie in the heap and are apart.\<close>

definition blocks_ok :: "nat \<Rightarrow> heap \<Rightarrow> nat set \<Rightarrow> bool" where
  "blocks_ok hb s X \<longleftrightarrow>
     (\<forall>x\<in>X. hb \<le> x \<and> 0 < hsize s x \<and> x + hsize s x \<le> brk s) \<and>
     (\<forall>x\<in>X. \<forall>y\<in>X. x \<noteq> y \<longrightarrow> block s x \<inter> block s y = {})"

definition ring_ok :: "nat \<Rightarrow> nat \<Rightarrow> heap \<Rightarrow> nat list \<Rightarrow> nat set \<Rightarrow> bool" where
  "ring_ok base hb s L A \<longleftrightarrow>
     links (hptr s) (base # L) base \<and> sorted_wrt (<) L \<and> hsize s base = 0 \<and> freep s \<in> set (base # L) \<and>
     set L \<inter> A = {} \<and> blocks_ok hb s (set L \<union> A)"

definition heap_ok :: "nat \<Rightarrow> nat \<Rightarrow> heap \<Rightarrow> nat set \<Rightarrow> bool" where
  "heap_ok base hb s A \<longleftrightarrow> 0 < base \<and> base < hb \<and> hb \<le> brk s \<and>
     (if freep s = 0 then A = {} else \<exists>L. ring_ok base hb s L A)"

text \<open>The headers and the contents of the blocks in use are what they were.\<close>

definition intact :: "nat set \<Rightarrow> heap \<Rightarrow> heap \<Rightarrow> bool" where
  "intact A s s' \<longleftrightarrow> (\<forall>x\<in>A. \<forall>a\<in>block s x. hptr s' a = hptr s a \<and> hsize s' a = hsize s a)"

subsection \<open>Lemmas: rings\<close>

lemma links_append: "xs \<noteq> [] \<Longrightarrow> ys \<noteq> [] \<Longrightarrow> links ptr (xs @ ys) z \<longleftrightarrow> links ptr xs (hd ys) \<and> links ptr ys z"
  by (induction xs) auto

lemma links_cong: "(\<And>x. x \<in> set xs \<Longrightarrow> ptr x = ptr' x) \<Longrightarrow> links ptr xs z = links ptr' xs z"
  by (induction xs) auto

lemma links_last: "links ptr xs z \<Longrightarrow> xs \<noteq> [] \<Longrightarrow> ptr (last xs) = z"
  by (induction xs) auto

lemma links_upd: "x \<notin> set xs \<Longrightarrow> links (ptr(x := v)) xs z = links ptr xs z"
  by (rule links_cong) auto

text \<open>The ring seen from another block.\<close>

lemma links_rotate: "links ptr (xs @ ys) (hd (xs @ ys)) \<Longrightarrow> links ptr (ys @ xs) (hd (ys @ xs))"
  by (cases "xs = []"; cases "ys = []") (auto simp: links_append)

lemma links_relink: "links ptr xs z \<Longrightarrow> xs \<noteq> [] \<Longrightarrow> distinct xs \<Longrightarrow> links (ptr(last xs := v)) xs v"
proof (induction xs)
  case (Cons x xs)
  then show ?case by (cases "xs = []") auto
qed simp

text \<open>The search of \<open>free\<close> ends after the last block before \<open>bp\<close>, wherever it starts.\<close>

lemma free_loop_below:
  assumes "links ptr us z" and "us \<noteq> []" and "sorted_wrt (<) us" and "\<forall>u\<in>set us. u < bp" and "bp < z \<or> z \<le> last us"
  shows "free_loop ptr bp (hd us) = Some (last us)"
  using assms
proof (induction us)
  case (Cons u us)
  show ?case
  proof (cases "us = []")
    case True
    then show ?thesis using Cons.prems by (subst free_loop.simps) auto
  next
    case False
    then have "ptr u = hd us" "u < hd us" "hd us < bp" using Cons.prems by auto
    then have "free_loop ptr bp u = free_loop ptr bp (hd us)" by (subst free_loop.simps) auto
    then show ?thesis using Cons.IH Cons.prems False by auto
  qed
qed simp

lemma free_loop_above:
  assumes "links ptr vs z" and "vs \<noteq> []" and "sorted_wrt (<) vs" and "\<forall>v\<in>set vs. bp < v" and "z < bp"
  shows "free_loop ptr bp (hd vs) = free_loop ptr bp z"
  using assms
proof (induction vs)
  case (Cons v vs)
  show ?case
  proof (cases "vs = []")
    case True
    then show ?thesis using Cons.prems by (subst free_loop.simps) auto
  next
    case False
    then have "ptr v = hd vs" "v < hd vs" "bp < v" using Cons.prems by auto
    then have "free_loop ptr bp v = free_loop ptr bp (hd vs)" by (subst free_loop.simps) auto
    then show ?thesis using Cons.IH Cons.prems False by auto
  qed
qed simp

lemma free_loop_ok:
  assumes ring: "links ptr (base # xs @ ys) base" and so: "sorted_wrt (<) (base # xs @ ys)"
    and lo: "\<forall>x\<in>set (base # xs). x < bp" and hi: "\<forall>y\<in>set ys. bp < y" and q: "q \<in> set (base # xs @ ys)"
  shows "free_loop ptr bp q = Some (last (base # xs))"
proof -
  define z where "z = hd (ys @ [base])"
  have lk: "links ptr (base # xs) z"
    using ring links_append [of "base # xs" ys ptr base] by (cases "ys = []") (auto simp: z_def)
  have zz: "bp < z \<or> z \<le> last us" if "us \<noteq> []" "set us \<subseteq> set (base # xs)" for us
  proof (cases ys)
    case Nil
    have "last us \<in> set (base # xs)" using that last_in_set by blast
    then have "base \<le> last us" using so by (auto simp: Nil)
    then show ?thesis using Nil by (simp add: z_def)
  qed (use hi in \<open>simp add: z_def\<close>)
  have below: "free_loop ptr bp (hd us) = Some (last (base # xs))" if us: "base # xs = ts @ us" "us \<noteq> []" for ts us
  proof -
    have "links ptr us z" using lk us links_append [of ts us ptr z] by (cases "ts = []") auto
    moreover have "sorted_wrt (<) us" using so us sorted_wrt_append [of "(<)" ts "us @ ys"] sorted_wrt_append [of "(<)" us ys] by (metis append_Cons append_assoc)
    moreover have "set us \<subseteq> set (base # xs)" "last us = last (base # xs)" using us by auto
    moreover have "\<forall>u\<in>set us. u < bp" using lo calculation(3) by blast
    ultimately show ?thesis using free_loop_below [of ptr us z bp] us(2) zz [of us] by simp
  qed
  show ?thesis
  proof (cases "q \<in> set (base # xs)")
    case True
    then obtain ts us where "base # xs = ts @ q # us" by (meson split_list)
    then show ?thesis using below [of ts "q # us"] by simp
  next
    case False
    then obtain ts vs where v: "ys = ts @ q # vs" using q by (auto dest: split_list)
    have "links ptr (base # xs @ ts) q \<and> links ptr (q # vs) base"
      using ring links_append [of "base # xs @ ts" "q # vs" ptr base] v by simp
    then have "free_loop ptr bp q = free_loop ptr bp base"
      using free_loop_above [of ptr "q # vs" base bp] so hi lo v by (auto simp: sorted_wrt_append)
    then show ?thesis using below [of "[]" "base # xs"] by simp
  qed
qed

subsection \<open>Lemmas: blocks\<close>

lemma blocks_okD:
  "blocks_ok hb s X \<Longrightarrow> x \<in> X \<Longrightarrow> hb \<le> x" "blocks_ok hb s X \<Longrightarrow> x \<in> X \<Longrightarrow> 0 < hsize s x"
  "blocks_ok hb s X \<Longrightarrow> x \<in> X \<Longrightarrow> x + hsize s x \<le> brk s"
  "blocks_ok hb s X \<Longrightarrow> x \<in> X \<Longrightarrow> y \<in> X \<Longrightarrow> x \<noteq> y \<Longrightarrow> x + hsize s x \<le> y \<or> y + hsize s y \<le> x"
  unfolding blocks_ok_def block_def by (auto simp: ivl_disj_int Int_Collect disjoint_iff) (metis atLeastLessThan_iff le_eq_less_or_eq not_less)

lemma blocks_apart: "blocks_ok hb s X \<Longrightarrow> x \<in> X \<Longrightarrow> y \<in> X \<Longrightarrow> x \<noteq> y \<Longrightarrow> block s x \<inter> block s y = {}"
  unfolding blocks_ok_def by blast

lemma blocks_okI:
  assumes "\<And>x. x \<in> X \<Longrightarrow> hb \<le> x \<and> 0 < hsize s x \<and> x + hsize s x \<le> brk s"
    and "\<And>x y. x \<in> X \<Longrightarrow> y \<in> X \<Longrightarrow> x < y \<Longrightarrow> x + hsize s x \<le> y"
  shows "blocks_ok hb s X"
proof -
  have "block s x \<inter> block s y = {}" if "x \<in> X" "y \<in> X" "x \<noteq> y" for x y
    using that assms(2) [of x y] assms(2) [of y x] by (cases "x < y") (auto simp: block_def)
  then show ?thesis using assms(1) unfolding blocks_ok_def by blast
qed

lemma blocks_less: "blocks_ok hb s X \<Longrightarrow> x \<in> X \<Longrightarrow> y \<in> X \<Longrightarrow> x < y \<Longrightarrow> x + hsize s x \<le> y"
  using blocks_okD(2,4) [of hb s X] by fastforce

lemma blocks_merge:
  assumes ok: "blocks_ok hb s X" and x: "x \<in> X" and y: "y \<in> X" and xy: "x + hsize s x = y"
    and t: "hsize t = (hsize s)(x := hsize s x + hsize s y)" "brk t = brk s"
  shows "blocks_ok hb t (X - {y})"
proof (rule blocks_okI)
  fix a assume a: "a \<in> X - {y}"
  then show "hb \<le> a \<and> 0 < hsize t a \<and> a + hsize t a \<le> brk t"
    using blocks_okD(1-3) [OF ok, of a] blocks_okD(2,3) [OF ok y] t xy by auto
next
  fix a b assume a: "a \<in> X - {y}" and b: "b \<in> X - {y}" and ab: "a < b"
  show "a + hsize t a \<le> b"
  proof (cases "a = x")
    case True
    have "y < b" using blocks_less [OF ok x, of b] ab b True xy by auto
    then show ?thesis using blocks_less [OF ok y, of b] b True t xy by auto
  next
    case False
    then show ?thesis using blocks_less [OF ok, of a b] a b ab t by auto
  qed
qed

lemma blocks_subset: "blocks_ok hb s X \<Longrightarrow> Y \<subseteq> X \<Longrightarrow> blocks_ok hb s Y"
  unfolding blocks_ok_def by blast

lemma blocks_cong: "hsize t = hsize s \<Longrightarrow> brk t = brk s \<Longrightarrow> blocks_ok hb t X = blocks_ok hb s X"
  by (simp add: blocks_ok_def block_def)

subsection \<open>Lemmas: free\<close>

lemma heap_upd_simps [simp]:
  "hptr (set_ptr p v s) = (hptr s)(p := v)" "hsize (set_ptr p v s) = hsize s" "freep (set_ptr p v s) = freep s" "brk (set_ptr p v s) = brk s"
  "hptr (set_size p v s) = hptr s" "hsize (set_size p v s) = (hsize s)(p := v)" "freep (set_size p v s) = freep s" "brk (set_size p v s) = brk s"
  by (simp_all add: set_ptr_def set_size_def)

lemma sorted_split:
  fixes L :: "nat list"
  assumes "sorted_wrt (<) L" and "bp \<notin> set L"
  obtains xs ys where "L = xs @ ys" "\<forall>x\<in>set xs. x < bp" "\<forall>y\<in>set ys. bp < y"
proof -
  let ?ys = "dropWhile (\<lambda>x. x < bp) L"
  have "bp < y" if "y \<in> set ?ys" for y
  proof (cases ?ys)
    case (Cons v vs)
    have "\<not> v < bp" using hd_dropWhile [of "\<lambda>x. x < bp" L] Cons by simp
    moreover have "v \<noteq> bp" using assms(2) Cons set_dropWhileD [of v "\<lambda>x. x < bp" L] by auto
    moreover have "sorted_wrt (<) ?ys" using assms(1) by (metis sorted_wrt_append takeWhile_dropWhile_id)
    ultimately show ?thesis using that Cons by auto
  qed (use that in \<open>simp only: list.set empty_iff\<close>)
  then show ?thesis using that [of "takeWhile (\<lambda>x. x < bp) L" ?ys] by (auto dest: set_takeWhileD)
qed

lemma join_next_ok:
  assumes ring: "links (hptr s) ys base" and n: "hptr s p = hd (ys @ [base])" and bp: "bp \<notin> set ys" "base < bp"
    and ok: "blocks_ok hb s X" "set ys \<subseteq> X" "bp \<in> X" and so: "sorted_wrt (<) ys"
  obtains ws where "links (hptr (join_next bp p s)) (bp # ws) base" "blocks_ok hb (join_next bp p s) (X - (set ys - set ws))"
    "set ws \<subseteq> set ys" "sorted_wrt (<) ws" "hsize s bp \<le> hsize (join_next bp p s) bp"
proof (cases "bp + hsize s bp = hptr s p")
  case False
  have j: "join_next bp p s = set_ptr bp (hptr s p) s" using False by (simp add: join_next_def)
  have "links (hptr (join_next bp p s)) (bp # ys) base" using ring n bp unfolding j by (cases ys) (auto simp: links_upd)
  moreover have "blocks_ok hb (join_next bp p s) X" using ok(1) unfolding j by (simp add: blocks_cong [of "set_ptr bp (hptr s p) s" s])
  moreover have "hsize s bp \<le> hsize (join_next bp p s) bp" by (simp add: j)
  ultimately show ?thesis using so by (intro that [of ys]) (simp_all del: links.simps)
next
  case True
  have "ys \<noteq> []" using True n bp(2) by auto
  then obtain m zs where ys: "ys = m # zs" by (cases ys) auto
  have m: "hptr s p = m" "hptr s m = hd (zs @ [base])" using n ring ys by (cases zs; simp)+
  let ?t = "set_ptr bp (hptr s m) (set_size bp (hsize s bp + hsize s m) s)"
  have j: "join_next bp p s = ?t" using True m(1) by (simp add: join_next_def)
  have "links (hptr ?t) (bp # zs) base" using ring ys m(2) bp by (cases zs) (auto simp: links_upd)
  moreover have "blocks_ok hb ?t (X - {m})"
    by (rule blocks_merge [OF ok(1) ok(3), of m]) (use ok(2) ys True m(1) in auto)
  moreover have "set ys - set zs = {m}" using so ys by auto
  moreover have "hsize s bp \<le> hsize ?t bp" "set zs \<subseteq> set ys" "sorted_wrt (<) zs" using so ys by auto
  ultimately show ?thesis unfolding j [symmetric] by (intro that [of zs]) (simp_all del: links.simps)
qed

lemma join_prev_ok:
  assumes up: "links (hptr s) us z" "us \<noteq> []" "distinct us" "bp \<notin> set us"
    and dn: "links (hptr s) (bp # ws) base" "set us \<inter> set ws = {}" and p: "p = last us"
    and ok: "blocks_ok hb s X" "bp \<in> X" "p + hsize s p = bp \<Longrightarrow> p \<in> X"
  obtains vs where "links (hptr (join_prev bp p s)) (us @ vs @ ws) base" "vs = (if p + hsize s p = bp then [] else [bp])"
    "blocks_ok hb (join_prev bp p s) (if p + hsize s p = bp then X - {bp} else X)"
    "\<exists>x\<in>set (p # vs). hsize s bp \<le> hsize (join_prev bp p s) x"
proof -
  have pu: "p \<in> set us" using p last_in_set [OF up(2)] by simp
  show ?thesis
  proof (cases "p + hsize s p = bp")
    case False
    have j: "join_prev bp p s = set_ptr p bp s" using False by (simp add: join_prev_def)
    have "links ((hptr s)(p := bp)) us bp" using links_relink [OF up(1-3)] p by simp
    moreover have "p \<notin> set (bp # ws)" using up(4) dn(2) pu by auto
    then have "links ((hptr s)(p := bp)) (bp # ws) base" using dn(1) links_upd by blast
    ultimately have "links (hptr (set_ptr p bp s)) (us @ [bp] @ ws) base" using links_append [of us "bp # ws"] up(2) by simp
    then show ?thesis using that [of "[bp]"] False ok(1) j blocks_cong [of "set_ptr p bp s" s] by auto
  next
    case True
    let ?t = "set_ptr p (hptr s bp) (set_size p (hsize s p + hsize s bp) s)"
    have j: "join_prev bp p s = ?t" using True by (simp add: join_prev_def)
    have lu: "links ((hptr s)(p := hptr s bp)) us (hptr s bp)" using links_relink [OF up(1-3)] p by simp
    have "p \<notin> set ws" using dn(2) pu by auto
    then have "links ((hptr s)(p := hptr s bp)) ws base" using dn(1) by (simp add: links_upd)
    moreover have "hptr s bp = (if ws = [] then base else hd ws)" using dn(1) by simp
    ultimately have "links (hptr ?t) (us @ [] @ ws) base" using lu links_append [of us ws] up(2) by (cases ws) auto
    moreover have "blocks_ok hb ?t (X - {bp})" by (rule blocks_merge [OF ok(1) ok(3) [OF True] ok(2) True]) simp_all
    ultimately show ?thesis using that [of "[]"] True j by auto
  qed
qed

lemma free_ok:
  assumes ring: "ring_ok base hb s L A" and bp: "bp \<in> A" and b: "base < hb"
  shows "\<exists>s' L'. free (bp + 1) s = Some s' \<and> ring_ok base hb s' L' (A - {bp}) \<and> brk s' = brk s \<and>
    (\<exists>x\<in>set L'. hsize s bp \<le> hsize s' x) \<and> (\<forall>a. a \<notin> set (base # L) \<and> a \<noteq> bp \<longrightarrow> hptr s' a = hptr s a \<and> hsize s' a = hsize s a)"
proof -
  have r: "links (hptr s) (base # L) base" "sorted_wrt (<) L" "hsize s base = 0" "freep s \<in> set (base # L)"
      "set L \<inter> A = {}" "blocks_ok hb s (set L \<union> A)" using ring by (auto simp: ring_ok_def)
  have hi: "\<forall>x\<in>set L \<union> A. base < x" using blocks_okD(1) [OF r(6)] b by fastforce
  obtain xs ys where L: "L = xs @ ys" "\<forall>x\<in>set xs. x < bp" "\<forall>y\<in>set ys. bp < y" using sorted_split [OF r(2), of bp] r(5) bp by blast
  have so: "sorted_wrt (<) (base # xs @ ys)" using r(2) hi L by auto
  define p where "p = last (base # xs)"
  have p: "free_loop (hptr s) bp (freep s) = Some p"
    unfolding p_def by (rule free_loop_ok [of _ base xs ys]) (use r(1,4) so L hi bp in auto)
  have pin: "p \<in> set (base # xs)" unfolding p_def by (rule last_in_set) simp
  have n: "hptr s p = hd (ys @ [base])" and lu: "links (hptr s) (base # xs) (hd (ys @ [base]))" and ly: "links (hptr s) ys base"
  proof -
    show lu: "links (hptr s) (base # xs) (hd (ys @ [base]))"
      using r(1) L(1) links_append [of "base # xs" ys "hptr s" base] by (cases ys) auto
    show "hptr s p = hd (ys @ [base])" unfolding p_def by (rule links_last [OF lu]) simp
    show "links (hptr s) ys base" using r(1) L(1) links_append [of "base # xs" ys "hptr s" base] by (cases ys) auto
  qed
  have nb: "bp \<notin> set ys" "base < bp" "bp \<notin> set (base # xs)" using L hi bp by auto
  let ?X = "set L \<union> A"
  have X: "set ys \<subseteq> ?X" "bp \<in> ?X" "sorted_wrt (<) ys" using L(1) bp so by (auto simp: sorted_wrt_append)
  define t where "t = join_next bp p s"
  obtain ws where t: "links (hptr t) (bp # ws) base" "blocks_ok hb t (?X - (set ys - set ws))" "set ws \<subseteq> set ys"
      "sorted_wrt (<) ws" "hsize s bp \<le> hsize t bp"
    using join_next_ok [OF ly n nb(1,2) r(6) X] unfolding t_def by blast
  have tp: "hptr t a = hptr s a" "hsize t a = hsize s a" if "a \<noteq> bp" for a using that by (simp_all add: t_def join_next_def)
  have bt: "brk t = brk s" by (simp add: t_def join_next_def)
  have lu': "links (hptr t) (base # xs) (hd (ys @ [base]))" using lu tp nb(3) links_cong [of "base # xs" "hptr t" "hptr s"] by metis
  have "distinct (base # xs @ ys)" using so strict_sorted_iff by blast
  then have dj: "set (base # xs) \<inter> set ws = {}" and di: "distinct (base # xs)" and dy: "set xs \<inter> set ys = {}" using t(3) by auto
  let ?Y = "?X - (set ys - set ws)"
  have pY: "p \<in> ?Y" if "p + hsize t p = bp"
  proof -
    have "p \<noteq> base" using that tp(2) [of base] r(3) nb(2) by (cases "p = base") auto
    then show ?thesis using pin dy L(1) by auto
  qed
  have bY: "bp \<in> ?Y" using bp nb(1) by simp
  define u where "u = join_prev bp p t"
  obtain vs where u: "links (hptr u) ((base # xs) @ vs @ ws) base" "vs = (if p + hsize t p = bp then [] else [bp])"
      "blocks_ok hb u (if p + hsize t p = bp then ?Y - {bp} else ?Y)" "\<exists>x\<in>set (p # vs). hsize t bp \<le> hsize u x"
    using join_prev_ok [OF lu' _ di nb(3) t(1) dj p_def t(2) bY pY] unfolding u_def by blast
  have up: "hptr u a = hptr t a" "hsize u a = hsize t a" if "a \<noteq> p" for a using that by (simp_all add: u_def join_prev_def)
  have bu: "brk u = brk s" using bt by (simp add: u_def join_prev_def)
  let ?s = "u\<lparr>freep := p\<rparr>" and ?L = "xs @ vs @ ws"
  have "hsize u base = 0"
    using up(2) [of base] tp(2) [of base] r(3) nb(2) by (cases "p = base") (auto simp: u_def join_prev_def)
  moreover have "sorted_wrt (<) ?L" using so t(3,4) L(2,3) u(2) by (auto simp: sorted_wrt_append)
  moreover have "set ?L \<inter> (A - {bp}) = {}" using u(2) t(3) r(5) L(1) by auto
  moreover have "set ?L \<union> (A - {bp}) \<subseteq> (if p + hsize t p = bp then ?Y - {bp} else ?Y)"
    using u(2) t(3) L(1) bp nb dy r(5) by auto
  then have "blocks_ok hb ?s (set ?L \<union> (A - {bp}))" using blocks_subset [OF u(3)] blocks_cong [of ?s u] by simp
  ultimately have "ring_ok base hb ?s ?L (A - {bp})" using u(1) pin by (auto simp: ring_ok_def)
  moreover have "free (bp + 1) s = Some ?s" using p by (simp add: free_def free_at_def t_def u_def)
  moreover have "\<exists>x\<in>set ?L. hsize s bp \<le> hsize ?s x"
  proof -
    obtain x where x: "x \<in> set (p # vs)" "hsize t bp \<le> hsize u x" using u(4) by blast
    have "0 < hsize s bp" using blocks_okD(2) [OF r(6)] bp by blast
    then have "x \<noteq> base" using x(2) t(5) \<open>hsize u base = 0\<close> by auto
    then show ?thesis using x t(5) pin by (intro bexI [of _ x]) auto
  qed
  moreover have "hptr ?s a = hptr s a \<and> hsize ?s a = hsize s a" if a: "a \<notin> set (base # L) \<and> a \<noteq> bp" for a
  proof -
    have "a \<noteq> p" using pin a L(1) by auto
    then show ?thesis using up tp a by simp
  qed
  ultimately show ?thesis using bu by (intro exI [of _ ?s] exI [of _ ?L]) simp
qed

subsection \<open>Lemmas: malloc\<close>

lemma links_map: "links ptr xs z \<Longrightarrow> map ptr xs = tl (xs @ [z])"
  by (induction xs) (auto simp: neq_Nil_conv)

lemma links_inj: "links ptr (x # xs) x \<Longrightarrow> distinct (x # xs) \<Longrightarrow> inj_on ptr (set (x # xs))"
  using links_map [of ptr "x # xs" x] distinct_map [of ptr "x # xs"] by simp

lemma links_remove:
  assumes "links ptr (us @ v # ws) z" and "us \<noteq> []" and "distinct (us @ v # ws)"
  shows "links (ptr(last us := ptr v)) (us @ ws) z"
proof -
  have l: "links ptr us v" "links ptr (v # ws) z" using assms(1,2) links_append [of us "v # ws"] by auto
  have "last us \<notin> set ws" using assms(3) last_in_set [OF assms(2)] by (auto simp del: last_in_set)
  then have "links (ptr(last us := ptr v)) ws z" using l(2) by (simp add: links_upd)
  moreover have "links (ptr(last us := ptr v)) us (ptr v)" using links_relink [OF l(1) assms(2)] assms(3) by simp
  ultimately show ?thesis using l(2) links_append [of us ws] assms(2) by (cases ws) auto
qed

lemma blocks_split:
  assumes ok: "blocks_ok hb s X" and v: "v \<in> X" and k: "0 < k" "k < hsize s v"
    and t: "hsize t = (hsize s)(v := k, v + k := hsize s v - k)" "brk t = brk s"
  shows "blocks_ok hb t (insert (v + k) X)" "v + k \<notin> X"
proof -
  have nin: "v + k \<notin> X" using blocks_less [OF ok v, of "v + k"] k by auto
  have ht: "hsize t a = hsize s a" if "a \<in> X" "a \<noteq> v" for a using that nin t by auto
  have tv: "hsize t v = k" "hsize t (v + k) = hsize s v - k" using t k by auto
  show "v + k \<notin> X" by (rule nin)
  show "blocks_ok hb t (insert (v + k) X)"
  proof (rule blocks_okI)
    fix a assume "a \<in> insert (v + k) X"
    then show "hb \<le> a \<and> 0 < hsize t a \<and> a + hsize t a \<le> brk t"
      using blocks_okD(1-3) [OF ok, of a] blocks_okD(1-3) [OF ok v] ht [of a] tv k t(2) by (cases "a = v"; cases "a = v + k") auto
  next
    fix a b assume a: "a \<in> insert (v + k) X" and b: "b \<in> insert (v + k) X" and ab: "a < b"
    consider "a = v" | "a = v + k" "b \<in> X" "v < b" | "a \<in> X" "a \<noteq> v" using a b ab by auto
    then show "a + hsize t a \<le> b"
    proof cases
      case 1
      then show ?thesis using blocks_less [OF ok v, of b] tv k ab b by auto
    next
      case 2
      then show ?thesis using blocks_less [OF ok v, of b] tv k by auto
    next
      case 3
      then show ?thesis using blocks_less [OF ok 3(1), of b] blocks_less [OF ok 3(1) v] blocks_less [OF ok v 3(1)] ht [OF 3] k ab b by (cases "b \<in> X"; cases "a < v") auto
    qed
  qed
qed

lemma ring_okD:
  assumes "ring_ok base hb s L A" and "base < hb"
  shows "links (hptr s) (base # L) base" "sorted_wrt (<) L" "hsize s base = 0" "freep s \<in> set (base # L)"
    "set L \<inter> A = {}" "blocks_ok hb s (set L \<union> A)" "distinct (base # L)" "base \<notin> A"
proof -
  show r: "links (hptr s) (base # L) base" "sorted_wrt (<) L" "hsize s base = 0" "freep s \<in> set (base # L)"
    "set L \<inter> A = {}" "blocks_ok hb s (set L \<union> A)" using assms(1) by (auto simp: ring_ok_def)
  show "distinct (base # L)" using strict_sorted_iff [of L] r(2) blocks_okD(1) [OF r(6)] assms(2) by fastforce
  show "base \<notin> A" using blocks_okD(1) [OF r(6)] assms(2) by fastforce
qed

lemma take_ok:
  assumes ring: "ring_ok base hb s L A" and b: "base < hb" and n: "0 < n"
    and pv: "prev \<in> set (base # L)" "v \<in> set (base # L)" "hptr s prev = v" "n \<le> hsize s v"
  shows "\<exists>bp s' L'. malloc_take n prev v s = (bp + 1, s') \<and> ring_ok base hb s' L' (insert bp A) \<and> bp \<notin> A \<and>
    hsize s' bp = n \<and> brk s' = brk s \<and> bp \<in> block s v \<and> v \<in> set L \<and>
    (\<forall>a. a \<notin> set (base # L) \<and> a \<noteq> bp \<longrightarrow> hptr s' a = hptr s a \<and> hsize s' a = hsize s a)"
proof -
  note r = ring_okD [OF ring b]
  have vL: "v \<in> set L" using pv(2,4) r(3) n by auto
  have vA: "v \<notin> A" using vL r(5) by auto
  show ?thesis
  proof (cases "hsize s v = n")
    case True
    obtain xs ws where L: "L = xs @ v # ws" using vL by (meson split_list)
    have "hptr s (last (base # xs)) = v"
      using links_last [of "hptr s" "base # xs" v] r(1) links_append [of "base # xs" "v # ws" "hptr s" base] L by simp
    moreover have "last (base # xs) \<in> set (base # L)" using L by auto
    ultimately have pl: "prev = last (base # xs)" using inj_onD [OF links_inj [OF r(1,7)]] pv(1,3) by metis
    have nv: "v \<noteq> prev" using pl r(7) L by auto
    let ?s = "(set_ptr prev (hptr s v) s)\<lparr>freep := prev\<rparr>"
    have "links (hptr ?s) (base # xs @ ws) base"
      using links_remove [of "hptr s" "base # xs" v ws base] r(1,7) L pl by simp
    moreover have "prev \<in> set (base # xs @ ws)" using pl by auto
    moreover have "set (xs @ ws) \<inter> insert v A = {}" using r(5,7) L by auto
    moreover have "blocks_ok hb ?s (set (xs @ ws) \<union> insert v A)"
      using r(6) L blocks_cong [of ?s s] by (simp add: Un_ac insert_commute)
    ultimately have "ring_ok base hb ?s (xs @ ws) (insert v A)" using r(2,3) L by (auto simp: ring_ok_def sorted_wrt_append)
    then show ?thesis using True n vL vA pv(1)
      by (intro exI [of _ v] exI [of _ ?s] exI [of _ "xs @ ws"]) (auto simp: malloc_take_def block_def)
  next
    case False
    define k where "k = hsize s v - n"
    have k: "0 < k" "k < hsize s v" "hsize s v - k = n" using False pv(4) n by (auto simp: k_def)
    let ?s = "(set_size (v + k) n (set_size v k s))\<lparr>freep := prev\<rparr>"
    have sp: "blocks_ok hb ?s (insert (v + k) (set L \<union> A))" "v + k \<notin> set L \<union> A"
      using blocks_split [OF r(6) _ k(1,2), of ?s] k(3) vL by auto
    have nb: "base < v" using blocks_okD(1) [OF r(6), of v] vL b by simp
    have "ring_ok base hb ?s L (insert (v + k) A)" using r sp pv(1) nb by (auto simp: ring_ok_def)
    moreover have "malloc_take n prev v s = (v + k + 1, ?s)" using False by (simp add: malloc_take_def Let_def k_def)
    ultimately show ?thesis using sp(2) vL k n
      by (intro exI [of _ "v + k"] exI [of _ ?s] exI [of _ L]) (auto simp: block_def)
  qed
qed

lemma malloc_search:
  assumes "links (hptr s) us z" and "us \<noteq> []" and "distinct us" and "last us = freep s" and "hptr s prevp = hd us"
  shows "(\<exists>prev v. prev \<in> insert prevp (set us) \<and> v \<in> set us \<and> hptr s prev = v \<and> n \<le> hsize s v \<and>
      malloc_loop grow n prevp (hd us) s = Some (malloc_take n prev v s)) \<or>
    (\<forall>v\<in>set us. hsize s v < n) \<and> malloc_loop grow n prevp (hd us) s =
      (case morecore grow n s of None \<Rightarrow> None
       | Some (p, s) \<Rightarrow> if p = 0 then Some (0, s) else malloc_loop grow n p (hptr s p) s)"
  using assms
proof (induction us arbitrary: prevp)
  case (Cons u us)
  consider "n \<le> hsize s u" | "hsize s u < n" "us = []" | "hsize s u < n" "us \<noteq> []" by fastforce
  then show ?case
  proof cases
    case 1
    then show ?thesis using Cons.prems(5) by (subst malloc_loop.simps) auto
  next
    case 2
    then show ?thesis using Cons.prems(4) by (subst (2) malloc_loop.simps) auto
  next
    case 3
    have "u \<noteq> freep s" using Cons.prems(3,4) 3(2) last_in_set [OF 3(2)] by (auto simp del: last_in_set)
    then have "malloc_loop grow n prevp u s = malloc_loop grow n u (hptr s u) s" using 3(1) by (subst malloc_loop.simps) simp
    moreover have "hptr s u = hd us" using Cons.prems(1) 3(2) by simp
    ultimately show ?thesis using Cons.IH [of u] Cons.prems 3 by auto
  qed
qed simp

lemma ring_rotation:
  assumes "ring_ok base hb s L A" and "base < hb"
  obtains R where "links (hptr s) R (hd R)" "R \<noteq> []" "distinct R" "last R = freep s" "set R = set (base # L)" "hptr s (freep s) = hd R"
proof -
  note r = ring_okD [OF assms]
  obtain us vs where R: "base # L = us @ freep s # vs" using r(4) by (meson split_list)
  let ?R = "vs @ us @ [freep s]"
  have "links (hptr s) ((us @ [freep s]) @ vs) (hd ((us @ [freep s]) @ vs))" using r(1) R by (metis append.assoc append_Cons append_Nil list.sel(1))
  then have l: "links (hptr s) ?R (hd ?R)" by (rule links_rotate)
  moreover have "set ?R = set (base # L)" "distinct ?R" using r(7) unfolding R by auto
  moreover have "hptr s (freep s) = hd ?R" using links_last [OF l] by simp
  ultimately show ?thesis using that [of ?R] by simp
qed

text \<open>The step of \<open>malloc\<close> that takes a block from the ring, or finds none that is large enough.\<close>

lemma malloc_ring:
  assumes ring: "ring_ok base hb s L A" and b: "base < hb" and n: "0 < n"
  shows "(\<exists>bp s' L' v. malloc_loop grow n (freep s) (hptr s (freep s)) s = Some (bp + 1, s') \<and> ring_ok base hb s' L' (insert bp A) \<and>
      bp \<notin> A \<and> hsize s' bp = n \<and> brk s' = brk s \<and> v \<in> set L \<and> bp \<in> block s v \<and>
      (\<forall>a. a \<notin> set (base # L) \<and> a \<noteq> bp \<longrightarrow> hptr s' a = hptr s a \<and> hsize s' a = hsize s a)) \<or>
    (\<forall>v\<in>set L. hsize s v < n) \<and> malloc_loop grow n (freep s) (hptr s (freep s)) s =
      (case morecore grow n s of None \<Rightarrow> None
       | Some (p, s) \<Rightarrow> if p = 0 then Some (0, s) else malloc_loop grow n p (hptr s p) s)"
proof -
  obtain R where R: "links (hptr s) R (hd R)" "R \<noteq> []" "distinct R" "last R = freep s" "set R = set (base # L)" "hptr s (freep s) = hd R"
    using ring_rotation [OF ring b] by blast
  have f: "freep s \<in> set R" using R(2,4) last_in_set by metis
  from malloc_search [OF R(1-4) R(6), of n grow] show ?thesis
  proof (elim disjE exE conjE)
    fix prev v
    assume h: "prev \<in> insert (freep s) (set R)" "v \<in> set R" "hptr s prev = v" "n \<le> hsize s v"
      and m: "malloc_loop grow n (freep s) (hd R) s = Some (malloc_take n prev v s)"
    have "prev \<in> set (base # L)" "v \<in> set (base # L)" using h(1,2) f R(5) by auto
    from take_ok [OF ring b n this h(3,4)] show ?thesis using m R(6) by (intro disjI1) (elim exE, auto)
  next
    assume "\<forall>v\<in>set R. hsize s v < n"
      "malloc_loop grow n (freep s) (hd R) s = (case morecore grow n s of None \<Rightarrow> None
       | Some (p, s) \<Rightarrow> if p = 0 then Some (0, s) else malloc_loop grow n p (hptr s p) s)"
    then show ?thesis using R(5,6) by simp
  qed
qed

lemma sbrk_grow: "bytes < 2 ^ 31 \<Longrightarrow> sbrk grow bytes s = (if grow (brk s) (int bytes) then Some (brk s, s\<lparr>brk := brk s + bytes div 8\<rparr>) else None)"
  by (simp add: sbrk_def int32_def Let_def nat_add_distrib zdiv_int [symmetric] del: of_nat_div)

lemma morecore_ok:
  assumes ring: "ring_ok base hb s L A" and b: "0 < base" "base < hb" "hb \<le> brk s" and n: "8 * n < 2 ^ 31"
    and g: "grow (brk s) (int (8 * max 4096 n))"
  shows "\<exists>s' L'. morecore grow n s = Some (freep s', s') \<and> freep s' \<noteq> 0 \<and> ring_ok base hb s' L' A \<and> hb \<le> brk s' \<and>
    (\<exists>x\<in>set L'. n \<le> hsize s' x) \<and>
    (\<forall>a. a \<notin> set (base # L) \<and> a < brk s \<longrightarrow> hptr s' a = hptr s a \<and> hsize s' a = hsize s a)"
proof -
  note r = ring_okD [OF ring b(2)]
  define nu where "nu = max 4096 n"
  let ?hp = "brk s"
  let ?s = "set_size ?hp nu (s\<lparr>brk := brk s + nu\<rparr>)"
  have below: "x < ?hp" if "x \<in> set L \<union> A" for x using blocks_okD(2,3) [OF r(6) that] by simp
  have sz: "hsize ?s x = hsize s x" if "x \<in> set L \<union> A" for x using below [OF that] by simp
  have bk: "blocks_ok hb ?s (set L \<union> insert ?hp A)"
  proof (rule blocks_okI)
    fix x assume "x \<in> set L \<union> insert ?hp A"
    then show "hb \<le> x \<and> 0 < hsize ?s x \<and> x + hsize ?s x \<le> brk ?s"
      using blocks_okD(1-3) [OF r(6), of x] sz [of x] b(3) by (cases "x = ?hp") (auto simp: nu_def)
  next
    fix x y assume "x \<in> set L \<union> insert ?hp A" "y \<in> set L \<union> insert ?hp A" "x < y"
    then show "x + hsize ?s x \<le> y"
      using blocks_less [OF r(6), of x y] blocks_okD(3) [OF r(6), of x] sz [of x] below [of y] by (cases "x = ?hp"; cases "y = ?hp") auto
  qed
  have "?hp \<notin> set L \<union> A" using below by blast
  then have r': "ring_ok base hb ?s L (insert ?hp A)" using r bk b by (auto simp: ring_ok_def)
  have e: "(if n < 4096 then 4096 else n) = nu" "nu * 8 < 2 ^ 31" "nu * 8 = 8 * nu" using n by (auto simp: nu_def)
  have sb: "sbrk grow (nu * 8) s = Some (brk s, s\<lparr>brk := brk s + nu\<rparr>)"
    using sbrk_grow [OF e(2)] g by (simp add: nu_def [symmetric] e(3))
  have m: "morecore grow n s = map_option (\<lambda>s. (freep s, s)) (free (?hp + 1) ?s)"
    unfolding morecore_def e(1) Let_def sb by simp
  obtain t L' where t: "free (?hp + 1) ?s = Some t" "ring_ok base hb t L' (insert ?hp A - {?hp})" "brk t = brk ?s"
      "\<exists>x\<in>set L'. hsize ?s ?hp \<le> hsize t x"
      "\<forall>a. a \<notin> set (base # L) \<and> a \<noteq> ?hp \<longrightarrow> hptr t a = hptr ?s a \<and> hsize t a = hsize ?s a"
    using free_ok [OF r' _ b(2), of ?hp] by blast
  have rt: "ring_ok base hb t L' A" using t(2) below by (metis Diff_insert_absorb UnCI less_irrefl)
  have "freep t \<noteq> 0" using ring_okD(4,6) [OF rt b(2)] b blocks_okD(1) [of hb t "set L' \<union> A" "freep t"] by auto
  then show ?thesis using m t rt b(3) by (intro exI [of _ t] exI [of _ L']) (auto simp: nu_def)
qed

lemma units_eq: "nbytes + 16 \<le> 2 ^ 31 \<Longrightarrow> 8 * units nbytes < 2 ^ 31 \<and> nbytes + 8 \<le> 8 * units nbytes \<and> 0 < units nbytes"
  by (simp add: units_def; linarith)

lemma intact_frame:
  assumes ring: "ring_ok base hb s L A" and b: "base < hb" and M: "\<forall>x\<in>A. block s x \<inter> M = {}"
    and f: "\<forall>a. a \<notin> set (base # L) \<and> a \<notin> M \<longrightarrow> hptr s' a = hptr s a \<and> hsize s' a = hsize s a"
  shows "intact A s s'"
  unfolding intact_def
proof (intro ballI)
  fix x a assume x: "x \<in> A" and a: "a \<in> block s x"
  note r = ring_okD [OF ring b]
  have "a \<noteq> base" using blocks_okD(1) [OF r(6), of x] x a b by (auto simp: block_def)
  moreover have "a \<notin> set L"
  proof
    assume "a \<in> set L"
    moreover have "a \<noteq> x" using calculation x r(5) by auto
    ultimately show False
      using blocks_okD(4) [OF r(6), of a x] blocks_okD(2) [OF r(6), of a] x a by (auto simp: block_def)
  qed
  ultimately show "hptr s' a = hptr s a \<and> hsize s' a = hsize s a" using f M x a by auto
qed

lemma intact_trans: "intact A s t \<Longrightarrow> intact A t u \<Longrightarrow> \<forall>x\<in>A. hsize s x \<noteq> 0 \<Longrightarrow> intact A s u"
proof -
  assume st: "intact A s t" and tu: "intact A t u" and nz: "\<forall>x\<in>A. hsize s x \<noteq> 0"
  have "block t x = block s x" if "x \<in> A" for x using st nz that by (force simp: intact_def block_def)
  then show ?thesis using st tu by (simp add: intact_def)
qed

lemma malloc_take_intact:
  assumes ring: "ring_ok base hb s L A" and b: "base < hb" and v: "v \<in> set L" "bp \<in> block s v"
    and f: "\<forall>a. a \<notin> set (base # L) \<and> a \<noteq> bp \<longrightarrow> hptr s' a = hptr s a \<and> hsize s' a = hsize s a"
  shows "intact A s s'"
proof (rule intact_frame [OF ring b, of "{bp}"])
  have "block s x \<inter> block s v = {}" if "x \<in> A" for x
    by (rule blocks_apart [OF ring_okD(6) [OF ring b]]) (use that v(1) ring_okD(5) [OF ring b] in auto)
  then show "\<forall>x\<in>A. block s x \<inter> {bp} = {}" using v(2) by blast
qed (use f in auto)

text \<open>\<open>malloc\<close> on a ring: one search, and a second one after \<open>morecore\<close>.\<close>

lemma malloc_loop_ok:
  assumes ring: "ring_ok base hb s L A" and b: "0 < base" "base < hb" "hb \<le> brk s" and n: "0 < n" "8 * n < 2 ^ 31"
  shows "\<exists>q s'. malloc_loop grow n (freep s) (hptr s (freep s)) s = Some (q, s') \<and> intact A s s' \<and> hb \<le> brk s' \<and>
    (if q = 0 then s' = s \<and> \<not> grow (brk s) (int (8 * max 4096 n))
     else \<exists>bp L'. q = bp + 1 \<and> bp \<notin> A \<and> hsize s' bp = n \<and> ring_ok base hb s' L' (insert bp A))"
  using malloc_ring [OF ring b(2) n(1), of grow]
proof (elim disjE exE conjE)
  fix bp s' L' v
  assume h: "malloc_loop grow n (freep s) (hptr s (freep s)) s = Some (bp + 1, s')" "ring_ok base hb s' L' (insert bp A)"
      "bp \<notin> A" "hsize s' bp = n" "brk s' = brk s" and v: "v \<in> set L" "bp \<in> block s v"
      "\<forall>a. a \<notin> set (base # L) \<and> a \<noteq> bp \<longrightarrow> hptr s' a = hptr s a \<and> hsize s' a = hsize s a"
  then show ?thesis using malloc_take_intact [OF ring b(2) v] b(3) by auto
next
  assume m: "malloc_loop grow n (freep s) (hptr s (freep s)) s = (case morecore grow n s of None \<Rightarrow> None
     | Some (p, s) \<Rightarrow> if p = 0 then Some (0, s) else malloc_loop grow n p (hptr s p) s)"
  show ?thesis
  proof (cases "grow (brk s) (int (8 * max 4096 n))")
    case False
    have "max 4096 n * 8 < 2 ^ 31" "max 4096 n * 8 = 8 * max 4096 n" "(if n < 4096 then 4096 else n) = max 4096 n" using n by auto
    then have "morecore grow n s = Some (0, s)" using False sbrk_grow [of "max 4096 n * 8" grow s] by (simp only: morecore_def Let_def) simp
    then show ?thesis using m False b by (simp add: intact_def)
  next
    case True
    obtain t L1 where t: "morecore grow n s = Some (freep t, t)" "freep t \<noteq> 0" "ring_ok base hb t L1 A" "hb \<le> brk t"
        "\<exists>x\<in>set L1. n \<le> hsize t x" "\<forall>a. a \<notin> set (base # L) \<and> a < brk s \<longrightarrow> hptr t a = hptr s a \<and> hsize t a = hsize s a"
      using morecore_ok [OF ring b n(2), of grow] True by blast
    have it: "intact A s t"
      by (rule intact_frame [OF ring b(2), of "{a. brk s \<le> a}"])
        (use t(6) blocks_okD(3) [OF ring_okD(6) [OF ring b(2)]] in \<open>force simp: block_def not_le\<close>)+
    have nz: "\<forall>x\<in>A. hsize s x \<noteq> 0" using blocks_okD(2) [OF ring_okD(6) [OF ring b(2)]] by fastforce
    from malloc_ring [OF t(3) b(2) n(1), of grow] show ?thesis
    proof (elim disjE exE conjE)
      fix bp s' L' v
      assume h: "malloc_loop grow n (freep t) (hptr t (freep t)) t = Some (bp + 1, s')" "ring_ok base hb s' L' (insert bp A)"
          "bp \<notin> A" "hsize s' bp = n" "brk s' = brk t" and v: "v \<in> set L1" "bp \<in> block t v"
          "\<forall>a. a \<notin> set (base # L1) \<and> a \<noteq> bp \<longrightarrow> hptr s' a = hptr t a \<and> hsize s' a = hsize t a"
      have "malloc_loop grow n (freep s) (hptr s (freep s)) s = Some (bp + 1, s')" using m t(1,2) h(1) by simp
      moreover have "intact A s s'" by (rule intact_trans [OF it malloc_take_intact [OF t(3) b(2) v] nz])
      ultimately show ?thesis using h t(4) by (intro exI [of _ "bp + 1"] exI [of _ s']) auto
    next
      assume "\<forall>v\<in>set L1. hsize t v < n"
      then have False using t(5) by force
      then show ?thesis ..
    qed
  qed
qed

lemma heap_okI:
  assumes "ring_ok base hb s L A" and "0 < base" and "base < hb" and "hb \<le> brk s"
  shows "heap_ok base hb s A"
proof -
  have "freep s \<noteq> 0"
    using ring_okD(4,6) [OF assms(1,3)] assms(2,3) blocks_okD(1) [of hb s "set L \<union> A" "freep s"] by auto
  then show ?thesis using assms by (auto simp: heap_ok_def)
qed

lemma malloc_ok:
  assumes ok: "heap_ok base hb s A" and n: "nbytes + 16 \<le> 2 ^ 31"
  shows "\<exists>q s'. malloc grow base nbytes s = Some (q, s') \<and> intact A s s' \<and>
    (if q = 0 then heap_ok base hb s' A \<and> \<not> grow (brk s) (int (8 * max 4096 (units nbytes)))
     else q - 1 \<notin> A \<and> heap_ok base hb s' (insert (q - 1) A) \<and> nbytes + 8 \<le> 8 * hsize s' (q - 1))"
proof -
  have b: "0 < base" "base < hb" "hb \<le> brk s" using ok by (auto simp: heap_ok_def)
  define t where "t = (if freep s = 0 then set_size base 0 (set_ptr base base (s\<lparr>freep := base\<rparr>)) else s)"
  obtain L where t: "ring_ok base hb t L A" "brk t = brk s" "intact A s t"
  proof (cases "freep s = 0")
    case True
    then have "A = {}" using ok by (simp add: heap_ok_def)
    then show ?thesis using that [of "[]"] True by (simp add: t_def ring_ok_def blocks_ok_def intact_def)
  qed (use ok that in \<open>auto simp: t_def heap_ok_def intact_def\<close>)
  have nz: "\<forall>x\<in>A. hsize s x \<noteq> 0"
    using ok blocks_okD(2) [OF ring_okD(6) [OF _ b(2)]] by (cases "freep s = 0") (fastforce simp: heap_ok_def)+
  have bt: "hb \<le> brk t" using b t(2) by simp
  have u: "0 < units nbytes" "8 * units nbytes < 2 ^ 31" "nbytes + 8 \<le> 8 * units nbytes" using units_eq [OF n] by auto
  obtain q s' where q: "malloc_loop grow (units nbytes) (freep t) (hptr t (freep t)) t = Some (q, s')" "intact A t s'" "hb \<le> brk s'"
      "if q = 0 then s' = t \<and> \<not> grow (brk t) (int (8 * max 4096 (units nbytes)))
       else \<exists>bp L'. q = bp + 1 \<and> bp \<notin> A \<and> hsize s' bp = units nbytes \<and> ring_ok base hb s' L' (insert bp A)"
    using malloc_loop_ok [OF t(1) b(1,2) bt u(1,2)] by blast
  have "malloc grow base nbytes s = Some (q, s')" using q(1) by (simp add: malloc_def t_def Let_def)
  moreover have "intact A s s'" using intact_trans [OF t(3) q(2) nz] .
  moreover have "heap_ok base hb s' A \<and> \<not> grow (brk s) (int (8 * max 4096 (units nbytes)))" if "q = 0"
    using that q(4) t(2) heap_okI [OF t(1) b(1,2) bt] by simp
  moreover have "q - 1 \<notin> A \<and> heap_ok base hb s' (insert (q - 1) A) \<and> nbytes + 8 \<le> 8 * hsize s' (q - 1)" if "q \<noteq> 0"
    using that q(3,4) heap_okI [OF _ b(1,2)] u(3) by auto
  ultimately show ?thesis by (intro exI [of _ q] exI [of _ s']) simp
qed

lemma free_heap:
  assumes ok: "heap_ok base hb s A" and bp: "bp \<in> A"
  shows "\<exists>s'. free (bp + 1) s = Some s' \<and> heap_ok base hb s' (A - {bp}) \<and> intact (A - {bp}) s s'"
proof -
  obtain L where r: "ring_ok base hb s L A" and b: "0 < base" "base < hb" "hb \<le> brk s"
    using ok bp by (auto simp: heap_ok_def split: if_splits)
  obtain s' L' where f: "free (bp + 1) s = Some s'" "ring_ok base hb s' L' (A - {bp})" "brk s' = brk s"
      "\<forall>a. a \<notin> set (base # L) \<and> a \<noteq> bp \<longrightarrow> hptr s' a = hptr s a \<and> hsize s' a = hsize s a"
    using free_ok [OF r bp b(2)] by blast
  note rd = ring_okD [OF r b(2)]
  have "ring_ok base hb s L (A - {bp})" using rd(1-5) blocks_subset [OF rd(6), of "set L \<union> (A - {bp})"] by (auto simp: ring_ok_def)
  moreover have "\<forall>x\<in>A - {bp}. block s x \<inter> {bp} = {}"
    using blocks_apart [OF rd(6), of _ bp] blocks_okD(2) [OF rd(6), of bp] bp by (fastforce simp: block_def)
  ultimately have "intact (A - {bp}) s s'" by (rule intact_frame [OF _ b(2)]) (use f(4) in auto)
  then show ?thesis using f(1) heap_okI [OF f(2) b(1,2)] f(3) b(3) by auto
qed

subsection \<open>Properties\<close>

text \<open>
  C6: The user-level allocator is safe. Let \<open>A\<close> be the blocks a process has in use on a well-formed
  heap. A request of at most 2^31 - 16 bytes returns. It returns 0 only when the kernel refuses to
  extend the process. Otherwise it returns a block that was not in use, is apart from all the blocks
  in use and holds the requested bytes after its header. Freeing any block of \<open>A\<close> returns, and takes
  exactly that block out of use. Neither call writes to a block that stays in use.
\<close>

theorem allocator_safe:
  assumes ok: "heap_ok base hb s A" and n: "nbytes + 16 \<le> 2 ^ 31"
  shows "(\<exists>q s'. malloc grow base nbytes s = Some (q, s') \<and> intact A s s' \<and>
      (if q = 0 then heap_ok base hb s' A \<and> \<not> grow (brk s) (int (8 * max 4096 (units nbytes)))
       else q - 1 \<notin> A \<and> heap_ok base hb s' (insert (q - 1) A) \<and> nbytes + 8 \<le> 8 * hsize s' (q - 1))) \<and>
    (\<forall>bp\<in>A. \<exists>s'. free (bp + 1) s = Some s' \<and> heap_ok base hb s' (A - {bp}) \<and> intact (A - {bp}) s s')"
  using malloc_ok [OF ok n] free_heap [OF ok] by blast

theorem allocator_safe_witness:
  "\<exists>q s'. malloc (\<lambda>b n. n \<le> 65536) 10 100 \<lparr>hptr = \<lambda>a. 0, hsize = \<lambda>a. 0, freep = 0, brk = 512\<rparr> = Some (q, s') \<and>
     q \<noteq> 0 \<and> heap_ok 10 512 s' {q - 1} \<and> 108 \<le> 8 * hsize s' (q - 1)"
proof -
  have "heap_ok 10 512 \<lparr>hptr = \<lambda>a. 0, hsize = \<lambda>a. 0, freep = 0, brk = 512\<rparr> {}" by (simp add: heap_ok_def)
  from allocator_safe [OF this, of 100 "\<lambda>b n. n \<le> 65536"] show ?thesis by (auto simp: units_def split: if_splits)
qed

end
