(* ===== verification/Spec2Isabelle.thy ===== *)
theory Spec2Isabelle
  imports Sched_Inv Trap Fs_Spec Sysfile_Inv Sh Umalloc
begin

text \<open>
  Verification of an xv6 kernel with priority scheduling.
\<close>

end
